(* ===== verification/Prelude.thy ===== *)
theory Prelude
  imports Complex_Main
begin

text \<open>
  Shared vocabulary of the development: the names of the model's scalar types, the way a Go
  call returns (\<open>ret\<close>: a value with an optional error, or a panic), signed 64-bit wrap-around
  and the saturation of \<open>time.Time.Sub\<close>, the world's clock as a state-passing reading, and the
  generic lemmas the component theories share.
\<close>

named_theorems go_unfold \<open>definitions that component proofs unfold together\<close>
named_theorems store_frame \<open>which part of a store's state an operation leaves alone\<close>

subsection \<open>Scalar types\<close>

text \<open>
  An instant is its distance in nanoseconds from Go's zero time (year 1), so \<open>time.Time{}\<close> is
  \<open>0\<close> and \<open>IsZero\<close> is equality with it; a duration is a number of nanoseconds. Both are
  unbounded here: the code compares and adds readings of the present clock, which are some three
  centuries away from the ends of the 64-bit range. Where a computed value may leave the range
  (\<open>Sub\<close>, a product of a reply with a unit), the wrap or saturation is written out.
\<close>

type_synonym time = int
type_synonym duration = int

abbreviation (input) zero_time :: time where "zero_time \<equiv> 0"

definition Microsecond :: duration where "Microsecond = 1000"
definition Millisecond :: duration where "Millisecond = 1000000"
definition Second :: duration where "Second = 1000000000"
definition Minute :: duration where "Minute = 60000000000"
definition Hour :: duration where "Hour = 3600000000000"

lemmas duration_units = Microsecond_def Millisecond_def Second_def Minute_def Hour_def

definition max_int64 :: int where "max_int64 = 2 ^ 63 - 1"
definition min_int64 :: int where "min_int64 = - (2 ^ 63)"

definition wrap64 :: "int \<Rightarrow> int" where
  "wrap64 n = (n + 2 ^ 63) mod 2 ^ 64 - 2 ^ 63"

definition sat64 :: "int \<Rightarrow> int" where
  "sat64 n = (if n > max_int64 then max_int64 else if n < min_int64 then min_int64 else n)"

lemmas int64_defs = max_int64_def min_int64_def wrap64_def sat64_def

lemma wrap64_id [simp]: "min_int64 \<le> n \<Longrightarrow> n \<le> max_int64 \<Longrightarrow> wrap64 n = n"
  by (simp add: int64_defs)

lemma wrap64_max: "wrap64 (max_int64 + 1) = min_int64"
  by (simp add: int64_defs)

lemma wrap64_range: "min_int64 \<le> wrap64 n \<and> wrap64 n \<le> max_int64"
  by (simp add: int64_defs)

lemma sat64_id [simp]: "min_int64 \<le> n \<Longrightarrow> n \<le> max_int64 \<Longrightarrow> sat64 n = n"
  by (simp add: sat64_def)

lemma sat64_pos_iff [simp]: "0 < sat64 n \<longleftrightarrow> 0 < n"
  by (auto simp: int64_defs)

lemma sat64_le: "0 \<le> n \<Longrightarrow> sat64 n \<le> n"
  by (auto simp: int64_defs)

subsection \<open>What a Go call gives back\<close>

text \<open>
  Errors are values: a sentinel (\<open>errors.New\<close>), a formatted error, or one wrapped with \<open>%w\<close>.
  A call either panics or returns a pair of a value and an error that may be nil.
\<close>

datatype goerror = Sentinel string | Errorf string | Wrapf string goerror

datatype 'a ret = Panic string | Ret 'a "goerror option"

fun ret_ok :: "'a ret \<Rightarrow> bool" where
  "ret_ok (Ret _ None) = True"
| "ret_ok _ = False"

lemma ret_ok_iff: "ret_ok r \<longleftrightarrow> (\<exists>x. r = Ret x None)"
  by (cases r rule: ret_ok.cases) auto

lemma ret_not_ok_cases:
  assumes "\<not> ret_ok r"
  obtains (panic) m where "r = Panic m" | (err) x e where "r = Ret x (Some e)"
  using assms by (cases r rule: ret_ok.cases) auto

subsection \<open>The clock\<close>

text \<open>
  The code's \<open>now func() time.Time\<close> is a stateful reading of the world. A well-behaved clock
  never runs backwards: \<open>time_of\<close> is the last instant read, and a reading is at or after it.
\<close>

type_synonym 'w clock = "'w \<Rightarrow> time \<times> 'w"

locale monotone_clock =
  fixes now :: "'w clock" and time_of :: "'w \<Rightarrow> time"
  assumes now_ge: "now w = (t, w') \<Longrightarrow> time_of w \<le> t"
    and now_time: "now w = (t, w') \<Longrightarrow> time_of w' = t"
begin

lemma now_mono: "now w = (t, w') \<Longrightarrow> time_of w \<le> time_of w'"
  using now_ge now_time by fastforce

lemma two_readings: "now w = (t, w') \<Longrightarrow> now w' = (t', w'') \<Longrightarrow> t \<le> t'"
  using now_ge now_time by fastforce

end

text \<open>
  \<open>time.Now\<close> itself: a schedule of the delays between future readings. Every finite sequence of
  non-decreasing readings is one of these, and once the schedule is used up the clock stands.
\<close>

type_synonym schedule = "time \<times> nat list"

fun Now :: "schedule clock" where
  "Now (t, []) = (t, (t, []))"
| "Now (t, d # ds) = (t + int d, (t + int d, ds))"

interpretation now_clock: monotone_clock Now fst
proof
  fix w w' :: schedule and t :: time
  assume "Now w = (t, w')"
  then show "fst w \<le> t" and "fst w' = t" by (cases w rule: Now.cases; auto)+
qed

text \<open>
  Time also passes while nobody reads the clock. \<open>Waiting n\<close> lets \<open>n\<close> nanoseconds go by.
\<close>

locale passing_clock = monotone_clock now time_of
  for now :: "'w clock" and time_of :: "'w \<Rightarrow> time" +
  fixes wait :: "nat \<Rightarrow> 'w \<Rightarrow> 'w"
  assumes wait_time: "time_of w \<le> time_of (wait n w)"

definition Waiting :: "nat \<Rightarrow> schedule \<Rightarrow> schedule" where
  "Waiting n = (\<lambda>(t, ds). (t + int n, ds))"

interpretation now_passing: passing_clock Now fst Waiting
  by unfold_locales (simp add: Waiting_def split: prod.split)

text \<open>
  A clock read by a process that is never delayed by more than \<open>lag\<close> between the instant the world
  is at and the reading: each delay of the schedule is cut to the bound.
\<close>

fun Prompt :: "nat \<Rightarrow> schedule clock" where
  "Prompt lag (t, []) = (t, (t, []))"
| "Prompt lag (t, d # ds) = (t + int (min d lag), (t + int (min d lag), ds))"

interpretation prompt_passing: passing_clock "Prompt lag" fst Waiting for lag
proof
  fix w w' :: schedule and t :: time and n :: nat
  show "fst w \<le> fst (Waiting n w)" by (simp add: Waiting_def split: prod.split)
  assume "Prompt lag w = (t, w')"
  then show "fst w \<le> t" and "fst w' = t" by (cases "(lag, w)" rule: Prompt.cases; auto)+
qed

lemma Prompt_lag: "Prompt lag w = (t, w') \<Longrightarrow> t \<le> fst w + int lag"
  by (cases "(lag, w)" rule: Prompt.cases) auto

text \<open>A clock that stands: a world is the present instant.\<close>

definition stopped :: "time clock" where "stopped t = (t, t)"

interpretation stopped_clock: monotone_clock stopped "\<lambda>t. t"
  by unfold_locales (simp_all add: stopped_def)

text \<open>A clock read below a layer that keeps memory of its own.\<close>

definition lift_clock :: "'w clock \<Rightarrow> ('m \<times> 'w) clock" where
  "lift_clock now = (\<lambda>(m, w). case now w of (t, w') \<Rightarrow> (t, (m, w')))"

lemma lift_clock_eq: "lift_clock now (m, w) = (t, x) \<longleftrightarrow> (\<exists>w'. now w = (t, w') \<and> x = (m, w'))"
  by (auto simp: lift_clock_def split: prod.splits)

definition lift_wait :: "(nat \<Rightarrow> 'w \<Rightarrow> 'w) \<Rightarrow> nat \<Rightarrow> 'm \<times> 'w \<Rightarrow> 'm \<times> 'w" where
  "lift_wait wait n = (\<lambda>(m, w). (m, wait n w))"

lemma lift_wait_simps [simp]:
  "lift_wait wait n (m, w) = (m, wait n w)" "fst (lift_wait wait n x) = fst x" "snd (lift_wait wait n x) = wait n (snd x)"
  by (simp_all add: lift_wait_def split: prod.split)

lemma lift_clock_monotone:
  assumes "monotone_clock now time_of"
  shows "monotone_clock (lift_clock now) (\<lambda>x. time_of (snd x))"
proof
  fix w w' :: "'b \<times> 'a" and t
  assume "lift_clock now w = (t, w')"
  then have "now (snd w) = (t, snd w')" by (cases w) (auto simp: lift_clock_eq)
  with assms show "time_of (snd w) \<le> t" and "time_of (snd w') = t"
    by (simp_all add: monotone_clock_def)
qed

subsection \<open>Lists, options and maps\<close>

lemma map_upd_dom_card:
  assumes "finite (dom m)"
  shows "card (dom (m(k \<mapsto> v))) = (if k \<in> dom m then card (dom m) else Suc (card (dom m)))"
  using assms by (simp add: insert_absorb)

lemma card_dom_restrict_le: "finite (dom m) \<Longrightarrow> card (dom (m |` A)) \<le> card (dom m)"
  by (simp add: card_mono)

lemma finite_dom_restrict: "finite (dom m) \<Longrightarrow> finite (dom (m |` A))"
  by simp

lemma list_ex_append_last: "list_ex P (xs @ [x]) \<longleftrightarrow> list_ex P xs \<or> P x"
  by auto

end
