(* ===== verification/GoStrings.thy ===== *)
theory GoStrings
  imports Prelude "HOL-Library.Sublist"
begin

text \<open>
  The part of Go's \<open>strings\<close> and \<open>strconv\<close> packages the service uses, on byte strings
  (\<open>string\<close> is a list of bytes, as in Go). ASCII text is handled here byte by byte, exactly as
  the fast paths of the library do. Case mapping of text that holds a non-ASCII byte needs the
  Unicode tables, which are data and not code of the service: they are the argument
  \<open>unicode\<close>. White space, in contrast, is a short fixed list of runes and is modelled in full.
\<close>

subsection \<open>Bytes\<close>

definition byte :: "char \<Rightarrow> nat" where "byte c = of_char c"

definition is_ascii :: "char \<Rightarrow> bool" where "is_ascii c \<longleftrightarrow> byte c < 128"

definition is_upper :: "char \<Rightarrow> bool" where "is_upper c \<longleftrightarrow> 65 \<le> byte c \<and> byte c \<le> 90"
definition is_lower :: "char \<Rightarrow> bool" where "is_lower c \<longleftrightarrow> 97 \<le> byte c \<and> byte c \<le> 122"
definition is_digit :: "char \<Rightarrow> bool" where "is_digit c \<longleftrightarrow> 48 \<le> byte c \<and> byte c \<le> 57"

definition lower_byte :: "char \<Rightarrow> char" where
  "lower_byte c = (if is_upper c then char_of (byte c + 32) else c)"

definition upper_byte :: "char \<Rightarrow> char" where
  "upper_byte c = (if is_lower c then char_of (byte c - 32) else c)"

lemmas byte_defs = byte_def is_ascii_def is_upper_def is_lower_def is_digit_def
  lower_byte_def upper_byte_def

text \<open>Equations for kernel evaluation: binary integers and the bits of a character in place of
  unary numbers.\<close>

abbreviation code_of :: "char \<Rightarrow> int" where "code_of \<equiv> of_char"

lemma code_of_byte: "code_of c = int (byte c)" by (cases c) (simp add: byte_def)

lemma byte_class_code [code]:
  "is_ascii c \<longleftrightarrow> code_of c < 128" "is_upper c \<longleftrightarrow> 65 \<le> code_of c \<and> code_of c \<le> 90"
  "is_lower c \<longleftrightarrow> 97 \<le> code_of c \<and> code_of c \<le> 122" "is_digit c \<longleftrightarrow> 48 \<le> code_of c \<and> code_of c \<le> 57"
  unfolding code_of_byte is_ascii_def is_upper_def is_lower_def is_digit_def by linarith+

lemma lower_bits: "c = Char b0 b1 b2 b3 b4 b5 b6 b7 \<Longrightarrow> is_upper c \<Longrightarrow> char_of (byte c + 32) = Char b0 b1 b2 b3 b4 True b6 b7"
  by (cases b0; cases b1; cases b2; cases b3; cases b4; cases b5; cases b6; cases b7; simp add: byte_def is_upper_def char_of_def bit_0)

lemma upper_bits: "c = Char b0 b1 b2 b3 b4 b5 b6 b7 \<Longrightarrow> is_lower c \<Longrightarrow> char_of (byte c - 32) = Char b0 b1 b2 b3 b4 False b6 b7"
  by (cases b0; cases b1; cases b2; cases b3; cases b4; cases b5; cases b6; cases b7; simp add: byte_def is_lower_def char_of_def bit_0)

lemma lower_byte_code [code]: "lower_byte (Char b0 b1 b2 b3 b4 b5 b6 b7) =
  (let c = Char b0 b1 b2 b3 b4 b5 b6 b7 in if is_upper c then Char b0 b1 b2 b3 b4 True b6 b7 else c)"
  by (simp add: lower_byte_def lower_bits Let_def)

lemma upper_byte_code [code]: "upper_byte (Char b0 b1 b2 b3 b4 b5 b6 b7) =
  (let c = Char b0 b1 b2 b3 b4 b5 b6 b7 in if is_lower c then Char b0 b1 b2 b3 b4 False b6 b7 else c)"
  by (simp add: upper_byte_def upper_bits Let_def)

lemma byte_char_of [simp]: "n < 256 \<Longrightarrow> byte (char_of n) = n"
  by (simp add: byte_def)

lemma byte_less: "byte c < 256"
  by (simp add: byte_def)

lemma byte_inject [simp]: "byte c = byte d \<longleftrightarrow> c = d"
  by (simp add: byte_def)

lemma lower_byte_ascii [simp]: "is_ascii (lower_byte c) \<longleftrightarrow> is_ascii c"
  using byte_less [of c] by (auto simp: lower_byte_def is_upper_def is_ascii_def)

lemma lower_byte_idem [simp]: "lower_byte (lower_byte c) = lower_byte c"
  using byte_less [of c] by (auto simp: lower_byte_def is_upper_def)

lemma lower_byte_not_upper: "\<not> is_upper (lower_byte c)"
  using byte_less [of c] by (auto simp: lower_byte_def is_upper_def)

lemma lower_upper_byte [simp]: "lower_byte (upper_byte c) = lower_byte c"
proof (cases "is_lower c")
  case True
  then have "97 \<le> byte c" "byte c \<le> 122" by (simp_all add: is_lower_def)
  then have u: "upper_byte c = char_of (byte c - 32)" and b: "byte (upper_byte c) = byte c - 32"
    using True byte_less [of c] by (simp_all add: upper_byte_def)
  with \<open>97 \<le> byte c\<close> \<open>byte c \<le> 122\<close> have "is_upper (upper_byte c)"
    unfolding is_upper_def by linarith
  with b \<open>97 \<le> byte c\<close> have "lower_byte (upper_byte c) = char_of (byte c)"
    by (simp add: lower_byte_def)
  also have "\<dots> = c" by (simp add: byte_def)
  finally show ?thesis using True by (simp add: lower_byte_def is_upper_def is_lower_def)
next
  case False
  then show ?thesis by (simp add: upper_byte_def)
qed

abbreviation ascii :: "string \<Rightarrow> bool" where "ascii s \<equiv> list_all is_ascii s"

subsection \<open>Case\<close>

record unicode =
  uc_ToLower :: "string \<Rightarrow> string"
  uc_ToUpper :: "string \<Rightarrow> string"
  uc_EqualFold :: "string \<Rightarrow> string \<Rightarrow> bool"

text \<open>Tables that know no letter beyond ASCII, for evaluating the model.\<close>

definition ascii_unicode :: unicode where
  "ascii_unicode = \<lparr>uc_ToLower = id, uc_ToUpper = id, uc_EqualFold = (=)\<rparr>"

definition ToLower :: "unicode \<Rightarrow> string \<Rightarrow> string" where
  "ToLower U s = (if ascii s then map lower_byte s else uc_ToLower U s)"

definition ToUpper :: "unicode \<Rightarrow> string \<Rightarrow> string" where
  "ToUpper U s = (if ascii s then map upper_byte s else uc_ToUpper U s)"

text \<open>
  \<open>EqualFold\<close> walks both strings and leaves for the Unicode tables at the first position
  where either holds a non-ASCII byte.
\<close>

fun EqualFold :: "unicode \<Rightarrow> string \<Rightarrow> string \<Rightarrow> bool" where
  "EqualFold U (c # s) (d # t) =
     (if is_ascii c \<and> is_ascii d
      then lower_byte c = lower_byte d \<and> EqualFold U s t
      else uc_EqualFold U (c # s) (d # t))"
| "EqualFold U [] [] = True"
| "EqualFold U _ _ = False"

lemma ToLower_ascii: "ascii s \<Longrightarrow> ToLower U s = map lower_byte s"
  by (simp add: ToLower_def)

lemma ToLower_append:
  "ascii s \<Longrightarrow> ascii t \<Longrightarrow> ToLower U (s @ t) = ToLower U s @ ToLower U t"
  by (simp add: ToLower_def)

lemma EqualFold_ascii:
  "ascii s \<Longrightarrow> ascii t \<Longrightarrow> EqualFold U s t \<longleftrightarrow> map lower_byte s = map lower_byte t"
  by (induction U s t rule: EqualFold.induct) auto

subsection \<open>Prefixes, suffixes, cutting and splitting\<close>

definition HasPrefix :: "string \<Rightarrow> string \<Rightarrow> bool" where "HasPrefix s p \<longleftrightarrow> prefix p s"
definition HasSuffix :: "string \<Rightarrow> string \<Rightarrow> bool" where "HasSuffix s p \<longleftrightarrow> suffix p s"

definition CutSuffix :: "string \<Rightarrow> string \<Rightarrow> string option" where
  "CutSuffix s p = (if suffix p s then Some (take (length s - length p) s) else None)"

definition TrimSuffix :: "string \<Rightarrow> string \<Rightarrow> string" where
  "TrimSuffix s p = (case CutSuffix s p of Some b \<Rightarrow> b | None \<Rightarrow> s)"

definition IndexByte :: "string \<Rightarrow> char \<Rightarrow> int" where
  "IndexByte s c = (if c \<in> set s then int (length (takeWhile (\<lambda>x. x \<noteq> c) s)) else -1)"

text \<open>\<open>strings.Cut\<close> around a one-byte separator: what is before, what is after, was it there.\<close>

definition Cut :: "string \<Rightarrow> char \<Rightarrow> string \<times> string \<times> bool" where
  "Cut s c = (if c \<in> set s
     then (takeWhile (\<lambda>x. x \<noteq> c) s, tl (dropWhile (\<lambda>x. x \<noteq> c) s), True)
     else (s, [], False))"

fun Split :: "string \<Rightarrow> char \<Rightarrow> string list" where
  "Split [] c = [[]]"
| "Split (x # xs) c =
     (if x = c then [] # Split xs c
      else (case Split xs c of [] \<Rightarrow> [[x]] | y # ys \<Rightarrow> (x # y) # ys))"

fun Join :: "string list \<Rightarrow> string \<Rightarrow> string" where
  "Join [] sep = []"
| "Join [x] sep = x"
| "Join (x # y # ys) sep = x @ sep @ Join (y # ys) sep"

lemma CutSuffix_Some_iff: "CutSuffix s p = Some b \<longleftrightarrow> s = b @ p"
  by (auto simp: CutSuffix_def suffix_def)

lemma CutSuffix_None_iff: "CutSuffix s p = None \<longleftrightarrow> \<not> suffix p s"
  by (simp add: CutSuffix_def)

lemma TrimSuffix_append [simp]: "TrimSuffix (b @ p) p = b"
  by (simp add: TrimSuffix_def CutSuffix_def suffix_def)

lemma TrimSuffix_no: "\<not> suffix p s \<Longrightarrow> TrimSuffix s p = s"
  by (simp add: TrimSuffix_def CutSuffix_def)

lemma Split_nonempty [simp]: "Split s c \<noteq> []"
  by (induction s) (auto split: list.splits)

lemma Split_no_sep: "part \<in> set (Split s c) \<Longrightarrow> c \<notin> set part"
proof (induction s arbitrary: part)
  case (Cons x xs)
  then show ?case by (cases "Split xs c") (auto split: if_splits)
qed simp

lemma Split_whole: "c \<notin> set s \<Longrightarrow> Split s c = [s]"
  by (induction s) auto

text \<open>Joining what was split on a separator gives the text back.\<close>

lemma Join_Split: "Join (Split s c) [c] = s"
proof (induction s)
  case (Cons x xs)
  obtain y ys where s: "Split xs c = y # ys" by (cases "Split xs c") auto
  with Cons show ?case by (cases ys) auto
qed simp

lemma Split_Join:
  "xs \<noteq> [] \<Longrightarrow> \<forall>x\<in>set xs. c \<notin> set x \<Longrightarrow> Split (Join xs [c]) c = xs"
proof (induction xs rule: induct_list012)
  case (3 x y zs)
  have "Split (x @ c # Join (y # zs) [c]) c = x # Split (Join (y # zs) [c]) c" if "c \<notin> set x"
    using that by (induction x) auto
  with 3 show ?case by simp
qed (auto simp: Split_whole)

subsection \<open>White space\<close>

text \<open>
  The white-space runes of \<open>unicode.IsSpace\<close> in UTF-8: the six ASCII ones, U+0085, U+00A0,
  U+1680, U+2000 to U+200A, U+2028, U+2029, U+202F, U+205F and U+3000. UTF-8 is a prefix code
  and a suffix code on valid runes, so trimming runes is removing these byte sequences.
\<close>

definition space_runes :: "string list" where
  "space_runes = map (map char_of)
     ([[9::nat], [10], [11], [12], [13], [32], [194, 133], [194, 160], [225, 154, 128]]
      @ map (\<lambda>n. [226, 128, n]) [128, 129, 130, 131, 132, 133, 134, 135, 136, 137, 138, 168, 169, 175]
      @ [[226, 129, 159], [227, 128, 128]])"

lemma space_runes_code [code]:
  "space_runes = [[CHR 0x09], [CHR 0x0A], [CHR 0x0B], [CHR 0x0C], [CHR 0x0D], [CHR 0x20],
     [CHR 0xC2, CHR 0x85], [CHR 0xC2, CHR 0xA0], [CHR 0xE1, CHR 0x9A, CHR 0x80]]
   @ map (\<lambda>c. [CHR 0xE2, CHR 0x80, c])
       [CHR 0x80, CHR 0x81, CHR 0x82, CHR 0x83, CHR 0x84, CHR 0x85, CHR 0x86, CHR 0x87, CHR 0x88, CHR 0x89,
        CHR 0x8A, CHR 0xA8, CHR 0xA9, CHR 0xAF]
   @ [[CHR 0xE2, CHR 0x81, CHR 0x9F], [CHR 0xE3, CHR 0x80, CHR 0x80]]"
  by (simp add: space_runes_def char_of_def bit_0)

definition strip_one :: "string list \<Rightarrow> string \<Rightarrow> string option" where
  "strip_one ps s = (case find (\<lambda>p. p \<noteq> [] \<and> prefix p s) ps of
     None \<Rightarrow> None | Some p \<Rightarrow> Some (drop (length p) s))"

lemma strip_one_SomeE:
  assumes "strip_one ps s = Some s'"
  obtains p where "p \<in> set ps" "p \<noteq> []" "s = p @ s'"
  using assms
  by (fastforce simp: strip_one_def find_Some_iff prefix_def split: option.splits)

lemma strip_one_shorter: "strip_one ps s = Some s' \<Longrightarrow> length s' < length s"
  by (elim strip_one_SomeE) simp

function trim_runes :: "string list \<Rightarrow> string \<Rightarrow> string" where
  "trim_runes ps s = (case strip_one ps s of None \<Rightarrow> s | Some s' \<Rightarrow> trim_runes ps s')"
  by pat_completeness auto
termination
  by (relation "measure (\<lambda>(ps, s). length s)") (auto dest: strip_one_shorter)

declare trim_runes.simps [simp del]

definition TrimSpace :: "string \<Rightarrow> string" where
  "TrimSpace s = rev (trim_runes (map rev space_runes) (rev (trim_runes space_runes s)))"

lemma trim_runes_none: "strip_one ps s = None \<Longrightarrow> trim_runes ps s = s"
  by (subst trim_runes.simps) simp

lemma trim_runes_stops: "strip_one ps (trim_runes ps s) = None"
proof (induction ps s rule: trim_runes.induct)
  case (1 ps s)
  then show ?case by (cases "strip_one ps s") (simp_all add: trim_runes.simps [of ps s])
qed

lemma trim_runes_suffix: "suffix (trim_runes ps s) s"
proof (induction ps s rule: trim_runes.induct)
  case (1 ps s)
  show ?case
  proof (cases "strip_one ps s")
    case None
    then show ?thesis by (simp add: trim_runes_none)
  next
    case (Some s')
    then obtain p where s: "s = p @ s'" by (rule strip_one_SomeE)
    have "suffix (trim_runes ps s') s" using 1 [OF Some] s by (simp add: suffix_appendI)
    moreover have "trim_runes ps s = trim_runes ps s'" using Some by (subst trim_runes.simps) simp
    ultimately show ?thesis by simp
  qed
qed

lemma length_TrimSpace_le: "length (TrimSpace s) \<le> length s"
  using suffix_length_le [OF trim_runes_suffix [of space_runes s]]
    suffix_length_le [OF trim_runes_suffix [of "map rev space_runes" "rev (trim_runes space_runes s)"]]
  by (simp add: TrimSpace_def)

lemma set_TrimSpace: "set (TrimSpace s) \<subseteq> set s"
  using set_mono_suffix [OF trim_runes_suffix [of space_runes s]]
    set_mono_suffix [OF trim_runes_suffix [of "map rev space_runes" "rev (trim_runes space_runes s)"]]
  by (auto simp: TrimSpace_def)

text \<open>A value no rune of which is white space at either end is left as it is.\<close>

lemma TrimSpace_id:
  "strip_one space_runes s = None \<Longrightarrow> strip_one (map rev space_runes) (rev s) = None \<Longrightarrow> TrimSpace s = s"
  by (simp add: TrimSpace_def trim_runes_none)

lemma strip_one_prefix_None:
  assumes "strip_one ps (t @ u) = None" shows "strip_one ps t = None"
  using assms by (auto simp: strip_one_def find_None_iff split: option.splits)

lemma TrimSpace_idem: "TrimSpace (TrimSpace s) = TrimSpace s"
proof (rule TrimSpace_id)
  let ?l = "trim_runes space_runes s"
  have "suffix (rev (TrimSpace s)) (rev ?l)"
    using trim_runes_suffix [of "map rev space_runes" "rev ?l"] by (simp add: TrimSpace_def)
  then obtain u where "?l = TrimSpace s @ u"
    by (metis rev_append rev_rev_ident suffix_def)
  with trim_runes_stops [of space_runes s]
  show "strip_one space_runes (TrimSpace s) = None" by (metis strip_one_prefix_None)
  show "strip_one (map rev space_runes) (rev (TrimSpace s)) = None"
    using trim_runes_stops [of "map rev space_runes" "rev ?l"] by (simp add: TrimSpace_def)
qed

subsection \<open>Numbers\<close>

fun digits_of :: "nat \<Rightarrow> string" where
  "digits_of n = (if n < 10 then [char_of (48 + n)] else digits_of (n div 10) @ [char_of (48 + n mod 10)])"

declare digits_of.simps [simp del]

definition Itoa :: "int \<Rightarrow> string" where
  "Itoa n = (if n < 0 then CHR ''-'' # digits_of (nat (- n)) else digits_of (nat n))"

definition digit_val :: "char \<Rightarrow> nat" where "digit_val c = byte c - 48"

definition read_digits :: "string \<Rightarrow> nat option" where
  "read_digits s = (if s \<noteq> [] \<and> list_all is_digit s
     then Some (foldl (\<lambda>n c. 10 * n + digit_val c) 0 s) else None)"

text \<open>
  \<open>strconv.ParseInt(s, 10, 64)\<close>: an optional sign, at least one digit, nothing else, and a value
  that fits (out of range is an error). \<open>strconv.Atoi\<close> is the same function on a 64-bit
  platform.
\<close>

definition ParseInt :: "string \<Rightarrow> int option" where
  "ParseInt s =
     (let (neg, ds) = (case s of
        c # cs \<Rightarrow> if c = CHR ''-'' then (True, cs) else if c = CHR ''+'' then (False, cs) else (False, s)
      | [] \<Rightarrow> (False, []))
      in case read_digits ds of
           None \<Rightarrow> None
         | Some n \<Rightarrow> (let v = (if neg then - int n else int n)
                     in if min_int64 \<le> v \<and> v \<le> max_int64 then Some v else None))"

lemma digits_of_digits: "list_all is_digit (digits_of n)"
proof (induction n rule: digits_of.induct)
  case (1 n)
  have "is_digit (char_of (48 + n mod 10))" and "n < 10 \<Longrightarrow> is_digit (char_of (48 + n))"
    by (simp_all add: is_digit_def)
  with 1 show ?case by (subst digits_of.simps) auto
qed

lemma digits_of_nonempty [simp]: "digits_of n \<noteq> []"
  by (subst digits_of.simps) simp

lemma foldl_digits_of: "foldl (\<lambda>n c. 10 * n + digit_val c) 0 (digits_of n) = n"
proof (induction n rule: digits_of.induct)
  case (1 n)
  show ?case
  proof (cases "n < 10")
    case True
    then show ?thesis by (subst digits_of.simps) (simp add: digit_val_def)
  next
    case False
    with 1 show ?thesis by (subst digits_of.simps) (simp add: digit_val_def)
  qed
qed

lemma read_digits_digits_of [simp]: "read_digits (digits_of n) = Some n"
  by (simp add: read_digits_def digits_of_digits foldl_digits_of)

lemma digits_of_hd: "is_digit (hd (digits_of n))"
  using digits_of_digits [of n] by (cases "digits_of n") auto

lemma ParseInt_Itoa:
  assumes "min_int64 \<le> n" "n \<le> max_int64" shows "ParseInt (Itoa n) = Some n"
proof (cases "n < 0")
  case True
  with assms show ?thesis by (simp add: ParseInt_def Itoa_def)
next
  case False
  obtain c cs where d: "digits_of (nat n) = c # cs" by (cases "digits_of (nat n)") auto
  have "c \<noteq> CHR ''-''" "c \<noteq> CHR ''+''"
    using digits_of_hd [of "nat n"] d by (auto simp: is_digit_def byte_def)
  with False assms d read_digits_digits_of [of "nat n"]
  show ?thesis by (simp add: ParseInt_def Itoa_def)
qed

end
