(* ===== verification/Float64.thy ===== *)
theory Float64
  imports Prelude
begin

text \<open>
  IEEE-754 binary64 arithmetic as the service meets it: Go's \<open>float64\<close> and the numbers of the
  Lua scripts. A finite double is the rational it stands for, and every operation is the exact
  one followed by \<open>f64\<close>, rounding to 53 significant bits, ties to even. The exponent range is
  left unbounded: the values computed here (token counts, milliseconds, seconds) lie between
  \<open>2 ^ -64\<close> and \<open>2 ^ 84\<close>, far from overflow and from the subnormal range.
\<close>

subsection \<open>Binary exponent\<close>

fun nbits :: "nat \<Rightarrow> nat" where
  "nbits n = (if n = 0 then 0 else Suc (nbits (n div 2)))"

declare nbits.simps [simp del]

lemma nbits_0 [simp]: "nbits 0 = 0"
  by (simp add: nbits.simps)

lemma nbits_upper: "n < 2 ^ nbits n"
proof (induction n rule: nbits.induct)
  case (1 n)
  then show ?case by (cases "n = 0") (auto simp: nbits.simps [of n])
qed

lemma nbits_lower: "0 < n \<Longrightarrow> 2 ^ nbits n \<le> 2 * n"
proof (induction n rule: nbits.induct)
  case (1 n)
  show ?case
  proof (cases "n div 2 = 0")
    case True
    with "1.prems" show ?thesis by (simp add: nbits.simps [of n] nbits.simps [of 0])
  next
    case False
    with 1 have "2 ^ nbits (n div 2) \<le> 2 * (n div 2)" by simp
    with "1.prems" show ?thesis by (simp add: nbits.simps [of n])
  qed
qed

text \<open>\<open>bexp x\<close> is the exponent \<open>e\<close> with \<open>2 ^ e \<le> x < 2 ^ (e + 1)\<close>, for positive \<open>x\<close>.\<close>

definition bexp :: "rat \<Rightarrow> int" where
  "bexp x = (if 1 \<le> x then int (nbits (nat \<lfloor>x\<rfloor>)) - 1
             else - int (nbits (nat (\<lceil>1 / x\<rceil> - 1))))"

text \<open>For evaluation, the same on integers.\<close>

function zbits :: "int \<Rightarrow> int" where
  "zbits n = (if n \<le> 0 then 0 else zbits (n div 2) + 1)"
  by pat_completeness auto
termination by (relation "measure nat") auto

declare zbits.simps [simp del]

lemma zbits_nbits: "zbits n = int (nbits (nat n))"
proof (induction n rule: zbits.induct)
  case (1 n)
  show ?case
  proof (cases "n \<le> 0")
    case False
    then have "nat n div 2 = nat (n div 2)" by (simp add: nat_div_distrib)
    with 1 False show ?thesis by (simp add: zbits.simps [of n] nbits.simps [of "nat n"])
  qed (simp add: zbits.simps)
qed

lemma bexp_code [code]: "bexp x = (if 1 \<le> x then zbits \<lfloor>x\<rfloor> - 1 else - zbits (\<lceil>1 / x\<rceil> - 1))"
  by (simp add: bexp_def zbits_nbits)

lemma powi_two_nat: "(2 :: rat) powi int n = of_int (2 ^ n)"
  by (simp add: power_int_def)

lemma powi_two_pos [simp]: "0 < (2 :: rat) powi e"
  by (simp add: power_int_def)

lemma powi_two_nonzero [simp]: "(2 :: rat) powi e \<noteq> 0"
  by (simp add: power_int_def)

lemma powi_two_add: "(2 :: rat) powi (a + b) = 2 powi a * 2 powi b"
  by (simp add: power_int_add)

lemma powi_two_mono: "a \<le> b \<Longrightarrow> (2 :: rat) powi a \<le> 2 powi b"
  by (simp add: power_int_increasing)

lemma powi_two_shift: "(2 :: rat) powi (e + int k) = of_int (2 ^ k) * 2 powi e"
  by (simp add: power_int_add mult.commute)

lemma nat_le_powi: "m \<le> 2 ^ k \<Longrightarrow> of_nat m \<le> (2 :: rat) powi int k"
  by (metis of_nat_le_iff of_nat_numeral of_nat_power power_int_of_nat)

lemma powi_le_nat: "2 ^ k \<le> m \<Longrightarrow> (2 :: rat) powi int k \<le> of_nat m"
  by (metis of_nat_le_iff of_nat_numeral of_nat_power power_int_of_nat)

lemma bexp_bounds_ge1:
  assumes "1 \<le> x" shows "2 powi bexp x \<le> x \<and> x < 2 powi (bexp x + 1)"
proof -
  define n where "n = nat \<lfloor>x\<rfloor>"
  have n: "0 < n" "of_nat n \<le> x" "x < of_nat (Suc n)"
    using assms unfolding n_def by (auto simp: of_nat_nat) linarith+
  then obtain j where j: "nbits n = Suc j" by (simp add: nbits.simps [of n])
  have "x < 2 powi int (Suc j)"
    using nat_le_powi [OF Suc_leI [OF nbits_upper [of n]]] n(3) j by simp
  moreover have "2 ^ j \<le> n" using nbits_lower [OF n(1)] j by simp
  then have "2 powi int j \<le> x" using powi_le_nat [of j n] n(2) by linarith
  moreover have "bexp x = int j" using assms j by (simp add: bexp_def n_def [symmetric])
  ultimately show ?thesis by (simp add: add.commute)
qed

lemma bexp_bounds_lt1:
  assumes "0 < x" "x < 1" shows "2 powi bexp x \<le> x \<and> x < 2 powi (bexp x + 1)"
proof -
  let ?n = "nat (\<lceil>1 / x\<rceil> - 1)" and ?k = "nbits (nat (\<lceil>1 / x\<rceil> - 1))"
  have y: "1 < 1 / x" using assms by simp
  then have "2 \<le> \<lceil>1 / x\<rceil>" by linarith
  then have n: "0 < ?n" "1 / x \<le> of_nat (Suc ?n)" "of_nat ?n < 1 / x"
    by (auto simp: of_nat_nat) linarith+
  have "Suc ?n \<le> 2 ^ ?k" by (rule Suc_leI [OF nbits_upper])
  then have "of_nat (Suc ?n) \<le> (2 :: rat) ^ ?k"
    by (metis of_nat_le_iff of_nat_numeral of_nat_power)
  with n have "1 / x \<le> 2 ^ ?k" by linarith
  then have lo: "1 / 2 ^ ?k \<le> x" using assms by (simp add: field_simps)
  have k: "0 < ?k" using n(1) by (simp add: nbits.simps [of ?n])
  then obtain j where j: "?k = Suc j" by (cases ?k) auto
  have "2 ^ j \<le> ?n" using nbits_lower [OF n(1)] j by simp
  then have "(2 :: rat) ^ j \<le> of_nat ?n" by (metis of_nat_le_iff of_nat_numeral of_nat_power)
  with n have "2 ^ j < 1 / x" by linarith
  then have hi: "x < 1 / 2 ^ j" using assms by (simp add: field_simps)
  have e: "bexp x = - int ?k" using assms by (simp add: bexp_def)
  have "(2 :: rat) powi (- int ?k) = 1 / 2 ^ ?k" and "(2 :: rat) powi (- int j) = 1 / 2 ^ j"
    by (simp_all add: power_int_minus field_simps)
  moreover have "bexp x + 1 = - int j" using e j by simp
  ultimately show ?thesis using lo hi e by simp
qed

lemma bexp_bounds: "0 < x \<Longrightarrow> 2 powi bexp x \<le> x \<and> x < 2 powi (bexp x + 1)"
  using bexp_bounds_ge1 bexp_bounds_lt1 by (metis linorder_not_less)

lemma bexp_mono:
  assumes "0 < x" "x \<le> y" shows "bexp x \<le> bexp y"
proof (rule ccontr)
  assume "\<not> bexp x \<le> bexp y"
  then have "(2 :: rat) powi (bexp y + 1) \<le> 2 powi bexp x" by (intro powi_two_mono) simp
  with bexp_bounds [of x] bexp_bounds [of y] assms show False by linarith
qed


subsection \<open>Rounding to nearest, ties to even\<close>

definition round_even :: "rat \<Rightarrow> int" where
  "round_even m =
     (let f = \<lfloor>m\<rfloor>; d = m - of_int f
      in if d < 1 / 2 then f else if 1 / 2 < d then f + 1 else if even f then f else f + 1)"

definition f64 :: "rat \<Rightarrow> rat" where
  "f64 x = (if x = 0 then 0
            else (let u = 2 powi (bexp \<bar>x\<bar> - 52) in of_int (round_even (x / u)) * u))"

lemma round_even_near: "\<bar>of_int (round_even m) - m\<bar> \<le> 1 / 2"
proof -
  have "of_int \<lfloor>m\<rfloor> \<le> m" "m < of_int \<lfloor>m\<rfloor> + 1" by linarith+
  then show ?thesis unfolding round_even_def Let_def abs_le_iff
    by (simp split: if_splits) (simp add: field_simps; linarith)
qed

lemma round_even_int [simp]: "round_even (of_int n) = n"
  by (simp add: round_even_def)

lemma round_even_mono:
  assumes "x \<le> y" shows "round_even x \<le> round_even y"
proof (cases "\<lfloor>x\<rfloor> = \<lfloor>y\<rfloor>")
  case True
  with assms show ?thesis by (auto simp: round_even_def Let_def)
next
  case False
  with floor_mono [OF assms] have "\<lfloor>x\<rfloor> + 1 \<le> \<lfloor>y\<rfloor>" by linarith
  moreover have "round_even x \<le> \<lfloor>x\<rfloor> + 1" "\<lfloor>y\<rfloor> \<le> round_even y" by (auto simp: round_even_def Let_def)
  ultimately show ?thesis by linarith
qed

lemma round_even_minus: "round_even (- m) = - round_even m"
proof (cases "m = of_int \<lfloor>m\<rfloor>")
  case True
  then show ?thesis by (metis of_int_minus round_even_int)
next
  case False
  then have f: "\<lfloor>- m\<rfloor> = - \<lfloor>m\<rfloor> - 1" by (simp add: floor_minus ceiling_altdef)
  show ?thesis unfolding round_even_def Let_def f by (auto simp: field_simps)
qed

lemma f64_0 [simp]: "f64 0 = 0"
  by (simp add: f64_def)

lemma f64_minus [simp]: "f64 (- x) = - f64 x"
  by (simp add: f64_def Let_def round_even_minus)

lemma f64_pos_bounds:
  assumes "0 < x" shows "2 powi bexp x \<le> f64 x \<and> f64 x \<le> 2 powi (bexp x + 1)"
proof -
  let ?u = "(2 :: rat) powi (bexp x - 52)"
  have lo: "2 powi bexp x = of_int (2 ^ 52) * ?u" and hi: "2 powi (bexp x + 1) = of_int (2 ^ 53) * ?u"
    using powi_two_shift [of "bexp x - 52" 52] powi_two_shift [of "bexp x - 52" 53]
    by (simp_all add: add.commute)
  have "of_int (2 ^ 52) \<le> x / ?u" "x / ?u \<le> of_int (2 ^ 53)"
    using bexp_bounds [OF assms] lo hi by (simp_all add: pos_le_divide_eq pos_divide_le_eq)
  then have "2 ^ 52 \<le> round_even (x / ?u)" "round_even (x / ?u) \<le> 2 ^ 53"
    by (metis round_even_int round_even_mono)+
  then have "(of_int (2 ^ 52) :: rat) \<le> of_int (round_even (x / ?u))"
    "(of_int (round_even (x / ?u)) :: rat) \<le> of_int (2 ^ 53)" by (simp_all only: of_int_le_iff)
  then have "of_int (2 ^ 52) * ?u \<le> of_int (round_even (x / ?u)) * ?u"
    "of_int (round_even (x / ?u)) * ?u \<le> of_int (2 ^ 53) * ?u" by (simp_all only: mult_right_mono less_imp_le powi_two_pos)
  moreover have "f64 x = of_int (round_even (x / ?u)) * ?u" using assms by (simp add: f64_def Let_def)
  ultimately show ?thesis unfolding lo hi by simp
qed

lemma f64_pos: "0 < x \<Longrightarrow> 0 < f64 x"
  using f64_pos_bounds [of x] powi_two_pos [of "bexp x"] by linarith

lemma f64_mono_pos:
  assumes "0 < x" "x \<le> y" shows "f64 x \<le> f64 y"
proof (cases "bexp x = bexp y")
  case True
  let ?u = "(2 :: rat) powi (bexp y - 52)"
  have "x / ?u \<le> y / ?u" using assms by (intro divide_right_mono) (simp_all add: less_imp_le)
  then have "of_int (round_even (x / ?u)) * ?u \<le> of_int (round_even (y / ?u)) * ?u"
    by (intro mult_right_mono) (simp_all add: round_even_mono less_imp_le)
  with assms True show ?thesis by (simp add: f64_def Let_def)
next
  case False
  with bexp_mono [OF assms] have "bexp x + 1 \<le> bexp y" by simp
  then have "(2 :: rat) powi (bexp x + 1) \<le> 2 powi bexp y" by (rule powi_two_mono)
  with f64_pos_bounds [of x] f64_pos_bounds [of y] assms show ?thesis by linarith
qed

lemma f64_mono: assumes "x \<le> y" shows "f64 x \<le> f64 y"
proof -
  consider "0 < x" | "x = 0" | "x < 0" "0 < y" | "x < 0" "y = 0" | "y < 0" using assms by linarith
  then show ?thesis
  proof cases
    case 1 then show ?thesis using assms by (rule f64_mono_pos)
  next
    case 2 then show ?thesis using assms f64_pos [of y] by (cases "y = 0") auto
  next
    case 3 then show ?thesis using f64_pos [of y] f64_pos [of "- x"] by simp
  next
    case 4 then show ?thesis using f64_pos [of "- x"] by simp
  next
    case 5 then show ?thesis using f64_mono_pos [of "- y" "- x"] assms by simp
  qed
qed

text \<open>Integers up to \<open>2 ^ 53\<close> in magnitude are doubles.\<close>

lemma f64_pos_int:
  assumes "0 < n" "n \<le> 2 ^ 53" shows "f64 (of_int n) = of_int n"
proof (cases "n = 2 ^ 53")
  case True
  have "bexp (of_int n) = 53" using True by (simp add: bexp_def nbits.simps)
  with True show ?thesis by (simp add: f64_def Let_def power_int_def round_even_def)
next
  case False
  let ?x = "of_int n :: rat"
  have "(2 :: rat) powi bexp ?x \<le> ?x" using bexp_bounds [of ?x] assms by simp
  moreover have "?x < 2 powi 53" using False assms by (simp add: power_int_def)
  ultimately have "(2 :: rat) powi bexp ?x < 2 powi 53" by linarith
  then have e: "bexp ?x \<le> 52"
    using powi_two_mono [of 53 "bexp ?x"] by linarith
  define k where "k = nat (52 - bexp ?x)"
  have u: "(2 :: rat) powi (bexp ?x - 52) = 1 / 2 ^ k"
    using e by (simp add: k_def power_int_def field_simps)
  have "?x / 2 powi (bexp ?x - 52) = of_int (n * 2 ^ k)" unfolding u by simp
  then have "round_even (?x / 2 powi (bexp ?x - 52)) = n * 2 ^ k" by (simp only: round_even_int)
  then have "f64 ?x = of_int (n * 2 ^ k) * (1 / 2 ^ k)" using assms u by (simp add: f64_def Let_def)
  then show ?thesis by simp
qed

lemma f64_int: assumes "\<bar>n\<bar> \<le> 2 ^ 53" shows "f64 (of_int n) = of_int n"
proof -
  consider "n = 0" | "0 < n" | "n < 0" by linarith
  then show ?thesis
  proof cases
    case 3 then show ?thesis using f64_pos_int [of "- n"] f64_minus [of "of_int (- n)"] assms by simp
  qed (use assms f64_pos_int in auto)
qed

subsection \<open>The rounding contract\<close>

text \<open>
  What the clients of floating-point arithmetic rely on: rounding is monotone, keeps small
  integers and keeps the sign. Exact arithmetic and binary64 both satisfy it.
\<close>

text \<open>The relative error of one operation is at most half a unit in the last place.\<close>

lemma f64_err:
  assumes "0 \<le> x" shows "\<bar>f64 x - x\<bar> \<le> x / 2 ^ 53"
proof (cases "x = 0")
  case False
  with assms have x: "0 < x" by simp
  let ?u = "(2 :: rat) powi (bexp x - 52)"
  have "f64 x - x = (of_int (round_even (x / ?u)) - x / ?u) * ?u"
    using x by (simp add: f64_def Let_def left_diff_distrib)
  then have "\<bar>f64 x - x\<bar> \<le> 1 / 2 * ?u"
    using round_even_near [of "x / ?u"] by (simp add: abs_mult mult_right_mono)
  moreover have "2 powi bexp x = of_int (2 ^ 52) * ?u"
    using powi_two_shift [of "bexp x - 52" 52] by (simp add: add.commute)
  then have "?u * 2 ^ 52 \<le> x" using bexp_bounds [OF x] by (simp add: mult.commute)
  ultimately show ?thesis by (simp add: field_simps)
qed simp

locale rounding =
  fixes rnd :: "rat \<Rightarrow> rat"
  assumes rnd_mono: "x \<le> y \<Longrightarrow> rnd x \<le> rnd y"
    and rnd_int: "\<bar>n\<bar> \<le> 2 ^ 53 \<Longrightarrow> rnd (of_int n) = of_int n"
    and rnd_pos: "0 < x \<Longrightarrow> 0 < rnd x"
    and rnd_err: "0 \<le> x \<Longrightarrow> \<bar>rnd x - x\<bar> \<le> x / 2 ^ 53"
begin

lemma rnd_lo: "0 \<le> x \<Longrightarrow> x - x / 2 ^ 53 \<le> rnd x"
  using rnd_err [of x] by (metis abs_diff_le_iff)

lemma rnd_hi: "0 \<le> x \<Longrightarrow> rnd x \<le> x + x / 2 ^ 53"
  using rnd_err [of x] by (metis abs_diff_le_iff)

lemma rnd_zero: "rnd 0 = 0"
  using rnd_int [of 0] by simp

lemma rnd_nonneg: "0 \<le> x \<Longrightarrow> 0 \<le> rnd x"
  using rnd_mono [of 0 x] by (simp add: rnd_zero)

lemma rnd_ge_int: "\<bar>n\<bar> \<le> 2 ^ 53 \<Longrightarrow> of_int n \<le> x \<Longrightarrow> of_int n \<le> rnd x"
  using rnd_mono [of "of_int n" x] rnd_int [of n] by simp

lemma rnd_le_int: "\<bar>n\<bar> \<le> 2 ^ 53 \<Longrightarrow> x \<le> of_int n \<Longrightarrow> rnd x \<le> of_int n"
  using rnd_mono [of x "of_int n"] rnd_int [of n] by simp

end

interpretation f64: rounding f64
  by unfold_locales (rule f64_mono f64_int f64_pos f64_err; assumption)+

interpretation exact: rounding "\<lambda>x. x"
  by unfold_locales simp_all

subsection \<open>Conversions\<close>

text \<open>Go's integer division truncates, and so does the conversion of a double to an integer.\<close>

definition quot :: "int \<Rightarrow> int \<Rightarrow> int" where "quot a b = sgn a * sgn b * (\<bar>a\<bar> div \<bar>b\<bar>)"
definition remd :: "int \<Rightarrow> int \<Rightarrow> int" where "remd a b = a - b * quot a b"
definition trunc :: "rat \<Rightarrow> int" where "trunc x = (if 0 \<le> x then \<lfloor>x\<rfloor> else \<lceil>x\<rceil>)"

definition float :: "int \<Rightarrow> rat" where "float n = f64 (of_int n)"

text \<open>\<open>time.Duration.Seconds\<close>: whole seconds plus the remaining nanoseconds over \<open>1e9\<close>.\<close>

definition Seconds :: "duration \<Rightarrow> rat" where
  "Seconds d = f64 (float (quot d Second) + f64 (float (remd d Second) / 1000000000))"

lemma quot_pos: "0 \<le> a \<Longrightarrow> 0 < b \<Longrightarrow> quot a b = a div b"
  by (simp add: quot_def sgn_if)

lemma remd_pos: "0 \<le> a \<Longrightarrow> 0 < b \<Longrightarrow> remd a b = a mod b"
  by (simp add: remd_def quot_pos minus_mult_div_eq_mod)

lemma float_int: "\<bar>n\<bar> \<le> 2 ^ 53 \<Longrightarrow> float n = of_int n"
  unfolding float_def by (rule f64_int)

lemma float_mono: "m \<le> n \<Longrightarrow> float m \<le> float n"
  unfolding float_def by (rule f64_mono) simp

lemma float_pos: "0 < n \<Longrightarrow> 0 < float n"
  unfolding float_def by (rule f64_pos) simp

lemma float_nonneg: "0 \<le> n \<Longrightarrow> 0 \<le> float n"
  unfolding float_def by (rule f64.rnd_nonneg) simp

lemma Seconds_pos_eq:
  "0 \<le> d \<Longrightarrow> Seconds d = f64 (float (d div Second) + f64 (float (d mod Second) / 1000000000))"
  by (simp add: Seconds_def quot_pos remd_pos Second_def)

lemma Seconds_pos:
  assumes "0 < d" shows "0 < Seconds d"
proof -
  have "d div Second \<noteq> 0 \<or> d mod Second \<noteq> 0"
    using assms mult_div_mod_eq [of Second d] by (metis add_0 less_irrefl mult_zero_right)
  moreover have n: "0 \<le> d div Second" "0 \<le> d mod Second"
    using assms by (simp_all add: Second_def pos_imp_zdiv_nonneg_iff)
  ultimately consider "0 < d div Second" | "0 < d mod Second" by linarith
  then have "0 < float (d div Second) + f64 (float (d mod Second) / 1000000000)"
  proof cases
    case 1
    with n show ?thesis
      by (intro add_pos_nonneg float_pos f64.rnd_nonneg divide_nonneg_nonneg float_nonneg) simp_all
  next
    case 2
    with n show ?thesis by (intro add_nonneg_pos float_nonneg f64_pos divide_pos_pos float_pos) simp_all
  qed
  with assms show ?thesis by (simp only: Seconds_pos_eq less_imp_le f64_pos)
qed

text \<open>Rounding a duration up to whole seconds is exact for durations of up to some weeks.\<close>

lemma ceiling_Seconds:
  assumes "0 < d" "d \<le> 2000000 * Second"
  shows "\<lceil>Seconds d\<rceil> = (d + Second - 1) div Second"
proof -
  define q r where "q = d div Second" and "r = d mod Second"
  have d: "d = Second * q + r" by (simp add: q_def r_def)
  have r: "0 \<le> r" "r < Second" and q: "0 \<le> q" "q \<le> 2000000"
    using assms zdiv_mono1 [OF assms(2), of Second]
    by (simp_all add: q_def r_def Second_def pos_imp_zdiv_nonneg_iff)
  have s: "Seconds d = f64 (of_int q + f64 (of_int r / 1000000000))"
    using assms r q by (simp add: Seconds_pos_eq q_def r_def float_int Second_def)
  show ?thesis
  proof (cases "r = 0")
    case True
    then have "Seconds d = of_int q" using q s by (simp add: f64_int)
    moreover have "(d + Second - 1) div Second = q"
      using d True by (simp add: Second_def)
    ultimately show ?thesis by simp
  next
    case False
    define y where "y = f64 (of_int r / 1000000000)"
    have b: "(1 :: rat) / 1000000000 \<le> of_int r / 1000000000" "(of_int r :: rat) / 1000000000 \<le> 1"
      using False r by (simp_all add: Second_def)
    define z where "z = (of_int r :: rat) / 1000000000"
    have "z - z / 2 ^ 53 \<le> y" using f64.rnd_lo [of z] r by (simp add: y_def z_def)
    moreover have "1 / 1000000000 \<le> z" "z \<le> 1" using b by (simp_all add: z_def)
    ultimately have y: "1 / 2000000000 \<le> y" by simp
    have y1: "y \<le> 1" using b f64.rnd_le_int [of 1 z] by (simp add: y_def z_def)
    note y = y y1
    have "of_int q + y - (of_int q + y) / 2 ^ 53 \<le> f64 (of_int q + y)"
      using q y by (intro f64.rnd_lo) simp
    moreover have "(of_int q + y) / 2 ^ 53 \<le> 2000001 / 2 ^ 53"
      using q y by (intro divide_right_mono add_mono [of _ 2000000 _ 1, simplified]) simp_all
    moreover have "(2000001 :: rat) / 2 ^ 53 < 1 / 2000000000" by simp
    ultimately have lo: "of_int q < f64 (of_int q + y)" using y(1) by linarith
    have hi: "f64 (of_int q + y) \<le> of_int (q + 1)"
      using q y by (intro f64.rnd_le_int) simp_all
    have "\<lceil>Seconds d\<rceil> = q + 1" unfolding s y_def [symmetric] using lo hi by (intro ceiling_unique) simp_all
    moreover have "(d + Second - 1) div Second = q + 1"
    proof -
      have "d + Second - 1 = (r - 1) + (q + 1) * Second" using d by (simp add: algebra_simps)
      also have "\<dots> div Second = (r - 1) div Second + (q + 1)" by (simp add: Second_def)
      also have "(r - 1) div Second = 0" using False r by (simp add: div_pos_pos_trivial)
      finally show ?thesis by simp
    qed
    ultimately show ?thesis by simp
  qed
qed

end
