(* ===== verification/GoParse.thy ===== *)
theory GoParse
  imports GoStrings Float64
begin

text \<open>
  The two parsers of the standard library the environment loader uses: \<open>strconv.ParseBool\<close> and
  \<open>time.ParseDuration\<close>, the latter with its overflow checks on 64-bit integers and its
  floating-point fraction.
\<close>

definition ParseBool :: "string \<Rightarrow> bool option" where
  "ParseBool s =
     (if s \<in> set [''1'', ''t'', ''T'', ''true'', ''TRUE'', ''True''] then Some True
      else if s \<in> set [''0'', ''f'', ''F'', ''false'', ''FALSE'', ''False''] then Some False
      else None)"

definition unit_of :: "string \<Rightarrow> int option" where
  "unit_of u =
     (if u = ''ns'' then Some 1
      else if u = ''us'' \<or> u = [CHR 0xC2, CHR 0xB5, CHR ''s''] \<or> u = [CHR 0xCE, CHR 0xBC, CHR ''s''] then Some Microsecond
      else if u = ''ms'' then Some Millisecond
      else if u = ''s'' then Some Second
      else if u = ''m'' then Some Minute
      else if u = ''h'' then Some Hour
      else None)"

fun leadingInt :: "int \<Rightarrow> string \<Rightarrow> (int \<times> string) option" where
  "leadingInt x [] = Some (x, [])"
| "leadingInt x (c # s) =
     (if \<not> is_digit c then Some (x, c # s)
      else if x > 2 ^ 63 div 10 then None
      else (let y = x * 10 + int (digit_val c) in if y > 2 ^ 63 then None else leadingInt y s))"

text \<open>Digits past the point where the value would overflow are read and ignored.\<close>

fun leadingFraction :: "bool \<Rightarrow> int \<Rightarrow> rat \<Rightarrow> string \<Rightarrow> int \<times> rat \<times> string" where
  "leadingFraction over x scale [] = (x, scale, [])"
| "leadingFraction over x scale (c # s) =
     (if \<not> is_digit c then (x, scale, c # s)
      else if over then leadingFraction True x scale s
      else if x > (2 ^ 63 - 1) div 10 then leadingFraction True x scale s
      else (let y = x * 10 + int (digit_val c)
            in if y > 2 ^ 63 then leadingFraction True x scale s
               else leadingFraction False y (f64 (scale * 10)) s))"

definition unit_byte :: "char \<Rightarrow> bool" where "unit_byte c \<longleftrightarrow> c \<noteq> CHR ''.'' \<and> \<not> is_digit c"

text \<open>One number with its unit: the nanoseconds it adds and the text after it.\<close>

definition duration_part :: "string \<Rightarrow> (int \<times> string) option" where
  "duration_part s =
     (if s = [] \<or> \<not> (hd s = CHR ''.'' \<or> is_digit (hd s)) then None
      else (case leadingInt 0 s of
              None \<Rightarrow> None
            | Some (v, s1) \<Rightarrow>
                (let pre = (length s \<noteq> length s1);
                     (f, scale, s2) = (if s1 \<noteq> [] \<and> hd s1 = CHR ''.'' then leadingFraction False 0 1 (tl s1) else (0, 1, s1));
                     post = (s1 \<noteq> [] \<and> hd s1 = CHR ''.'' \<and> length (tl s1) \<noteq> length s2)
                 in if \<not> pre \<and> \<not> post then None
                    else (let u = takeWhile unit_byte s2; s3 = dropWhile unit_byte s2
                          in if u = [] then None
                             else (case unit_of u of
                                     None \<Rightarrow> None
                                   | Some unit \<Rightarrow>
                                       if v > 2 ^ 63 div unit then None
                                       else (let v1 = v * unit;
                                                 v2 = (if f > 0 then v1 + trunc (f64 (float f * f64 (float unit / scale))) else v1)
                                             in if f > 0 \<and> v2 > 2 ^ 63 then None else Some (v2, s3)))))))"

lemma leadingInt_length: "leadingInt x s = Some (v, t) \<Longrightarrow> length t \<le> length s"
  by (induction x s rule: leadingInt.induct) (auto simp: Let_def split: if_splits)

lemma leadingFraction_length: "leadingFraction b x sc s = (f, r, t) \<Longrightarrow> length t \<le> length s"
  by (induction b x sc s rule: leadingFraction.induct) (auto simp: Let_def split: if_splits)

lemma duration_part_shorter:
  assumes "duration_part s = Some (v, t)"
  shows "length t < length s"
proof -
  obtain v1 s1 where i: "leadingInt 0 s = Some (v1, s1)"
    using assms by (auto simp: duration_part_def split: if_splits option.splits)
  define frac where "frac = (if s1 \<noteq> [] \<and> hd s1 = CHR ''.'' then leadingFraction False 0 1 (tl s1) else (0, 1, s1))"
  obtain f scale s2 where fr: "frac = (f, scale, s2)" by (cases frac)
  have "takeWhile unit_byte s2 \<noteq> []" "t = dropWhile unit_byte s2"
    using assms i fr by (auto simp: duration_part_def Let_def frac_def split: if_splits option.splits)
  then have "length t < length s2"
    by (metis append_Nil dropWhile_eq_drop length_drop length_greater_0_conv takeWhile_dropWhile_id
        diff_less length_0_conv takeWhile_eq_Nil_iff)
  moreover have "length s2 \<le> length s1"
    using fr leadingFraction_length [of False 0 1 "tl s1" f scale s2]
    by (cases s1) (auto simp: frac_def split: if_splits)
  ultimately show ?thesis using leadingInt_length [OF i] by simp
qed

function duration_loop :: "int \<Rightarrow> string \<Rightarrow> int option" where
  "duration_loop d s =
     (if s = [] then Some d
      else (case duration_part s of
              None \<Rightarrow> None
            | Some (v, t) \<Rightarrow> if d + v > 2 ^ 63 then None else duration_loop (d + v) t))"
  by pat_completeness auto
termination
  by (relation "measure (\<lambda>(d, s). length s)") (auto dest: duration_part_shorter)

declare duration_loop.simps [simp del]

definition ParseDuration :: "string \<Rightarrow> duration option" where
  "ParseDuration s =
     (let (neg, t) = (case s of
            c # t \<Rightarrow> if c = CHR ''-'' then (True, t) else if c = CHR ''+'' then (False, t) else (False, s)
          | [] \<Rightarrow> (False, []))
      in if t = ''0'' then Some 0
         else if t = [] then None
         else (case duration_loop 0 t of
                 None \<Rightarrow> None
               | Some d \<Rightarrow> if neg then Some (- d) else if d > 2 ^ 63 - 1 then None else Some d))"

subsection \<open>A parsed duration fits\<close>

lemma leadingInt_nonneg: "leadingInt x s = Some (v, t) \<Longrightarrow> 0 \<le> x \<Longrightarrow> 0 \<le> v"
  by (induction x s rule: leadingInt.induct) (auto simp: Let_def split: if_splits)

lemma leadingFraction_scale: "leadingFraction b x sc s = (f, r, t) \<Longrightarrow> 0 < sc \<Longrightarrow> 0 < r"
proof (induction b x sc s rule: leadingFraction.induct)
  case (2 b x sc c s)
  have "0 < f64 (sc * 10)" using 2 by (intro f64_pos) simp
  with 2 show ?case by (auto simp: Let_def split: if_splits)
qed simp

lemma unit_of_pos: "unit_of u = Some n \<Longrightarrow> 0 < n"
  by (auto simp: unit_of_def duration_units split: if_splits)

lemma fraction_nonneg:
  assumes "0 < f" "0 < scale" "0 < unit"
  shows "0 \<le> trunc (f64 (float f * f64 (float unit / scale)))"
proof -
  have "0 \<le> f64 (float unit / scale)" using assms float_nonneg [of unit] by (intro f64.rnd_nonneg) simp
  then have "0 \<le> f64 (float f * f64 (float unit / scale))"
    using assms float_nonneg [of f] by (intro f64.rnd_nonneg) simp
  then show ?thesis by (simp add: trunc_def)
qed

lemma duration_part_nonneg:
  assumes "duration_part s = Some (v, t)"
  shows "0 \<le> v"
proof -
  obtain v1 s1 where i: "leadingInt 0 s = Some (v1, s1)"
    using assms by (auto simp: duration_part_def split: if_splits option.splits)
  define frac where "frac = (if s1 \<noteq> [] \<and> hd s1 = CHR ''.'' then leadingFraction False 0 1 (tl s1) else (0, 1, s1))"
  obtain f scale s2 where fr: "frac = (f, scale, s2)" by (cases frac)
  have "0 < scale" using fr leadingFraction_scale [of False 0 1 "tl s1" f scale s2] by (auto simp: frac_def split: if_splits)
  moreover obtain u where u: "unit_of (takeWhile unit_byte s2) = Some u"
    "v = (if f > 0 then v1 * u + trunc (f64 (float f * f64 (float u / scale))) else v1 * u)"
    using assms i fr by (auto simp: duration_part_def Let_def frac_def split: if_splits option.splits)
  ultimately show ?thesis
    using leadingInt_nonneg [OF i] unit_of_pos [OF u(1)] fraction_nonneg [of f scale u] by auto
qed

lemma duration_loop_range: "duration_loop d s = Some n \<Longrightarrow> 0 \<le> d \<Longrightarrow> d \<le> 2 ^ 63 \<Longrightarrow> 0 \<le> n \<and> n \<le> 2 ^ 63"
proof (induction d s rule: duration_loop.induct)
  case (1 d s)
  show ?case
  proof (cases "s = []")
    case True
    with 1 show ?thesis by (simp add: duration_loop.simps)
  next
    case False
    then obtain v t where p: "duration_part s = Some (v, t)" "d + v \<le> 2 ^ 63" "duration_loop (d + v) t = Some n"
      using 1(2) by (subst (asm) duration_loop.simps) (auto split: option.splits if_splits)
    with 1(1) [OF False p(1)] 1(3) duration_part_nonneg [OF p(1)] show ?thesis by auto
  qed
qed

lemma ParseDuration_range: "ParseDuration s = Some d \<Longrightarrow> min_int64 \<le> d \<and> d \<le> max_int64"
  by (auto simp: ParseDuration_def int64_defs Let_def dest: duration_loop_range split: if_splits option.splits list.splits)

end
