(* ===== verification/Store.thy ===== *)
theory Store
  imports GoStrings
begin

text \<open>
  \<open>internal/store\<close>: rules, token buckets, keys and results, the \<open>Store\<close> interface as a record of
  state-passing operations, the no-op store, and the contracts (locales) the decorators and the
  engine rely on. The type variable of \<open>store\<close> is the world an operation reads and changes: the
  backend, the decorators' memory and the clock.
\<close>

subsection \<open>Data\<close>

record rule =
  rule_Limit :: int
  rule_Window :: duration
  rule_Block :: duration

definition Rule_Valid :: "rule \<Rightarrow> bool" where
  "Rule_Valid r \<longleftrightarrow> rule_Limit r > 0 \<and> rule_Window r > 0 \<and> rule_Block r > 0"

record key =
  key_Limiter :: string
  key_Bucket :: string

definition Key_String :: "key \<Rightarrow> string" where
  "Key_String k = key_Limiter k @ '':'' @ key_Bucket k"

record result =
  res_Blocked :: bool
  res_Count :: int
  res_RetryAfter :: duration

record bucket =
  tb_Rate :: int
  tb_Burst :: int

definition Bucket_Valid :: "bucket \<Rightarrow> bool" where
  "Bucket_Valid b \<longleftrightarrow> tb_Rate b > 0 \<and> tb_Burst b > 0"

record take_result =
  tr_Allowed :: bool
  tr_Remaining :: int
  tr_RetryAfter :: duration

text \<open>Go's zero values.\<close>

definition zero_rule :: rule where
  "zero_rule = \<lparr>rule_Limit = 0, rule_Window = 0, rule_Block = 0\<rparr>"

definition zero_bucket :: bucket where
  "zero_bucket = \<lparr>tb_Rate = 0, tb_Burst = 0\<rparr>"

definition zero_result :: result where
  "zero_result = \<lparr>res_Blocked = False, res_Count = 0, res_RetryAfter = 0\<rparr>"

definition zero_take_result :: take_result where
  "zero_take_result = \<lparr>tr_Allowed = False, tr_Remaining = 0, tr_RetryAfter = 0\<rparr>"

definition ErrDisabled :: goerror where "ErrDisabled = Sentinel ''store disabled''"

definition SanitizeBucket :: "string \<Rightarrow> string" where
  "SanitizeBucket s =
     (if \<not> (CHR ''{'' \<in> set s \<or> CHR ''}'' \<in> set s) then s
      else filter (\<lambda>c. c \<noteq> CHR ''{'' \<and> c \<noteq> CHR ''}'') s)"

subsection \<open>The interface\<close>

record 'w store =
  st_Consume :: "key \<Rightarrow> rule \<Rightarrow> 'w \<Rightarrow> result ret \<times> 'w"
  st_Take :: "key \<Rightarrow> bucket \<Rightarrow> 'w \<Rightarrow> take_result ret \<times> 'w"
  st_Close :: "'w \<Rightarrow> goerror option \<times> 'w"

definition Noop_Consume :: "key \<Rightarrow> rule \<Rightarrow> 'w \<Rightarrow> result ret \<times> 'w" where
  "Noop_Consume k r w = (Ret zero_result None, w)"

definition Noop_Take :: "key \<Rightarrow> bucket \<Rightarrow> 'w \<Rightarrow> take_result ret \<times> 'w" where
  "Noop_Take k b w = (Ret \<lparr>tr_Allowed = True, tr_Remaining = tb_Burst b, tr_RetryAfter = 0\<rparr> None, w)"

definition Noop_Close :: "'w \<Rightarrow> goerror option \<times> 'w" where
  "Noop_Close w = (None, w)"

definition Noop :: "'w store" where
  "Noop = \<lparr>st_Consume = Noop_Consume, st_Take = Noop_Take, st_Close = Noop_Close\<rparr>"

lemmas noop_defs = Noop_def Noop_Consume_def Noop_Take_def Noop_Close_def

subsection \<open>Keys name buckets injectively\<close>

lemma SanitizeBucket_filter: "SanitizeBucket s = filter (\<lambda>c. c \<noteq> CHR ''{'' \<and> c \<noteq> CHR ''}'') s"
  by (auto simp: SanitizeBucket_def intro!: filter_True [symmetric])

lemma SanitizeBucket_no_brace [simp]:
  "CHR ''{'' \<notin> set (SanitizeBucket s)" "CHR ''}'' \<notin> set (SanitizeBucket s)"
  by (simp_all add: SanitizeBucket_filter)

lemma SanitizeBucket_idem [simp]: "SanitizeBucket (SanitizeBucket s) = SanitizeBucket s"
  by (simp add: SanitizeBucket_filter)

lemma append_sep_inject:
  assumes "c \<notin> set a" "c \<notin> set a'"
  shows "a @ c # b = a' @ c # b' \<longleftrightarrow> a = a' \<and> b = b'"
  using assms
proof (induction a arbitrary: a')
  case Nil
  then show ?case by (cases a') auto
next
  case (Cons x xs)
  then show ?case by (cases a') auto
qed

text \<open>A name is separable when it holds no colon; every validated limiter name is.\<close>

abbreviation separable :: "string \<Rightarrow> bool" where "separable n \<equiv> CHR '':'' \<notin> set n"

lemma Key_String_inject:
  "separable (key_Limiter k) \<Longrightarrow> separable (key_Limiter k') \<Longrightarrow>
     Key_String k = Key_String k' \<longleftrightarrow> key_Limiter k = key_Limiter k' \<and> key_Bucket k = key_Bucket k'"
  by (simp add: Key_String_def append_sep_inject)

abbreviation good_key :: "key \<Rightarrow> bool" where "good_key k \<equiv> separable (key_Limiter k)"

lemma good_key_inject:
  "good_key k \<Longrightarrow> good_key k' \<Longrightarrow> Key_String k = Key_String k' \<longleftrightarrow> k = k'"
  by (cases k; cases k') (auto simp: Key_String_inject)

subsection \<open>Contracts\<close>

text \<open>Operations take time: the clock of a timed store never runs backwards across a call.\<close>

locale timed_store = monotone_clock now time_of
  for now :: "'w clock" and time_of :: "'w \<Rightarrow> time" +
  fixes S :: "'w store"
  assumes consume_time: "st_Consume S k r w = (x, w') \<Longrightarrow> time_of w \<le> time_of w'"
    and take_time: "st_Take S k b w = (y, w') \<Longrightarrow> time_of w \<le> time_of w'"

text \<open>What clients do to a store, one after another: operations on keys, and letting time pass.\<close>

datatype store_op = OpConsume key rule | OpTake key bucket | OpWait nat

fun run_op :: "'w store \<Rightarrow> (nat \<Rightarrow> 'w \<Rightarrow> 'w) \<Rightarrow> store_op \<Rightarrow> 'w \<Rightarrow> 'w" where
  "run_op S wait (OpConsume k r) w = snd (st_Consume S k r w)"
| "run_op S wait (OpTake k b) w = snd (st_Take S k b w)"
| "run_op S wait (OpWait n) w = wait n w"

fun run_ops :: "'w store \<Rightarrow> (nat \<Rightarrow> 'w \<Rightarrow> 'w) \<Rightarrow> store_op list \<Rightarrow> 'w \<Rightarrow> 'w" where
  "run_ops S wait [] w = w"
| "run_ops S wait (p # ps) w = run_ops S wait ps (run_op S wait p w)"

fun op_good :: "store_op \<Rightarrow> bool" where
  "op_good (OpConsume k r) = good_key k"
| "op_good (OpTake k b) = good_key k"
| "op_good (OpWait n) = True"

text \<open>
  A blocking store keeps its word: a key reported as blocked stays blocked for the time reported,
  whatever else is asked of the store meanwhile. \<open>held w k u\<close> says that in world \<open>w\<close> the block of
  \<open>k\<close> lasts at least to instant \<open>u\<close>; \<open>slack\<close> is the amount by which a report may overstate it, and
  \<open>inv\<close> the invariant under which the store promises this, for keys whose limiter name is separable.
\<close>

locale blocking_store = timed_store now time_of S
  for now :: "'w clock" and time_of :: "'w \<Rightarrow> time" and S :: "'w store" +
  fixes wait :: "nat \<Rightarrow> 'w \<Rightarrow> 'w" and inv :: "'w \<Rightarrow> bool" and held :: "'w \<Rightarrow> key \<Rightarrow> time \<Rightarrow> bool"
    and slack :: duration
  assumes slack_nonneg: "0 \<le> slack"
    and wait_time: "time_of w \<le> time_of (wait n w)"
    and wait_inv: "inv w \<Longrightarrow> inv (wait n w)"
    and wait_held: "held w k u \<Longrightarrow> held (wait n w) k u"
    and now_inv: "now w = (t, w') \<Longrightarrow> inv w \<Longrightarrow> inv w'"
    and consume_inv: "st_Consume S k r w = (x, w') \<Longrightarrow> good_key k \<Longrightarrow> inv w \<Longrightarrow> inv w'"
    and take_inv: "st_Take S k b w = (y, w') \<Longrightarrow> good_key k \<Longrightarrow> inv w \<Longrightarrow> inv w'"
    and held_antimono: "held w k u \<Longrightarrow> u' \<le> u \<Longrightarrow> held w k u'"
    and now_held: "now w = (t, w') \<Longrightarrow> held w k u \<Longrightarrow> held w' k u"
    and consume_reports:
      "st_Consume S k r w = (Ret res None, w') \<Longrightarrow> good_key k \<Longrightarrow> inv w \<Longrightarrow> res_Blocked res \<Longrightarrow>
         held w' k (time_of w' + res_RetryAfter res - slack) \<or> res_RetryAfter res \<le> slack"
    and consume_keeps:
      "st_Consume S k r w = (x, w') \<Longrightarrow> good_key k \<Longrightarrow> good_key k' \<Longrightarrow> inv w \<Longrightarrow> held w k' u \<Longrightarrow>
         held w' k' u \<or> u \<le> time_of w'"
    and take_keeps:
      "st_Take S k b w = (y, w') \<Longrightarrow> good_key k \<Longrightarrow> good_key k' \<Longrightarrow> inv w \<Longrightarrow> held w k' u \<Longrightarrow>
         held w' k' u \<or> u \<le> time_of w'"
    and consume_refuses:
      "st_Consume S k r w = (Ret res None, w') \<Longrightarrow> good_key k \<Longrightarrow> inv w \<Longrightarrow> held w k u \<Longrightarrow>
         time_of w' < u \<Longrightarrow> res_Blocked res"
begin

text \<open>What a client may remember of a block: it is still held, or it is over.\<close>

definition remembered :: "'w \<Rightarrow> key \<Rightarrow> time \<Rightarrow> bool" where
  "remembered w k u \<longleftrightarrow> held w k u \<or> u \<le> time_of w"

lemma remembered_antimono: "u' \<le> u \<Longrightarrow> remembered w k u \<Longrightarrow> remembered w k u'"
  using held_antimono unfolding remembered_def by fastforce

lemma remembered_now: "now w = (t, w') \<Longrightarrow> remembered w k u \<Longrightarrow> remembered w' k u"
  using now_held now_mono unfolding remembered_def by fastforce

lemma remembered_consume:
  "st_Consume S k r w = (x, w') \<Longrightarrow> good_key k \<Longrightarrow> good_key k' \<Longrightarrow> inv w \<Longrightarrow> remembered w k' u \<Longrightarrow>
     remembered w' k' u"
  using consume_keeps consume_time unfolding remembered_def by fastforce

lemma remembered_take:
  "st_Take S k b w = (y, w') \<Longrightarrow> good_key k \<Longrightarrow> good_key k' \<Longrightarrow> inv w \<Longrightarrow> remembered w k' u \<Longrightarrow>
     remembered w' k' u"
  using take_keeps take_time unfolding remembered_def by fastforce

lemma remembered_wait: "remembered w k u \<Longrightarrow> remembered (wait n w) k u"
  unfolding remembered_def by (meson order_trans wait_held wait_time)

lemma remembered_refuses:
  assumes "remembered w k u" "st_Consume S k r w = (Ret res None, w')" "good_key k" "inv w" "time_of w' < u"
  shows "res_Blocked res"
  using assms consume_refuses consume_time [OF assms(2)] unfolding remembered_def by fastforce

lemma remembered_op:
  "op_good p \<Longrightarrow> good_key k \<Longrightarrow> inv w \<and> remembered w k u \<Longrightarrow> inv (run_op S wait p w) \<and> remembered (run_op S wait p w) k u"
proof (cases p)
  case (OpConsume k' r)
  assume "op_good p" "good_key k" "inv w \<and> remembered w k u"
  then show ?thesis
    using consume_inv remembered_consume by (cases "st_Consume S k' r w") (auto simp: OpConsume)
next
  case (OpTake k' b)
  assume "op_good p" "good_key k" "inv w \<and> remembered w k u"
  then show ?thesis
    using take_inv remembered_take by (cases "st_Take S k' b w") (auto simp: OpTake)
qed (simp add: wait_inv remembered_wait)

lemma remembered_ops:
  "list_all op_good ps \<Longrightarrow> good_key k \<Longrightarrow> inv w \<and> remembered w k u \<Longrightarrow>
     inv (run_ops S wait ps w) \<and> remembered (run_ops S wait ps w) k u"
proof (induction ps arbitrary: w)
  case (Cons p ps)
  then show ?case using remembered_op [of p k w u] by simp
qed simp

lemma inv_ops: "list_all op_good ps \<Longrightarrow> inv w \<Longrightarrow> inv (run_ops S wait ps w)"
proof (induction ps arbitrary: w)
  case (Cons p ps)
  have "inv (run_op S wait p w)"
    using Cons.prems remembered_op [of p "\<lparr>key_Limiter = [], key_Bucket = []\<rparr>" w "time_of w"]
    by (simp add: remembered_def)
  with Cons show ?case by simp
qed simp

text \<open>A block lasts: whatever happens in between, the key is refused until the reported time is over.\<close>

lemma block_lasts:
  assumes "st_Consume S k r w = (Ret res None, w1)" "res_Blocked res" "inv w" "good_key k" "list_all op_good ps"
    and "st_Consume S k r' (run_ops S wait ps w1) = (Ret res' None, w2)"
    and "time_of w2 < time_of w1 + res_RetryAfter res - slack"
  shows "res_Blocked res'"
proof -
  let ?u = "time_of w1 + res_RetryAfter res - slack"
  have "inv w1 \<and> remembered w1 k ?u"
    using consume_inv [OF assms(1,4,3)] consume_reports [OF assms(1,4,3,2)] by (auto simp: remembered_def)
  then have "inv (run_ops S wait ps w1) \<and> remembered (run_ops S wait ps w1) k ?u"
    using remembered_ops assms(4,5) by blast
  then show ?thesis using remembered_refuses assms(4,6,7) by blast
qed

end

text \<open>
  A keyed store separates limiters: an operation on a key reads and writes only what belongs to
  the key's limiter. \<open>view w n\<close> is what belongs to limiter \<open>n\<close>; \<open>good\<close> restricts the law to the
  names and worlds for which the store promises it.
\<close>

locale keyed_store =
  fixes S :: "'w store" and view :: "'w \<Rightarrow> string \<Rightarrow> 'v" and good :: "string \<Rightarrow> bool"
  assumes consume_local:
      "good (key_Limiter k) \<Longrightarrow> view w (key_Limiter k) = view v (key_Limiter k) \<Longrightarrow>
         fst (st_Consume S k r w) = fst (st_Consume S k r v) \<and>
         view (snd (st_Consume S k r w)) (key_Limiter k) = view (snd (st_Consume S k r v)) (key_Limiter k)"
    and take_local:
      "good (key_Limiter k) \<Longrightarrow> view w (key_Limiter k) = view v (key_Limiter k) \<Longrightarrow>
         fst (st_Take S k b w) = fst (st_Take S k b v) \<and>
         view (snd (st_Take S k b w)) (key_Limiter k) = view (snd (st_Take S k b v)) (key_Limiter k)"
    and consume_frame:
      "good n \<Longrightarrow> good (key_Limiter k) \<Longrightarrow> n \<noteq> key_Limiter k \<Longrightarrow>
         view (snd (st_Consume S k r w)) n = view w n"
    and take_frame:
      "good n \<Longrightarrow> good (key_Limiter k) \<Longrightarrow> n \<noteq> key_Limiter k \<Longrightarrow>
         view (snd (st_Take S k b w)) n = view w n"

interpretation noop_keyed: keyed_store "Noop :: 'w store" "\<lambda>_ _. ()" "\<lambda>_. True"
  by unfold_locales (simp_all add: noop_defs)

end
