(* ===== verification/EnvConfig.thy ===== *)
theory EnvConfig
  imports GoParse Store
begin

text \<open>
  \<open>internal/config/config.go\<close>: the environment configuration. The loader collects errors as it
  reads, so each reader returns its value and the errors it adds; \<open>Load\<close> threads them in source
  order. The environment, and \<open>os.Stat\<close>, are arguments. Messages carry the variable's name and the
  fixed part of the text, not the interpolated values.
\<close>

subsection \<open>Data\<close>

datatype redis_mode = ModeSingle | ModeCluster | ModeOther string

definition Mode_of :: "string \<Rightarrow> redis_mode" where
  "Mode_of s = (if s = ''single'' then ModeSingle else if s = ''cluster'' then ModeCluster else ModeOther s)"

record redis_config =
  rc_Enabled :: bool
  rc_Addrs :: "string list"
  rc_Mode :: redis_mode
  rc_TLSEnabled :: bool
  rc_TLSSkipVerify :: bool
  rc_TLSCAFile :: string
  rc_TLSCertFile :: string
  rc_TLSKeyFile :: string
  rc_PoolSize :: int
  rc_MaxRetries :: int
  rc_DialTimeout :: duration
  rc_ReadTimeout :: duration
  rc_WriteTimeout :: duration
  rc_KeyPrefix :: string

record cache_config =
  cc_Enabled :: bool
  cc_MaxEntries :: int
  cc_MaxTTL :: duration

record breaker_config =
  bk_Threshold :: int
  bk_Cooldown :: duration

record config =
  cfg_ConfigPath :: string
  cfg_ListenAddr :: string
  cfg_LogLevel :: string
  cfg_LogFormat :: string
  cfg_MaxBodyBytes :: int
  cfg_ShutdownTimeout :: duration
  cfg_MetricsNamespace :: string
  cfg_HashSecret :: string
  cfg_Redis :: redis_config
  cfg_BlockCache :: cache_config
  cfg_Breaker :: breaker_config

definition DefaultKeyPrefix :: string where "DefaultKeyPrefix = ''forwardlimit:''"
definition DefaultConfigPath :: string where "DefaultConfigPath = ''/etc/forwardlimit/config.yaml''"

subsection \<open>Readers\<close>

type_synonym env = "string \<Rightarrow> string"
type_synonym 'a read = "'a \<times> string list"

definition raw :: "env \<Rightarrow> string \<Rightarrow> string option" where
  "raw getenv k = (let v = TrimSpace (getenv k) in if v = [] then None else Some v)"

definition env_str :: "env \<Rightarrow> string \<Rightarrow> string \<Rightarrow> string" where
  "env_str getenv k d = (case raw getenv k of Some v \<Rightarrow> v | None \<Rightarrow> d)"

text \<open>A reader over a parser: the default when unset, the default and an error when malformed.\<close>

definition env_read :: "(string \<Rightarrow> 'a option) \<Rightarrow> string \<Rightarrow> env \<Rightarrow> string \<Rightarrow> 'a \<Rightarrow> 'a read" where
  "env_read p what getenv k d =
     (case raw getenv k of
        None \<Rightarrow> (d, [])
      | Some v \<Rightarrow> (case p v of None \<Rightarrow> (d, [k @ '': is not '' @ what]) | Some x \<Rightarrow> (x, [])))"

definition env_boolean :: "env \<Rightarrow> string \<Rightarrow> bool \<Rightarrow> bool read" where
  "env_boolean = env_read ParseBool ''a boolean (use true or false)''"

definition env_int64 :: "env \<Rightarrow> string \<Rightarrow> int \<Rightarrow> int read" where
  "env_int64 = env_read ParseInt ''an integer''"

definition env_integer :: "env \<Rightarrow> string \<Rightarrow> int \<Rightarrow> int read" where
  "env_integer getenv k d = env_int64 getenv k d"

definition env_dur :: "env \<Rightarrow> string \<Rightarrow> duration \<Rightarrow> duration read" where
  "env_dur = env_read ParseDuration ''a duration (use forms like 500ms, 30s, 1h)''"

definition env_list :: "env \<Rightarrow> string \<Rightarrow> string list \<Rightarrow> string list" where
  "env_list getenv k d =
     (case raw getenv k of
        None \<Rightarrow> d
      | Some v \<Rightarrow> filter (\<lambda>p. p \<noteq> []) (map TrimSpace (Split v (CHR '',''))))"

definition normalisePrefix :: "string \<Rightarrow> string" where
  "normalisePrefix p = (if p = [] \<or> HasSuffix p '':'' then p else p @ '':'')"

subsection \<open>Loading\<close>

definition load_redis :: "env \<Rightarrow> redis_config read" where
  "load_redis g =
     (case (env_boolean g ''REDIS_ENABLED'' True, env_boolean g ''REDIS_TLS_ENABLED'' False,
            env_boolean g ''REDIS_TLS_SKIP_VERIFY'' False, env_integer g ''REDIS_POOL_SIZE'' 32,
            env_integer g ''REDIS_MAX_RETRIES'' 1, env_dur g ''REDIS_DIAL_TIMEOUT'' (200 * Millisecond),
            env_dur g ''REDIS_READ_TIMEOUT'' (500 * Millisecond), env_dur g ''REDIS_WRITE_TIMEOUT'' (500 * Millisecond)) of
        ((enabled, e1), (tls, e2), (skip, e3), (pool, e4), (retries, e5), (dial, e6), (rd, e7), (wr, e8)) \<Rightarrow>
          (\<lparr>rc_Enabled = enabled, rc_Addrs = env_list g ''REDIS_ADDRS'' [''127.0.0.1:6379''],
            rc_Mode = Mode_of (env_str g ''REDIS_MODE'' ''single''), rc_TLSEnabled = tls, rc_TLSSkipVerify = skip,
            rc_TLSCAFile = env_str g ''REDIS_TLS_CA_FILE'' [], rc_TLSCertFile = env_str g ''REDIS_TLS_CERT_FILE'' [],
            rc_TLSKeyFile = env_str g ''REDIS_TLS_KEY_FILE'' [], rc_PoolSize = pool, rc_MaxRetries = retries,
            rc_DialTimeout = dial, rc_ReadTimeout = rd, rc_WriteTimeout = wr,
            rc_KeyPrefix = normalisePrefix (env_str g ''REDIS_KEY_PREFIX'' DefaultKeyPrefix)\<rparr>,
           e1 @ e2 @ e3 @ e4 @ e5 @ e6 @ e7 @ e8))"

definition load_cache :: "env \<Rightarrow> cache_config read" where
  "load_cache g =
     (case (env_boolean g ''BLOCK_CACHE_ENABLED'' True, env_integer g ''BLOCK_CACHE_MAX_ENTRIES'' 200000,
            env_dur g ''BLOCK_CACHE_MAX_TTL'' (60 * Second)) of
        ((enabled, e1), (n, e2), (ttl, e3)) \<Rightarrow>
          (\<lparr>cc_Enabled = enabled, cc_MaxEntries = n, cc_MaxTTL = ttl\<rparr>, e1 @ e2 @ e3))"

definition load_breaker :: "env \<Rightarrow> breaker_config read" where
  "load_breaker g =
     (case (env_integer g ''STORE_BREAKER_THRESHOLD'' 3, env_dur g ''STORE_BREAKER_COOLDOWN'' (5 * Second)) of
        ((n, e1), (d, e2)) \<Rightarrow> (\<lparr>bk_Threshold = n, bk_Cooldown = d\<rparr>, e1 @ e2))"

definition load_values :: "env \<Rightarrow> config read" where
  "load_values g =
     (case (env_int64 g ''MAX_BODY_BYTES'' 262144, env_dur g ''SHUTDOWN_TIMEOUT'' (10 * Second),
            load_redis g, load_cache g, load_breaker g) of
        ((body, e1), (shutdown, e2), (redis, e3), (cache, e4), (brk, e5)) \<Rightarrow>
          (\<lparr>cfg_ConfigPath = env_str g ''CONFIG_PATH'' DefaultConfigPath, cfg_ListenAddr = env_str g ''LISTEN_ADDR'' '':8080'',
            cfg_LogLevel = env_str g ''LOG_LEVEL'' ''info'', cfg_LogFormat = env_str g ''LOG_FORMAT'' ''json'',
            cfg_MaxBodyBytes = body, cfg_ShutdownTimeout = shutdown,
            cfg_MetricsNamespace = env_str g ''METRICS_NAMESPACE'' ''forwardlimit'',
            cfg_HashSecret = g ''HASH_SECRET'', cfg_Redis = redis, cfg_BlockCache = cache, cfg_Breaker = brk\<rparr>,
           e1 @ e2 @ e3 @ e4 @ e5))"

text \<open>\<open>fail_if\<close> is an \<open>if\<close> around \<open>l.fail\<close>.\<close>

definition fail_if :: "bool \<Rightarrow> string \<Rightarrow> string list" where "fail_if b m = (if b then [m] else [])"

definition validateService :: "unicode \<Rightarrow> config \<Rightarrow> string list" where
  "validateService U c =
     fail_if (cfg_ListenAddr c = []) ''LISTEN_ADDR must not be empty'' @
     fail_if (cfg_ConfigPath c = []) ''CONFIG_PATH must not be empty'' @
     fail_if (cfg_MaxBodyBytes c \<le> 0) ''MAX_BODY_BYTES must be positive'' @
     fail_if (cfg_ShutdownTimeout c \<le> 0) ''SHUTDOWN_TIMEOUT must be positive'' @
     fail_if (cfg_MetricsNamespace c = []) ''METRICS_NAMESPACE must not be empty'' @
     fail_if (ToLower U (cfg_LogLevel c) \<notin> set [''debug'', ''info'', ''warn'', ''warning'', ''error''])
       ''LOG_LEVEL: is not one of debug, info, warn, error'' @
     fail_if (ToLower U (cfg_LogFormat c) \<notin> set [''json'', ''text'']) ''LOG_FORMAT: is not one of json, text''"

definition validate_tls_file :: "(string \<Rightarrow> goerror option) \<Rightarrow> bool \<Rightarrow> string \<times> string \<Rightarrow> string list" where
  "validate_tls_file stat tls kp = (case kp of (k, path) \<Rightarrow>
     if path = [] then []
     else fail_if (\<not> tls) (k @ '' is set but REDIS_TLS_ENABLED is false'') @
          fail_if (stat path \<noteq> None) (k @ '': cannot be read''))"

definition validateStore :: "(string \<Rightarrow> goerror option) \<Rightarrow> config \<Rightarrow> string list" where
  "validateStore stat c =
     (let r = cfg_Redis c
      in fail_if (rc_Mode r \<noteq> ModeSingle \<and> rc_Mode r \<noteq> ModeCluster) ''REDIS_MODE: is not one of single, cluster'' @
         fail_if (rc_Addrs r = []) ''REDIS_ADDRS must list at least one address'' @
         concat (map (validate_tls_file stat (rc_TLSEnabled r))
           [(''REDIS_TLS_CA_FILE'', rc_TLSCAFile r), (''REDIS_TLS_CERT_FILE'', rc_TLSCertFile r),
            (''REDIS_TLS_KEY_FILE'', rc_TLSKeyFile r)]) @
         fail_if ((rc_TLSCertFile r = []) \<noteq> (rc_TLSKeyFile r = []))
           ''REDIS_TLS_CERT_FILE and REDIS_TLS_KEY_FILE must be set together'' @
         fail_if (rc_MaxRetries r < 0) ''REDIS_MAX_RETRIES must not be negative'' @
         fail_if (rc_PoolSize r \<le> 0) ''REDIS_POOL_SIZE must be positive'' @
         concat (map (\<lambda>(k, d). fail_if (d \<le> 0) (k @ '' must be positive''))
           [(''REDIS_DIAL_TIMEOUT'', rc_DialTimeout r), (''REDIS_READ_TIMEOUT'', rc_ReadTimeout r),
            (''REDIS_WRITE_TIMEOUT'', rc_WriteTimeout r)]))"

definition validateDecorators :: "config \<Rightarrow> string list" where
  "validateDecorators c =
     (if cc_Enabled (cfg_BlockCache c)
      then fail_if (cc_MaxEntries (cfg_BlockCache c) \<le> 0) ''BLOCK_CACHE_MAX_ENTRIES must be positive'' @
           fail_if (cc_MaxTTL (cfg_BlockCache c) \<le> 0) ''BLOCK_CACHE_MAX_TTL must be positive''
      else []) @
     fail_if (bk_Threshold (cfg_Breaker c) > 0 \<and> bk_Cooldown (cfg_Breaker c) \<le> 0)
       ''STORE_BREAKER_COOLDOWN must be positive when STORE_BREAKER_THRESHOLD is set''"

definition validate_config :: "unicode \<Rightarrow> (string \<Rightarrow> goerror option) \<Rightarrow> config \<Rightarrow> string list" where
  "validate_config U stat c =
     validateService U c @
     (if \<not> rc_Enabled (cfg_Redis c) then [] else validateStore stat c @ validateDecorators c)"

definition Load :: "unicode \<Rightarrow> (string \<Rightarrow> goerror option) \<Rightarrow> env \<Rightarrow> string list + config" where
  "Load U stat g =
     (case load_values g of (c, errs) \<Rightarrow>
        (let errs' = errs @ validate_config U stat c in if errs' = [] then Inr c else Inl errs'))"

definition Config_Warnings :: "config \<Rightarrow> string list" where
  "Config_Warnings c =
     fail_if (\<not> rc_Enabled (cfg_Redis c))
       ''REDIS_ENABLED=false: all rate limiting is disabled and every request will be allowed'' @
     fail_if (cc_Enabled (cfg_BlockCache c) \<and> cc_MaxTTL (cfg_BlockCache c) > 5 * Minute)
       ''BLOCK_CACHE_MAX_TTL is large: a manual unblock may take that long to take effect on every replica'' @
     (if rc_TLSSkipVerify (cfg_Redis c)
      then [''REDIS_TLS_SKIP_VERIFY=true: the store's certificate is not verified'' @
            (if rc_TLSCAFile (cfg_Redis c) \<noteq> []
             then '' - REDIS_TLS_CA_FILE is set and is being ignored, so remove one of them'' else [])]
      else [])"

subsection \<open>What a loaded configuration guarantees\<close>

lemma fail_if_Nil [simp]: "fail_if b m = [] \<longleftrightarrow> \<not> b"
  by (simp add: fail_if_def)

definition config_ok :: "config \<Rightarrow> bool" where
  "config_ok c \<longleftrightarrow>
     cfg_ListenAddr c \<noteq> [] \<and> cfg_ConfigPath c \<noteq> [] \<and> cfg_MetricsNamespace c \<noteq> [] \<and>
     0 < cfg_MaxBodyBytes c \<and> 0 < cfg_ShutdownTimeout c \<and>
     (rc_Enabled (cfg_Redis c) \<longrightarrow>
        rc_Mode (cfg_Redis c) \<in> {ModeSingle, ModeCluster} \<and> rc_Addrs (cfg_Redis c) \<noteq> [] \<and>
        0 \<le> rc_MaxRetries (cfg_Redis c) \<and> 0 < rc_PoolSize (cfg_Redis c) \<and>
        0 < rc_DialTimeout (cfg_Redis c) \<and> 0 < rc_ReadTimeout (cfg_Redis c) \<and> 0 < rc_WriteTimeout (cfg_Redis c) \<and>
        (rc_TLSCertFile (cfg_Redis c) = []) = (rc_TLSKeyFile (cfg_Redis c) = []) \<and>
        (\<not> rc_TLSEnabled (cfg_Redis c) \<longrightarrow> rc_TLSCAFile (cfg_Redis c) = [] \<and> rc_TLSCertFile (cfg_Redis c) = []) \<and>
        (cc_Enabled (cfg_BlockCache c) \<longrightarrow> 0 < cc_MaxEntries (cfg_BlockCache c) \<and> 0 < cc_MaxTTL (cfg_BlockCache c)) \<and>
        (0 < bk_Threshold (cfg_Breaker c) \<longrightarrow> 0 < bk_Cooldown (cfg_Breaker c)))"

lemma validate_config_ok: "validate_config U stat c = [] \<Longrightarrow> config_ok c"
  by (auto simp: validate_config_def validateService_def validateStore_def validateDecorators_def validate_tls_file_def
      config_ok_def Let_def split: if_splits)

lemma Load_Inr: "Load U stat g = Inr c \<longleftrightarrow> load_values g = (c, []) \<and> validate_config U stat c = []"
  by (auto simp: Load_def Let_def split: prod.splits if_splits)

text \<open>A value that was set is either what was written or an error, never the default in silence.\<close>

lemma env_read_ok: "env_read p what g k d = (x, []) \<Longrightarrow> raw g k = Some v \<Longrightarrow> p v = Some x"
  by (auto simp: env_read_def split: option.splits)

lemma env_read_unset: "raw g k = None \<Longrightarrow> env_read p what g k d = (d, [])"
  by (simp add: env_read_def)

lemmas env_readers = env_boolean_def env_int64_def env_integer_def env_dur_def

lemma normalisePrefix_sep: "normalisePrefix p = [] \<or> last (normalisePrefix p) = CHR '':''"
  by (auto simp: normalisePrefix_def HasSuffix_def suffix_def)

text \<open>A setting is honoured when a value that is set parses to what the configuration holds.\<close>

definition honoured :: "(string \<Rightarrow> 'a option) \<Rightarrow> env \<Rightarrow> string \<Rightarrow> 'a \<Rightarrow> bool" where
  "honoured p g k x \<longleftrightarrow> (\<forall>v. raw g k = Some v \<longrightarrow> p v = Some x)"

lemma env_read_honoured: "env_read p what g k d = (x, []) \<Longrightarrow> honoured p g k x"
  by (auto simp: honoured_def dest: env_read_ok)

lemma load_redis_honours:
  assumes "load_redis g = (r, [])"
  shows "honoured ParseBool g ''REDIS_ENABLED'' (rc_Enabled r)" "honoured ParseBool g ''REDIS_TLS_ENABLED'' (rc_TLSEnabled r)"
    "honoured ParseBool g ''REDIS_TLS_SKIP_VERIFY'' (rc_TLSSkipVerify r)"
    "honoured ParseInt g ''REDIS_POOL_SIZE'' (rc_PoolSize r)" "honoured ParseInt g ''REDIS_MAX_RETRIES'' (rc_MaxRetries r)"
    "honoured ParseDuration g ''REDIS_DIAL_TIMEOUT'' (rc_DialTimeout r)"
    "honoured ParseDuration g ''REDIS_READ_TIMEOUT'' (rc_ReadTimeout r)"
    "honoured ParseDuration g ''REDIS_WRITE_TIMEOUT'' (rc_WriteTimeout r)"
  using assms by (auto simp: load_redis_def env_readers split: prod.splits intro: env_read_honoured)

lemma load_redis_prefix:
  "load_redis g = (r, e) \<Longrightarrow> rc_KeyPrefix r = normalisePrefix (env_str g ''REDIS_KEY_PREFIX'' DefaultKeyPrefix)"
  by (auto simp: load_redis_def split: prod.splits)

lemma load_cache_honours:
  assumes "load_cache g = (c, [])"
  shows "honoured ParseBool g ''BLOCK_CACHE_ENABLED'' (cc_Enabled c)"
    "honoured ParseInt g ''BLOCK_CACHE_MAX_ENTRIES'' (cc_MaxEntries c)"
    "honoured ParseDuration g ''BLOCK_CACHE_MAX_TTL'' (cc_MaxTTL c)"
  using assms by (auto simp: load_cache_def env_readers split: prod.splits intro: env_read_honoured)

lemma load_breaker_honours:
  assumes "load_breaker g = (b, [])"
  shows "honoured ParseInt g ''STORE_BREAKER_THRESHOLD'' (bk_Threshold b)"
    "honoured ParseDuration g ''STORE_BREAKER_COOLDOWN'' (bk_Cooldown b)"
  using assms by (auto simp: load_breaker_def env_readers split: prod.splits intro: env_read_honoured)

lemma load_values_parts:
  assumes "load_values g = (c, [])"
  shows "load_redis g = (cfg_Redis c, [])" "load_cache g = (cfg_BlockCache c, [])"
    "load_breaker g = (cfg_Breaker c, [])" "honoured ParseInt g ''MAX_BODY_BYTES'' (cfg_MaxBodyBytes c)"
    "honoured ParseDuration g ''SHUTDOWN_TIMEOUT'' (cfg_ShutdownTimeout c)"
  using assms by (auto simp: load_values_def env_readers split: prod.splits intro: env_read_honoured)

subsection \<open>Properties\<close>

text \<open>C26. A configuration that loads is sound: its addresses, paths and limits are present and positive
  where the service needs them, and TLS files come with TLS and in pairs. Every typed setting that
  was set is what was written: a malformed value is an error and never the default.\<close>

theorem loaded_config_is_sound:
  assumes "Load U stat g = Inr c"
  shows "config_ok c \<and>
    honoured ParseInt g ''MAX_BODY_BYTES'' (cfg_MaxBodyBytes c) \<and>
    honoured ParseDuration g ''SHUTDOWN_TIMEOUT'' (cfg_ShutdownTimeout c) \<and>
    honoured ParseBool g ''REDIS_ENABLED'' (rc_Enabled (cfg_Redis c)) \<and>
    honoured ParseBool g ''REDIS_TLS_ENABLED'' (rc_TLSEnabled (cfg_Redis c)) \<and>
    honoured ParseBool g ''REDIS_TLS_SKIP_VERIFY'' (rc_TLSSkipVerify (cfg_Redis c)) \<and>
    honoured ParseInt g ''REDIS_POOL_SIZE'' (rc_PoolSize (cfg_Redis c)) \<and>
    honoured ParseInt g ''REDIS_MAX_RETRIES'' (rc_MaxRetries (cfg_Redis c)) \<and>
    honoured ParseDuration g ''REDIS_DIAL_TIMEOUT'' (rc_DialTimeout (cfg_Redis c)) \<and>
    honoured ParseDuration g ''REDIS_READ_TIMEOUT'' (rc_ReadTimeout (cfg_Redis c)) \<and>
    honoured ParseDuration g ''REDIS_WRITE_TIMEOUT'' (rc_WriteTimeout (cfg_Redis c)) \<and>
    honoured ParseBool g ''BLOCK_CACHE_ENABLED'' (cc_Enabled (cfg_BlockCache c)) \<and>
    honoured ParseInt g ''BLOCK_CACHE_MAX_ENTRIES'' (cc_MaxEntries (cfg_BlockCache c)) \<and>
    honoured ParseDuration g ''BLOCK_CACHE_MAX_TTL'' (cc_MaxTTL (cfg_BlockCache c)) \<and>
    honoured ParseInt g ''STORE_BREAKER_THRESHOLD'' (bk_Threshold (cfg_Breaker c)) \<and>
    honoured ParseDuration g ''STORE_BREAKER_COOLDOWN'' (bk_Cooldown (cfg_Breaker c))"
proof -
  have v: "load_values g = (c, [])" and "validate_config U stat c = []" using assms by (simp_all add: Load_Inr)
  then have "config_ok c" by (simp add: validate_config_ok)
  with load_values_parts [OF v] load_redis_honours [OF load_values_parts(1) [OF v]]
    load_cache_honours [OF load_values_parts(2) [OF v]] load_breaker_honours [OF load_values_parts(3) [OF v]]
  show ?thesis by blast
qed

definition demo_env :: env where
  "demo_env = (\<lambda>_. [])(''MAX_BODY_BYTES'' := '' 4096 '', ''STORE_BREAKER_COOLDOWN'' := ''2s'')"

theorem loaded_config_is_sound_witness:
  "\<exists>c. Load ascii_unicode (\<lambda>_. None) demo_env = Inr c \<and> config_ok c \<and>
     honoured ParseInt demo_env ''MAX_BODY_BYTES'' (cfg_MaxBodyBytes c)"
proof -
  have "isl (Load ascii_unicode (\<lambda>_. None) demo_env) = False" by code_simp
  then obtain c where c: "Load ascii_unicode (\<lambda>_. None) demo_env = Inr c"
    by (cases "Load ascii_unicode (\<lambda>_. None) demo_env") auto
  from loaded_config_is_sound [OF c] c show ?thesis by blast
qed

text \<open>The key prefix of the store always ends in the separator or is empty, so the keys of two
  deployments with different prefixes on one server keep apart as their prefixes do.\<close>

lemma prefix_is_closed:
  assumes "Load U stat g = Inr c"
  shows "rc_KeyPrefix (cfg_Redis c) = normalisePrefix (env_str g ''REDIS_KEY_PREFIX'' DefaultKeyPrefix) \<and>
    (rc_KeyPrefix (cfg_Redis c) = [] \<or> last (rc_KeyPrefix (cfg_Redis c)) = CHR '':'') \<and>
    normalisePrefix (rc_KeyPrefix (cfg_Redis c)) = rc_KeyPrefix (cfg_Redis c)"
proof -
  have "load_redis g = (cfg_Redis c, [])" using assms load_values_parts(1) by (simp add: Load_Inr)
  then have "rc_KeyPrefix (cfg_Redis c) = normalisePrefix (env_str g ''REDIS_KEY_PREFIX'' DefaultKeyPrefix)"
    by (rule load_redis_prefix)
  moreover have "normalisePrefix (normalisePrefix p) = normalisePrefix p" for p
    by (auto simp: normalisePrefix_def HasSuffix_def suffix_def)
  ultimately show ?thesis using normalisePrefix_sep by simp
qed

text \<open>The secret alone is read as it is, blank or not.\<close>

lemma hash_secret_raw: "Load U stat g = Inr c \<Longrightarrow> cfg_HashSecret c = g ''HASH_SECRET''"
  by (auto simp: Load_Inr load_values_def split: prod.splits)

end
