(* ===== verification/Request.thy ===== *)
theory Request
  imports GoStrings
begin

text \<open>
  \<open>internal/limiter/request.go\<close>: the subject of a decision, with its lazily parsed body and query
  string, and the extraction of a body field, a query parameter or a header value. Laziness is
  state: the two \<open>sync.Once\<close> are fields that are empty until the first use, and every accessor
  returns the request it leaves behind. \<open>net/url\<close>'s query parser and \<open>net/http\<close>'s header lookup are
  modelled; the JSON decoder is the argument \<open>decode\<close>, and the order in which a Go map is ranged
  over, which the language leaves open, is the argument \<open>order\<close>.
\<close>

subsection \<open>Query strings and headers\<close>

definition hex_val :: "char \<Rightarrow> nat option" where
  "hex_val c = (let n = byte c in
     if 48 \<le> n \<and> n \<le> 57 then Some (n - 48)
     else if 97 \<le> n \<and> n \<le> 102 then Some (n - 87)
     else if 65 \<le> n \<and> n \<le> 70 then Some (n - 55) else None)"

text \<open>\<open>url.QueryUnescape\<close>: \<open>None\<close> is its error.\<close>

fun QueryUnescape :: "string \<Rightarrow> string option" where
  "QueryUnescape [] = Some []"
| "QueryUnescape (c # s) =
     (if c = CHR ''%''
      then (case s of
              a # b # rest \<Rightarrow>
                (case (hex_val a, hex_val b) of
                   (Some x, Some y) \<Rightarrow> map_option (Cons (char_of (16 * x + y))) (QueryUnescape rest)
                 | _ \<Rightarrow> None)
            | _ \<Rightarrow> None)
      else map_option (Cons (if c = CHR ''+'' then CHR '' '' else c)) (QueryUnescape s))"

type_synonym qvalues = "(string \<times> string list) list"

fun add_value :: "string \<Rightarrow> string \<Rightarrow> qvalues \<Rightarrow> qvalues" where
  "add_value k v [] = [(k, [v])]"
| "add_value k v ((k', vs) # q) = (if k = k' then (k', vs @ [v]) # q else (k', vs) # add_value k v q)"

text \<open>One pair between ampersands: skipped when it holds a semicolon, is empty or does not decode.\<close>

definition add_pair :: "string \<Rightarrow> qvalues \<Rightarrow> qvalues" where
  "add_pair p q =
     (if CHR '';'' \<in> set p \<or> p = [] then q
      else (case Cut p (CHR ''='') of (k, v, _) \<Rightarrow>
             (case (QueryUnescape k, QueryUnescape v) of
                (Some k', Some v') \<Rightarrow> add_value k' v' q
              | _ \<Rightarrow> q)))"

definition ParseQuery :: "string \<Rightarrow> qvalues" where
  "ParseQuery s = fold add_pair (Split s (CHR ''&'')) []"

definition Values_Get :: "qvalues \<Rightarrow> string \<Rightarrow> string" where
  "Values_Get q n = (case map_of q n of Some (v # _) \<Rightarrow> v | _ \<Rightarrow> [])"

definition token_byte :: "char \<Rightarrow> bool" where
  "token_byte c \<longleftrightarrow> is_digit c \<or> is_upper c \<or> is_lower c \<or>
     c \<in> set ''!#$%&*+-.^_`|~'' \<or> byte c = 39"

fun canonical_from :: "bool \<Rightarrow> string \<Rightarrow> string" where
  "canonical_from upper [] = []"
| "canonical_from upper (c # s) =
     (let c' = (if upper then upper_byte c else lower_byte c)
      in c' # canonical_from (c' = CHR ''-'') s)"

definition CanonicalHeaderKey :: "string \<Rightarrow> string" where
  "CanonicalHeaderKey s = (if list_all token_byte s then canonical_from True s else s)"

type_synonym header = "(string \<times> string list) list"

definition Header_Get :: "header \<Rightarrow> string \<Rightarrow> string" where
  "Header_Get h n = (case map_of h (CanonicalHeaderKey n) of Some (v # _) \<Rightarrow> v | _ \<Rightarrow> [])"

subsection \<open>The request\<close>

datatype json = JString string | JNumber string | JBool bool | JNull | JArray "json list"
  | JObject "(string \<times> json) list"

type_synonym object = "(string \<times> json) list"

text \<open>
  What the standard library and the runtime contribute to a key: the Unicode tables, the JSON
  decoder (\<open>None\<close> for an error and for a nil map) and the ranging order of a map.
\<close>

record lib =
  lib_unicode :: unicode
  lib_decode :: "string \<Rightarrow> object option"
  lib_order :: "string \<Rightarrow> qvalues \<Rightarrow> qvalues"

text \<open>A library for evaluating the model on concrete requests: ASCII text, no JSON, maps in order.\<close>

definition plain_lib :: lib where
  "plain_lib = \<lparr>lib_unicode = ascii_unicode,
     lib_decode = (\<lambda>_. None), lib_order = (\<lambda>_ q. q)\<rparr>"

record request =
  rq_Method :: string
  rq_Path :: string
  rq_Header :: header
  rq_Body :: string
  rq_RawQuery :: string
  rq_obj :: "object option option"
  rq_query :: "qvalues option"

definition new_request :: "string \<Rightarrow> string \<Rightarrow> header \<Rightarrow> string \<Rightarrow> string \<Rightarrow> request" where
  "new_request m p h b q = \<lparr>rq_Method = m, rq_Path = p, rq_Header = h, rq_Body = b, rq_RawQuery = q,
     rq_obj = None, rq_query = None\<rparr>"

definition parse :: "lib \<Rightarrow> string \<Rightarrow> object option" where
  "parse L body = (if body = [] then None else lib_decode L body)"

definition parse_once :: "lib \<Rightarrow> request \<Rightarrow> object option \<times> request" where
  "parse_once L r = (case rq_obj r of
     Some obj \<Rightarrow> (obj, r)
   | None \<Rightarrow> (let obj = parse L (rq_Body r) in (obj, r\<lparr>rq_obj := Some obj\<rparr>)))"

fun walk :: "json \<Rightarrow> string list \<Rightarrow> json option" where
  "walk cur [] = Some cur"
| "walk cur (part # parts) =
     (case cur of
        JObject m \<Rightarrow> (case map_of m part of None \<Rightarrow> None | Some v \<Rightarrow> walk v parts)
      | _ \<Rightarrow> None)"

definition scalar :: "json \<Rightarrow> string option" where
  "scalar v = (case v of
     JString s \<Rightarrow> if s = [] then None else Some s
   | JNumber s \<Rightarrow> if s = [] then None else Some s
   | _ \<Rightarrow> None)"

definition Field :: "lib \<Rightarrow> string \<Rightarrow> request \<Rightarrow> string option \<times> request" where
  "Field L name r =
     (case parse_once L r of (obj, r') \<Rightarrow>
        ((case obj of
            None \<Rightarrow> None
          | Some m \<Rightarrow> if name = [] then None
                      else Option.bind (walk (JObject m) (Split name (CHR ''.''))) scalar), r'))"

definition query_once :: "request \<Rightarrow> qvalues \<times> request" where
  "query_once r = (case rq_query r of
     Some q \<Rightarrow> (q, r)
   | None \<Rightarrow> (let q = ParseQuery (rq_RawQuery r) in (q, r\<lparr>rq_query := Some q\<rparr>)))"

fun exact_value :: "qvalues \<Rightarrow> string list \<Rightarrow> string option" where
  "exact_value q [] = None"
| "exact_value q (n # ns) =
     (let v = TrimSpace (Values_Get q n) in if v \<noteq> [] then Some v else exact_value q ns)"

fun scan_folded :: "unicode \<Rightarrow> string \<Rightarrow> qvalues \<Rightarrow> string option" where
  "scan_folded U n [] = None"
| "scan_folded U n ((k, vs) # q) =
     (case vs of
        [] \<Rightarrow> scan_folded U n q
      | v0 # _ \<Rightarrow>
          if \<not> EqualFold U k n then scan_folded U n q
          else (let v = TrimSpace v0 in if v \<noteq> [] then Some v else scan_folded U n q))"

fun folded_value :: "lib \<Rightarrow> qvalues \<Rightarrow> string list \<Rightarrow> string option" where
  "folded_value L q [] = None"
| "folded_value L q (n # ns) =
     (case scan_folded (lib_unicode L) n (lib_order L n q) of
        Some v \<Rightarrow> Some v
      | None \<Rightarrow> folded_value L q ns)"

definition QueryValue :: "lib \<Rightarrow> string list \<Rightarrow> request \<Rightarrow> string option \<times> request" where
  "QueryValue L names r =
     (if rq_RawQuery r = [] then (None, r)
      else (case query_once r of (q, r') \<Rightarrow>
             (case exact_value q names of
                Some v \<Rightarrow> (Some v, r')
              | None \<Rightarrow> (folded_value L q names, r'))))"

fun header_value :: "header \<Rightarrow> string list \<Rightarrow> string option" where
  "header_value h [] = None"
| "header_value h (n # ns) =
     (let v = TrimSpace (Header_Get h n)
      in if v = [] then header_value h ns
         else (let i = IndexByte v (CHR '','');
                   v' = (if i \<ge> 0 then TrimSpace (take (nat i) v) else v)
               in if v' \<noteq> [] then Some v' else header_value h ns))"

definition HeaderValue :: "string list \<Rightarrow> request \<Rightarrow> string option" where
  "HeaderValue names r = header_value (rq_Header r) names"

subsection \<open>The shared parse\<close>

text \<open>
  A request is coherent when what its caches hold is what parsing would give. Every request built
  by the handler is, and the accessors keep it so; then an accessor's answer does not depend on
  which accessors ran before.
\<close>

definition coherent :: "lib \<Rightarrow> request \<Rightarrow> bool" where
  "coherent L r \<longleftrightarrow> (rq_obj r = None \<or> rq_obj r = Some (parse L (rq_Body r))) \<and>
     (rq_query r = None \<or> rq_query r = Some (ParseQuery (rq_RawQuery r)))"

definition same_subject :: "request \<Rightarrow> request \<Rightarrow> bool" where
  "same_subject r r' \<longleftrightarrow> rq_Method r = rq_Method r' \<and> rq_Path r = rq_Path r' \<and>
     rq_Header r = rq_Header r' \<and> rq_Body r = rq_Body r' \<and> rq_RawQuery r = rq_RawQuery r'"

lemma coherent_new [simp]: "coherent L (new_request m p h b q)"
  by (simp add: coherent_def new_request_def)

lemma same_subject_refl [simp]: "same_subject r r"
  by (simp add: same_subject_def)

lemma same_subject_sym: "same_subject r r' \<Longrightarrow> same_subject r' r"
  by (simp add: same_subject_def)

lemma same_subject_trans: "same_subject r r' \<Longrightarrow> same_subject r' r'' \<Longrightarrow> same_subject r r''"
  by (simp add: same_subject_def)

lemma parse_once_coherent:
  "coherent L r \<Longrightarrow> parse_once L r = (parse L (rq_Body r), r\<lparr>rq_obj := Some (parse L (rq_Body r))\<rparr>)"
  by (auto simp: coherent_def parse_once_def Let_def)

lemma query_once_coherent:
  "coherent L r \<Longrightarrow>
     query_once r = (ParseQuery (rq_RawQuery r), r\<lparr>rq_query := Some (ParseQuery (rq_RawQuery r))\<rparr>)"
  by (auto simp: coherent_def query_once_def Let_def)

lemma Field_subject:
  "coherent L r \<Longrightarrow> same_subject r (snd (Field L n r)) \<and> coherent L (snd (Field L n r))"
  by (auto simp: Field_def parse_once_coherent same_subject_def coherent_def)

lemma QueryValue_subject:
  "coherent L r \<Longrightarrow> same_subject r (snd (QueryValue L ns r)) \<and> coherent L (snd (QueryValue L ns r))"
  by (auto simp: QueryValue_def query_once_coherent same_subject_def coherent_def split: option.splits)

lemma Field_pure:
  assumes "coherent L r" "coherent L r'" "same_subject r r'"
  shows "fst (Field L n r) = fst (Field L n r')"
  using assms by (simp add: Field_def parse_once_coherent same_subject_def)

lemma QueryValue_pure:
  assumes "coherent L r" "coherent L r'" "same_subject r r'"
  shows "fst (QueryValue L ns r) = fst (QueryValue L ns r')"
  using assms by (simp add: QueryValue_def query_once_coherent same_subject_def split: option.splits)

lemma HeaderValue_pure: "same_subject r r' \<Longrightarrow> HeaderValue ns r = HeaderValue ns r'"
  by (simp add: HeaderValue_def same_subject_def)

subsection \<open>A value is never empty\<close>

lemma scalar_nonempty: "scalar v = Some s \<Longrightarrow> s \<noteq> []"
  by (cases v) (auto simp: scalar_def split: if_splits)

lemma Field_nonempty: "fst (Field L n r) = Some v \<Longrightarrow> v \<noteq> []"
  by (auto simp: Field_def bind_eq_Some_conv dest: scalar_nonempty split: prod.splits option.splits if_splits)

lemma exact_value_nonempty: "exact_value q ns = Some v \<Longrightarrow> v \<noteq> []"
  by (induction q ns rule: exact_value.induct) (auto simp: Let_def split: if_splits)

lemma scan_folded_nonempty: "scan_folded U n q = Some v \<Longrightarrow> v \<noteq> []"
  by (induction U n q rule: scan_folded.induct) (auto simp: Let_def split: if_splits list.splits)

lemma folded_value_nonempty: "folded_value L q ns = Some v \<Longrightarrow> v \<noteq> []"
  by (induction L q ns rule: folded_value.induct) (auto dest: scan_folded_nonempty split: option.splits)

lemma QueryValue_nonempty: "fst (QueryValue L ns r) = Some v \<Longrightarrow> v \<noteq> []"
  by (auto simp: QueryValue_def dest: exact_value_nonempty folded_value_nonempty
      split: if_splits prod.splits option.splits)

lemma header_value_nonempty: "header_value h ns = Some v \<Longrightarrow> v \<noteq> []"
  by (induction h ns rule: header_value.induct) (auto simp: Let_def split: if_splits)

lemma HeaderValue_nonempty: "HeaderValue ns r = Some v \<Longrightarrow> v \<noteq> []"
  by (simp add: HeaderValue_def header_value_nonempty)

subsection \<open>No escape by spelling\<close>

lemma ParseQuery_Nil: "ParseQuery [] = []"
  by (simp add: ParseQuery_def add_pair_def)

lemma scan_folded_finds:
  assumes "(k, v # vs) \<in> set q" "EqualFold U k n" "TrimSpace v \<noteq> []"
  shows "\<exists>x. scan_folded U n q = Some x"
  using assms(1)
proof (induction q)
  case (Cons a q)
  obtain k' vs' where a: "a = (k', vs')" by (cases a)
  show ?case
  proof (cases "a = (k, v # vs)")
    case True
    with assms show ?thesis by simp
  next
    case False
    with Cons have "\<exists>x. scan_folded U n q = Some x" by simp
    then show ?thesis by (auto simp: a Let_def split: list.splits)
  qed
qed simp

lemma folded_value_finds:
  assumes "(k, v # vs) \<in> set (lib_order L n q)" "EqualFold (lib_unicode L) k n" "TrimSpace v \<noteq> []" "n \<in> set ns"
  shows "\<exists>x. folded_value L q ns = Some x"
  using assms(4)
proof (induction ns)
  case (Cons m ns)
  then show ?case using scan_folded_finds [OF assms(1-3)] by (auto split: option.splits)
qed simp

lemma header_value_no_comma: "header_value h ns = Some v \<Longrightarrow> CHR '','' \<notin> set v"
proof (induction h ns rule: header_value.induct)
  case (2 h n ns)
  let ?v = "TrimSpace (Header_Get h n)"
  have "CHR '','' \<notin> set (TrimSpace (take (nat (IndexByte ?v (CHR '',''))) ?v))" if "IndexByte ?v (CHR '','') \<ge> 0"
    using that set_TrimSpace [of "take (nat (IndexByte ?v (CHR '',''))) ?v"]
    by (auto simp: IndexByte_def takeWhile_eq_take [symmetric] dest!: set_takeWhileD split: if_splits)
  with 2 show ?case by (auto simp: Let_def IndexByte_def split: if_splits)
qed simp

text \<open>Header names are matched whatever their case.\<close>

lemma canonical_lower: "canonical_from u (map lower_byte s) = canonical_from u s"
proof (induction s arbitrary: u)
  case (Cons c s)
  have "upper_byte (lower_byte c) = upper_byte c"
    using byte_less [of c] by (auto simp: upper_byte_def lower_byte_def is_upper_def is_lower_def byte_def)
  with Cons show ?case by (simp add: Let_def)
qed simp

subsection \<open>Properties\<close>

text \<open>C32. A client does not escape a query limiter by its spelling of the parameter: when some
  parameter equals a configured name up to case and its first value is not blank, a value is found,
  and found values are trimmed and not empty, whatever order the map of parameters is ranged in.\<close>

theorem query_spelling_found:
  assumes "coherent L r" "(k, v # vs) \<in> set (ParseQuery (rq_RawQuery r))" "EqualFold (lib_unicode L) k n"
    and "TrimSpace v \<noteq> []" "n \<in> set ns" "\<And>m q. set (lib_order L m q) = set q"
  shows "\<exists>x. fst (QueryValue L ns r) = Some x \<and> x \<noteq> []"
proof -
  have ne: "rq_RawQuery r \<noteq> []" using assms(2) by (auto simp: ParseQuery_Nil)
  have "\<exists>x. folded_value L (ParseQuery (rq_RawQuery r)) ns = Some x"
    by (rule folded_value_finds [of k v vs]) (use assms in auto)
  with ne have "\<exists>x. fst (QueryValue L ns r) = Some x"
    by (auto simp: QueryValue_def query_once_coherent [OF assms(1)] split: option.splits)
  then show ?thesis using QueryValue_nonempty by blast
qed

theorem query_spelling_found_witness:
  "\<exists>x. fst (QueryValue plain_lib [''user''] (new_request ''GET'' ''/'' [] [] ''a=1&USER=bob'')) = Some x \<and> x \<noteq> []"
proof (rule query_spelling_found [of plain_lib _ "''USER''" "''bob''" "[]" "''user''"])
  show "(''USER'', [''bob'']) \<in> set (ParseQuery (rq_RawQuery (new_request ''GET'' ''/'' [] [] ''a=1&USER=bob'')))"
    by code_simp
  show "EqualFold (lib_unicode plain_lib) ''USER'' ''user''" by code_simp
  show "TrimSpace ''bob'' \<noteq> []" by code_simp
qed (simp_all add: plain_lib_def)

text \<open>Which value is found is not determined by the request when two parameters differ from the
  configured name in case alone: ranging over the map in another order gives another bucket.\<close>

lemma query_order_matters:
  "let r = new_request ''GET'' ''/'' [] [] ''USER=a&User=b''
   in fst (QueryValue plain_lib [''user''] r) = Some ''a'' \<and>
      fst (QueryValue (plain_lib\<lparr>lib_order := \<lambda>_ q. rev q\<rparr>) [''user''] r) = Some ''b''"
  by code_simp

end
