(* ===== verification/GoNet.thy ===== *)
theory GoNet
  imports GoStrings "HOL-Library.Word"
begin

text \<open>
  What the address normaliser uses of Go's \<open>net\<close> package: \<open>ParseIP\<close> for both families (through
  \<open>netip.ParseAddr\<close>), \<open>IP.To4\<close>, \<open>CIDRMask\<close>, \<open>IP.Mask\<close> and \<open>IP.String\<close>. An address is its list of
  bytes, four or sixteen of them.
\<close>

unbundle bit_operations_syntax

type_synonym ip = "8 word list"

subsection \<open>Parsing\<close>

definition parse_octet :: "string \<Rightarrow> 8 word option" where
  "parse_octet s =
     (if length s > 1 \<and> hd s = CHR ''0'' then None
      else (case read_digits s of
              None \<Rightarrow> None
            | Some n \<Rightarrow> if n > 255 then None else Some (of_nat n)))"

definition parseIPv4 :: "string \<Rightarrow> ip option" where
  "parseIPv4 s = (let ps = Split s (CHR ''.'')
     in if length ps = 4 then those (map parse_octet ps) else None)"

definition hex_digit :: "char \<Rightarrow> bool" where
  "hex_digit c \<longleftrightarrow> is_digit c \<or> 97 \<le> byte c \<and> byte c \<le> 102 \<or> 65 \<le> byte c \<and> byte c \<le> 70"

definition hex_digit_val :: "char \<Rightarrow> nat" where
  "hex_digit_val c = (if is_digit c then byte c - 48 else if 97 \<le> byte c then byte c - 87 else byte c - 55)"

definition read_hex :: "string \<Rightarrow> nat" where
  "read_hex s = foldl (\<lambda>n c. 16 * n + hex_digit_val c) 0 s"

lemma dropWhile_shorter: "dropWhile P s = c # t \<Longrightarrow> length t < length s"
  by (metis length_Cons length_dropWhile_le less_eq_Suc_le)

lemma dropWhile_shorter2:
  "dropWhile P s = c # d # t \<Longrightarrow> length t < length s \<and> Suc (length t) < length s"
  using dropWhile_shorter [of P s c "d # t"] by simp

text \<open>
  The loop over groups: the bytes so far, where the ellipsis stands if one was met, and the text
  that remains. A group is one to four hexadecimal digits; a dot after them starts a trailing
  IPv4 address.
\<close>

function v6_loop :: "ip \<Rightarrow> nat option \<Rightarrow> string \<Rightarrow> (ip \<times> nat option) option" where
  "v6_loop acc ell s =
     (if length acc \<ge> 16 then (if s = [] then Some (acc, ell) else None)
      else
        (let ds = takeWhile hex_digit s; rest = dropWhile hex_digit s
         in if ds = [] \<or> length ds > 4 then None
            else if rest \<noteq> [] \<and> hd rest = CHR ''.''
            then (if ell = None \<and> length acc \<noteq> 12 then None
                  else if length acc + 4 > 16 then None
                  else map_option (\<lambda>v4. (acc @ v4, ell)) (parseIPv4 s))
            else
              (let acc' = acc @ [of_nat (read_hex ds div 256), of_nat (read_hex ds)]
               in case rest of
                    [] \<Rightarrow> Some (acc', ell)
                  | [_] \<Rightarrow> None
                  | c # d # tail \<Rightarrow>
                      if c \<noteq> CHR '':'' then None
                      else if d = CHR '':''
                      then (if ell \<noteq> None then None
                            else if tail = [] then Some (acc', Some (length acc'))
                            else v6_loop acc' (Some (length acc')) tail)
                      else v6_loop acc' ell (d # tail))))"
  by pat_completeness auto
termination
  by (relation "measure (\<lambda>(acc, ell, s). length s)") (auto dest!: dropWhile_shorter2 [OF sym])

declare v6_loop.simps [simp del]

definition parseIPv6 :: "string \<Rightarrow> ip option" where
  "parseIPv6 s =
     (if CHR ''%'' \<in> set s then None
      else
        (let lead = (take 2 s = ''::''); s1 = (if lead then drop 2 s else s)
         in if lead \<and> s1 = [] then Some (replicate 16 0)
            else (case v6_loop [] (if lead then Some 0 else None) s1 of
                    None \<Rightarrow> None
                  | Some (bs, e) \<Rightarrow>
                      if length bs < 16
                      then map_option (\<lambda>p. take p bs @ replicate (16 - length bs) 0 @ drop p bs) e
                      else if e \<noteq> None then None else Some bs)))"

definition v4_in_v6 :: "ip \<Rightarrow> ip" where "v4_in_v6 v4 = replicate 10 0 @ [255, 255] @ v4"

text \<open>An address with a zone is refused by \<open>net.ParseIP\<close>, so is one whose zone is missing.\<close>

definition ParseIP :: "string \<Rightarrow> ip option" where
  "ParseIP s =
     (case find (\<lambda>c. c = CHR ''.'' \<or> c = CHR '':'' \<or> c = CHR ''%'') s of
        None \<Rightarrow> None
      | Some c \<Rightarrow> if c = CHR ''.'' then map_option v4_in_v6 (parseIPv4 s)
                  else if c = CHR '':'' then parseIPv6 s else None)"

definition To4 :: "ip \<Rightarrow> ip option" where
  "To4 a = (if length a = 4 then Some a
            else if length a = 16 \<and> take 12 a = replicate 10 0 @ [255, 255] then Some (drop 12 a)
            else None)"

subsection \<open>Masking\<close>

fun mask_bytes :: "nat \<Rightarrow> nat \<Rightarrow> ip" where
  "mask_bytes n 0 = []"
| "mask_bytes n (Suc l) =
     (if n \<ge> 8 then 255 # mask_bytes (n - 8) l else NOT (drop_bit n 255) # mask_bytes 0 l)"

definition CIDRMask :: "nat \<Rightarrow> nat \<Rightarrow> ip" where "CIDRMask ones bits = mask_bytes ones (bits div 8)"

definition Mask :: "ip \<Rightarrow> ip \<Rightarrow> ip" where "Mask a m = map2 (AND) a m"

subsection \<open>Printing\<close>

definition v4_text :: "ip \<Rightarrow> string" where
  "v4_text a = Join (map (\<lambda>b. digits_of (unat b)) a) ''.''"

definition hex_char :: "nat \<Rightarrow> char" where
  "hex_char n = (if n < 10 then char_of (48 + n) else char_of (87 + n))"

fun hex_text :: "nat \<Rightarrow> string" where
  "hex_text n = (if n < 16 then [hex_char n] else hex_text (n div 16) @ [hex_char (n mod 16)])"

declare hex_text.simps [simp del]

fun v6_groups :: "ip \<Rightarrow> nat list" where
  "v6_groups (a # b # bs) = (256 * unat a + unat b) # v6_groups bs"
| "v6_groups _ = []"

text \<open>The longest run of at least two zero groups, the first of equals.\<close>

definition zero_run :: "nat list \<Rightarrow> (nat \<times> nat) option" where
  "zero_run gs = fold (\<lambda>i best.
     (let l = length (takeWhile (\<lambda>g. g = 0) (drop i gs));
          cur = (case best of None \<Rightarrow> 0 | Some (s, e) \<Rightarrow> e - s)
      in if l \<ge> 2 \<and> l > cur then Some (i, i + l) else best)) [0..<8] None"

definition v6_text :: "ip \<Rightarrow> string" where
  "v6_text a =
     (let gs = v6_groups a; part = (\<lambda>xs. Join (map hex_text xs) '':'')
      in case zero_run gs of
           None \<Rightarrow> part gs
         | Some (s, e) \<Rightarrow> part (take s gs) @ ''::'' @ part (drop e gs))"

definition IP_String :: "ip \<Rightarrow> string" where
  "IP_String a = (case To4 a of Some v4 \<Rightarrow> v4_text v4 | None \<Rightarrow> v6_text a)"

subsection \<open>A printed IPv4 address reads back\<close>

lemma digits_of_no_leading_zero: "n > 0 \<Longrightarrow> hd (digits_of n) \<noteq> CHR ''0''"
proof (induction n rule: digits_of.induct)
  case (1 n)
  show ?case
  proof (cases "n < 10")
    case True
    then have "byte (hd (digits_of n)) = 48 + n" by (subst digits_of.simps) simp
    moreover have "byte (CHR ''0'') = 48" by (simp add: byte_def)
    ultimately show ?thesis using 1 by auto
  next
    case False
    with 1 show ?thesis by (subst digits_of.simps) (simp add: hd_append)
  qed
qed

lemma parse_octet_digits_of: "parse_octet (digits_of (unat (b :: 8 word))) = Some b"
proof (cases "unat b = 0")
  case True
  then have "b = 0" by (simp add: unat_eq_zero)
  then show ?thesis by (simp add: parse_octet_def digits_of.simps read_digits_def digit_val_def is_digit_def)
next
  case False
  have "unat b \<le> 255" using unsigned_less [of b, where 'a = nat] by simp
  with False show ?thesis
    using digits_of_no_leading_zero [of "unat b"] by (simp add: parse_octet_def)
qed

lemma those_map_Some: "(\<And>x. x \<in> set xs \<Longrightarrow> f (g x) = Some x) \<Longrightarrow> those (map f (map g xs)) = Some xs"
  by (induction xs) auto

lemma digits_of_no: "\<not> is_digit c \<Longrightarrow> c \<notin> set (digits_of n)"
  using digits_of_digits [of n] by (auto simp: list_all_iff)

lemma Split_v4_text: "a \<noteq> [] \<Longrightarrow> Split (v4_text a) (CHR ''.'') = map (\<lambda>b. digits_of (unat b)) a"
  unfolding v4_text_def by (rule Split_Join) (auto simp: digits_of_no byte_defs)

lemma parseIPv4_v4_text: "length a = 4 \<Longrightarrow> parseIPv4 (v4_text a) = Some a"
proof -
  assume l: "length a = 4"
  then have "a \<noteq> []" by auto
  then show ?thesis
    using l those_map_Some [of a parse_octet "\<lambda>b. digits_of (unat b)"]
    by (simp add: parseIPv4_def Split_v4_text parse_octet_digits_of)
qed

lemma v4_text_inject: "length a = 4 \<Longrightarrow> length b = 4 \<Longrightarrow> v4_text a = v4_text b \<longleftrightarrow> a = b"
  by (metis option.inject parseIPv4_v4_text)

lemma length_those: "those xs = Some ys \<Longrightarrow> length ys = length xs"
  by (induction xs arbitrary: ys) (auto split: option.splits)

lemma parseIPv4_length: "parseIPv4 s = Some a \<Longrightarrow> length a = 4"
  by (auto simp: parseIPv4_def Let_def dest!: length_those split: if_splits)

subsection \<open>Networks\<close>

definition addr_bit :: "ip \<Rightarrow> nat \<Rightarrow> bool" where "addr_bit a i = bit (a ! (i div 8)) (7 - i mod 8)"

definition same_network :: "nat \<Rightarrow> ip \<Rightarrow> ip \<Rightarrow> bool" where
  "same_network n a b \<longleftrightarrow> length a = length b \<and> (\<forall>i < n. addr_bit a i = addr_bit b i)"

lemma length_mask_bytes [simp]: "length (mask_bytes n l) = l"
  by (induction n l rule: mask_bytes.induct) auto

lemma masked_byte_eq:
  fixes a b :: "8 word"
  assumes "n \<le> 8"
  shows "a AND NOT (drop_bit n 255) = b AND NOT (drop_bit n 255) \<longleftrightarrow> (\<forall>i < n. bit a (7 - i) = bit b (7 - i))"
proof -
  have m: "bit (NOT (drop_bit n (255 :: 8 word))) j \<longleftrightarrow> j < 8 \<and> 8 \<le> j + n" for j
  proof -
    have e: "(255 :: 8 word) = mask 8" by (simp add: mask_eq_exp_minus_1)
    have "bit (255 :: 8 word) k \<longleftrightarrow> k < 8" for k unfolding e by (subst bit_mask_iff) auto
    then show ?thesis
      unfolding bit_not_iff bit_drop_bit_eq comp_def by (simp add: add.commute not_less) arith
  qed
  have "a AND NOT (drop_bit n 255) = b AND NOT (drop_bit n 255)
      \<longleftrightarrow> (\<forall>j < 8. 8 \<le> j + n \<longrightarrow> bit a j = bit b j)"
    by (auto simp: bit_word_eqI bit_and_iff m bit_eq_iff)
  also have "\<dots> \<longleftrightarrow> (\<forall>i < n. bit a (7 - i) = bit b (7 - i))"
  proof (rule iffI; intro allI impI)
    fix i assume "\<forall>j<8. 8 \<le> j + n \<longrightarrow> bit a j = bit b j" "i < n"
    then show "bit a (7 - i) = bit b (7 - i)" using assms by auto
  next
    fix j assume h: "\<forall>i<n. bit a (7 - i) = bit b (7 - i)" "j < 8" "8 \<le> j + n"
    then have "7 - j < n" "7 - (7 - j) = j" using assms by auto
    then show "bit a j = bit b j" using h(1) by metis
  qed
  finally show ?thesis .
qed

lemma addr_bit_Cons: "addr_bit (x # a) i = (if i < 8 then bit x (7 - i) else addr_bit a (i - 8))"
  by (auto simp: addr_bit_def le_div_geq le_mod_geq)

lemma same_network_Cons:
  "same_network n (x # a) (y # b) \<longleftrightarrow>
     (\<forall>i < min n 8. bit x (7 - i) = bit y (7 - i)) \<and> same_network (n - 8) a b"
proof -
  have "(\<forall>i < n. addr_bit (x # a) i = addr_bit (y # b) i) \<longleftrightarrow>
     (\<forall>i < min n 8. bit x (7 - i) = bit y (7 - i)) \<and> (\<forall>i < n - 8. addr_bit a i = addr_bit b i)"
  proof (rule iffI; intro conjI allI impI)
    fix i assume "\<forall>i < n. addr_bit (x # a) i = addr_bit (y # b) i" "i < min n 8"
    then show "bit x (7 - i) = bit y (7 - i)" by (auto simp: addr_bit_Cons dest: spec [of _ i])
  next
    fix i assume "\<forall>i < n. addr_bit (x # a) i = addr_bit (y # b) i" "i < n - 8"
    then show "addr_bit a i = addr_bit b i" by (auto simp: addr_bit_Cons dest: spec [of _ "i + 8"])
  next
    fix i assume "(\<forall>i < min n 8. bit x (7 - i) = bit y (7 - i)) \<and> (\<forall>i < n - 8. addr_bit a i = addr_bit b i)" "i < n"
    then show "addr_bit (x # a) i = addr_bit (y # b) i" by (auto simp: addr_bit_Cons)
  qed
  then show ?thesis by (auto simp: same_network_def)
qed

lemma Mask_eq_iff:
  assumes "length a = l" "length b = l" "n \<le> 8 * l"
  shows "Mask a (mask_bytes n l) = Mask b (mask_bytes n l) \<longleftrightarrow> same_network n a b"
  using assms
proof (induction l arbitrary: a b n)
  case 0
  then show ?case by (simp add: Mask_def same_network_def)
next
  case (Suc l)
  obtain x a' y b' where ab: "a = x # a'" "b = y # b'" using Suc.prems by (cases a; cases b) auto
  have full: "(NOT (drop_bit 8 255) :: 8 word) = 255" by simp
  show ?case
  proof (cases "n \<ge> 8")
    case True
    have "x AND 255 = y AND 255 \<longleftrightarrow> (\<forall>i < 8. bit x (7 - i) = bit y (7 - i))"
      using masked_byte_eq [of 8 x y] by (simp only: full order.refl)
    with True Suc show ?thesis by (simp add: ab Mask_def same_network_Cons)
  next
    case False
    then show ?thesis
      using Suc masked_byte_eq [of n x y] by (simp add: ab Mask_def same_network_Cons)
  qed
qed

lemma length_Mask [simp]: "length (Mask a m) = min (length a) (length m)"
  by (simp add: Mask_def)

end
