(* ===== verification/Sha256.thy ===== *)
theory Sha256
  imports GoStrings "HOL-Library.Word"
begin

text \<open>
  What the bucket hasher uses of the standard library: SHA-256 (\<open>crypto/sha256\<close>), HMAC over it
  (\<open>crypto/hmac\<close>) and \<open>hex.EncodeToString\<close>, on strings of bytes. The shape of a digest, 64
  hexadecimal characters whatever the key and the message, is what the storage layer relies on.
\<close>

unbundle bit_operations_syntax

type_synonym w32 = "32 word"
type_synonym w8 = "8 word"

text \<open>The constants of the standard, in decimal: the leading bits of the fractional parts of the cube
  roots of the first 64 primes and, for the initial state, of the square roots of the first eight.\<close>

definition round_constants :: "w32 list" where
  "round_constants =
    [1116352408, 1899447441, 3049323471, 3921009573, 961987163, 1508970993, 2453635748, 2870763221,
     3624381080, 310598401, 607225278, 1426881987, 1925078388, 2162078206, 2614888103, 3248222580,
     3835390401, 4022224774, 264347078, 604807628, 770255983, 1249150122, 1555081692, 1996064986,
     2554220882, 2821834349, 2952996808, 3210313671, 3336571891, 3584528711, 113926993, 338241895,
     666307205, 773529912, 1294757372, 1396182291, 1695183700, 1986661051, 2177026350, 2456956037,
     2730485921, 2820302411, 3259730800, 3345764771, 3516065817, 3600352804, 4094571909, 275423344,
     430227734, 506948616, 659060556, 883997877, 958139571, 1322822218, 1537002063, 1747873779,
     1955562222, 2024104815, 2227730452, 2361852424, 2428436474, 2756734187, 3204031479, 3329325298]"

type_synonym sha_state = "w32 \<times> w32 \<times> w32 \<times> w32 \<times> w32 \<times> w32 \<times> w32 \<times> w32"

definition initial_state :: sha_state where
  "initial_state = (1779033703, 3144134277, 1013904242, 2773480762, 1359893119, 2600822924, 528734635, 1541459225)"

definition rotr :: "nat \<Rightarrow> w32 \<Rightarrow> w32" where
  "rotr n x = drop_bit n x OR push_bit (32 - n) x"

definition schedule_word :: "w32 list \<Rightarrow> w32" where
  "schedule_word ws =
     (let v1 = ws ! (length ws - 2); v2 = ws ! (length ws - 15)
      in (rotr 17 v1 XOR rotr 19 v1 XOR drop_bit 10 v1) + ws ! (length ws - 7)
         + (rotr 7 v2 XOR rotr 18 v2 XOR drop_bit 3 v2) + ws ! (length ws - 16))"

definition schedule :: "w32 list \<Rightarrow> w32 list" where
  "schedule block = ((\<lambda>ws. ws @ [schedule_word ws]) ^^ 48) block"

definition sha_round :: "sha_state \<Rightarrow> w32 \<times> w32 \<Rightarrow> sha_state" where
  "sha_round st kw = (case st of (a, b, c, d, e, f, g, h) \<Rightarrow>
     let t1 = h + (rotr 6 e XOR rotr 11 e XOR rotr 25 e) + ((e AND f) XOR (NOT e AND g)) + fst kw + snd kw;
         t2 = (rotr 2 a XOR rotr 13 a XOR rotr 22 a) + ((a AND b) XOR (a AND c) XOR (b AND c))
     in (t1 + t2, a, b, c, d + t1, e, f, g))"

definition sha_block :: "sha_state \<Rightarrow> w32 list \<Rightarrow> sha_state" where
  "sha_block st block =
     (case (st, foldl sha_round st (zip round_constants (schedule block))) of
        ((a, b, c, d, e, f, g, h), (a', b', c', d', e', f', g', h')) \<Rightarrow>
          (a + a', b + b', c + c', d + d', e + e', f + f', g + g', h + h'))"

fun words_of :: "w8 list \<Rightarrow> w32 list" where
  "words_of (a # b # c # d # bs) =
     (push_bit 24 (ucast a) OR push_bit 16 (ucast b) OR push_bit 8 (ucast c) OR ucast d) # words_of bs"
| "words_of _ = []"

definition bytes_of :: "w32 \<Rightarrow> w8 list" where
  "bytes_of w = [ucast (drop_bit 24 w), ucast (drop_bit 16 w), ucast (drop_bit 8 w), ucast w]"

function sha_blocks :: "sha_state \<Rightarrow> w32 list \<Rightarrow> sha_state" where
  "sha_blocks st ws = (if ws = [] then st else sha_blocks (sha_block st (take 16 ws)) (drop 16 ws))"
  by pat_completeness auto
termination by (relation "measure (\<lambda>(st, ws). length ws)") auto

declare sha_blocks.simps [simp del]

definition padding :: "nat \<Rightarrow> w8 list" where
  "padding n = 0x80 # replicate ((119 - n mod 64) mod 64) 0
     @ map (\<lambda>i. of_nat (8 * n div 256 ^ i)) [7, 6, 5, 4, 3, 2, 1, 0]"

definition sha256 :: "w8 list \<Rightarrow> w8 list" where
  "sha256 m = (case sha_blocks initial_state (words_of (m @ padding (length m))) of
     (a, b, c, d, e, f, g, h) \<Rightarrow> concat (map bytes_of [a, b, c, d, e, f, g, h]))"

definition hmac_sha256 :: "w8 list \<Rightarrow> w8 list \<Rightarrow> w8 list" where
  "hmac_sha256 key m =
     (let k = (if length key > 64 then sha256 key else key); k64 = k @ replicate (64 - length k) 0
      in sha256 (map ((XOR) 0x5c) k64 @ sha256 (map ((XOR) 0x36) k64 @ m)))"

definition to_bytes :: "string \<Rightarrow> w8 list" where "to_bytes s = map (\<lambda>c. of_nat (byte c)) s"

definition hex_digit_char :: "nat \<Rightarrow> char" where
  "hex_digit_char n = (if n < 10 then char_of (48 + n) else char_of (87 + n))"

definition EncodeToString :: "w8 list \<Rightarrow> string" where
  "EncodeToString bs = concat (map (\<lambda>b. [hex_digit_char (unat b div 16), hex_digit_char (unat b mod 16)]) bs)"

subsection \<open>The shape of a digest\<close>

lemma padded_block_aligned: "64 dvd (length m + length (padding (length m)))"
proof -
  define q r where "q = length m div 64" and "r = length m mod 64"
  have m: "length m = 64 * q + r" and r: "r < 64" by (simp_all add: q_def r_def)
  have "length (padding (length m)) = 9 + (119 - r) mod 64" by (simp add: padding_def r_def)
  moreover have "(119 - r) mod 64 = (if r \<le> 55 then 55 - r else 119 - r)"
  proof (cases "r \<le> 55")
    case True
    then have "119 - r = 55 - r + 64" by simp
    then show ?thesis using True by (simp only: mod_add_self2) simp
  qed (use r in simp)
  ultimately have "length m + length (padding (length m)) = 64 * (if r \<le> 55 then q + 1 else q + 2)"
    using m r by auto
  then show ?thesis by (metis dvd_triv_left)
qed

lemma length_sha256 [simp]: "length (sha256 m) = 32"
  by (simp add: sha256_def bytes_of_def split: prod.split)

lemma length_hmac_sha256 [simp]: "length (hmac_sha256 k m) = 32"
  by (simp add: hmac_sha256_def Let_def)

lemma length_EncodeToString [simp]: "length (EncodeToString bs) = 2 * length bs"
  by (induction bs) (auto simp: EncodeToString_def)

definition lower_hex :: "char \<Rightarrow> bool" where
  "lower_hex c \<longleftrightarrow> is_digit c \<or> 97 \<le> byte c \<and> byte c \<le> 102"

lemma hex_digit_char_lower_hex: "n < 16 \<Longrightarrow> lower_hex (hex_digit_char n)"
  by (auto simp: hex_digit_char_def lower_hex_def is_digit_def)

lemma EncodeToString_lower_hex: "list_all lower_hex (EncodeToString bs)"
proof -
  have "unat (b :: w8) div 16 < 16" for b
    using unsigned_less [of b, where 'a = nat] by (simp add: less_mult_imp_div_less)
  then show ?thesis
    by (auto simp: EncodeToString_def list_all_iff intro!: hex_digit_char_lower_hex)
qed

lemma hex_digit_char_inject: "m < 16 \<Longrightarrow> n < 16 \<Longrightarrow> hex_digit_char m = hex_digit_char n \<Longrightarrow> m = n"
  by (auto simp: hex_digit_char_def byte_inject [symmetric] simp del: byte_inject split: if_splits)

end
