(* ===== verification/Keyer.thy ===== *)
theory Keyer
  imports Request GoNet Sha256 Store
begin

text \<open>
  \<open>internal/limiter/keyer\<close>: hashers, normalisers and the five bucket extractors. A keyer is the
  datatype of the structs that implement \<open>limiter.Keyer\<close>, and \<open>Key\<close> its method, which threads the
  request because extraction fills the request's caches. \<open>bucket_of\<close> is the specification: which
  bucket a request has, with no state at all; the refinement \<open>Key_refines\<close> relates the two.
\<close>

subsection \<open>Hashers and normalisers\<close>

datatype hasher = HMAC string | Plain

definition NewHMAC :: "string \<Rightarrow> hasher" where "NewHMAC secret = HMAC secret"

text \<open>\<open>HMAC.Available\<close>, of the hasher's secret.\<close>

definition Available :: "string \<Rightarrow> bool" where "Available secret \<longleftrightarrow> length secret > 0"

fun Hash :: "hasher \<Rightarrow> string \<Rightarrow> string option" where
  "Hash (HMAC secret) v =
     (if length secret = 0 then None
      else Some (EncodeToString (hmac_sha256 (to_bytes secret) (to_bytes v))))"
| "Hash Plain v = (if v = [] then None else Some v)"

definition hasher_or_plain :: "hasher option \<Rightarrow> hasher" where
  "hasher_or_plain h = (case h of None \<Rightarrow> Plain | Some h \<Rightarrow> h)"

type_synonym normaliser = "string \<Rightarrow> string"

definition Digits :: normaliser where "Digits s = filter is_digit s"

definition Lower :: "unicode \<Rightarrow> normaliser" where "Lower U s = ToLower U s"

definition IPSubnet :: "int \<Rightarrow> int \<Rightarrow> normaliser" where
  "IPSubnet v4Bits v6Bits s =
     (case ParseIP (TrimSpace s) of
        None \<Rightarrow> s
      | Some addr \<Rightarrow>
          (let (addr', bits) = (case To4 addr of Some v4 \<Rightarrow> (v4, v4Bits) | None \<Rightarrow> (addr, v6Bits));
               size = length addr' * 8
           in if bits < 0 \<or> bits > int size then s
              else IP_String (Mask addr' (CIDRMask (nat bits) size)) @ ''/'' @ Itoa bits))"

subsection \<open>Keyers\<close>

datatype keyer =
  BodyField string "normaliser option" "hasher option"
| Header "string list" "normaliser option" "hasher option"
| QueryParam "string list" "normaliser option" "hasher option"
| First "keyer list" "normaliser option" "hasher option"
| Composite "keyer list" string "normaliser option" "hasher option"

definition Normalise :: "normaliser option \<Rightarrow> string \<Rightarrow> string" where
  "Normalise n s = (case n of None \<Rightarrow> s | Some f \<Rightarrow> f s)"

text \<open>The last lines of every \<open>Key\<close>: normalise, refuse the empty value, hash.\<close>

definition finish :: "normaliser option \<Rightarrow> hasher option \<Rightarrow> string \<Rightarrow> string option" where
  "finish n h raw = (let v = Normalise n raw in if v = [] then None else Hash (hasher_or_plain h) v)"

fun Key :: "lib \<Rightarrow> keyer \<Rightarrow> request \<Rightarrow> string option \<times> request"
  and first_key :: "lib \<Rightarrow> keyer list \<Rightarrow> normaliser option \<Rightarrow> hasher option \<Rightarrow> request \<Rightarrow> string option \<times> request"
  and parts_key :: "lib \<Rightarrow> keyer list \<Rightarrow> request \<Rightarrow> string list option \<times> request"
where
  "Key L (BodyField field n h) r =
     (case Field L field r of
        (None, r') \<Rightarrow> (None, r')
      | (Some raw, r') \<Rightarrow> (finish n h raw, r'))"
| "Key L (Header names n h) r =
     (case HeaderValue names r of
        None \<Rightarrow> (None, r)
      | Some raw \<Rightarrow> (finish n h raw, r))"
| "Key L (QueryParam names n h) r =
     (case QueryValue L names r of
        (None, r') \<Rightarrow> (None, r')
      | (Some raw, r') \<Rightarrow> (finish n h raw, r'))"
| "Key L (First parts n h) r = first_key L parts n h r"
| "Key L (Composite parts sep n h) r =
     (if parts = [] then (None, r)
      else (let sep' = (if sep = [] then '':'' else sep)
            in case parts_key L parts r of
                 (None, r') \<Rightarrow> (None, r')
               | (Some vs, r') \<Rightarrow> (finish n h (Join vs sep'), r')))"
| "first_key L [] n h r = (None, r)"
| "first_key L (p # ps) n h r =
     (case Key L p r of
        (None, r') \<Rightarrow> first_key L ps n h r'
      | (Some v, r') \<Rightarrow>
          (let v' = Normalise n v
           in if v' = [] then first_key L ps n h r' else (Hash (hasher_or_plain h) v', r')))"
| "parts_key L [] r = (Some [], r)"
| "parts_key L (p # ps) r =
     (case Key L p r of
        (None, r') \<Rightarrow> (None, r')
      | (Some v, r') \<Rightarrow> (case parts_key L ps r' of (vs, r'') \<Rightarrow> (map_option (Cons v) vs, r'')))"

subsection \<open>The specification of a bucket\<close>

text \<open>The first value present in a list of candidates.\<close>

fun first_some :: "'a option list \<Rightarrow> 'a option" where
  "first_some [] = None"
| "first_some (None # xs) = first_some xs"
| "first_some (Some x # xs) = Some x"

definition usable :: "normaliser option \<Rightarrow> string option \<Rightarrow> string option" where
  "usable n v = (case v of None \<Rightarrow> None | Some s \<Rightarrow> if Normalise n s = [] then None else Some (Normalise n s))"

fun bucket_of :: "lib \<Rightarrow> request \<Rightarrow> keyer \<Rightarrow> string option" where
  "bucket_of L r (BodyField field n h) = Option.bind (fst (Field L field r)) (finish n h)"
| "bucket_of L r (Header names n h) = Option.bind (HeaderValue names r) (finish n h)"
| "bucket_of L r (QueryParam names n h) = Option.bind (fst (QueryValue L names r)) (finish n h)"
| "bucket_of L r (First parts n h) =
     Option.bind (first_some (map (\<lambda>p. usable n (bucket_of L r p)) parts)) (Hash (hasher_or_plain h))"
| "bucket_of L r (Composite parts sep n h) =
     (if parts = [] then None
      else Option.bind (those (map (bucket_of L r) parts))
             (\<lambda>vs. finish n h (Join vs (if sep = [] then '':'' else sep))))"

lemma bucket_of_pure:
  assumes "coherent L r" "coherent L r'" "same_subject r r'"
  shows "bucket_of L r k = bucket_of L r' k"
proof (induction k)
  case (First ps n h)
  then have "map (\<lambda>p. usable n (bucket_of L r p)) ps = map (\<lambda>p. usable n (bucket_of L r' p)) ps" by simp
  then show ?case by (simp only: bucket_of.simps)
next
  case (Composite ps sep n h)
  then have "map (bucket_of L r) ps = map (bucket_of L r') ps" by simp
  then show ?case by (simp only: bucket_of.simps)
qed (simp_all add: Field_pure [OF assms] QueryValue_pure [OF assms] HeaderValue_pure [OF assms(3)])

lemma bucket_of_ext:
  "coherent L r \<Longrightarrow> coherent L r' \<Longrightarrow> same_subject r r' \<Longrightarrow> bucket_of L r' = bucket_of L r"
  by (rule ext) (rule bucket_of_pure [symmetric])

text \<open>Extraction computes the specified bucket and leaves the subject of the request alone.\<close>

abbreviation reads_as :: "lib \<Rightarrow> request \<Rightarrow> 'a \<Rightarrow> 'a \<times> request \<Rightarrow> bool" where
  "reads_as L r v x \<equiv> fst x = v \<and> same_subject r (snd x) \<and> coherent L (snd x)"

lemma Key_refines_all:
  "coherent L r \<Longrightarrow> reads_as L r (bucket_of L r k) (Key L k r)"
  "coherent L r \<Longrightarrow> reads_as L r
     (Option.bind (first_some (map (\<lambda>p. usable n (bucket_of L r p)) ps)) (Hash (hasher_or_plain h)))
     (first_key L ps n h r)"
  "coherent L r \<Longrightarrow> reads_as L r (those (map (bucket_of L r) ps)) (parts_key L ps r)"
proof (induction L k r and L ps n h r and L ps r rule: Key_first_key_parts_key.induct)
  case (1 L f n h r)
  then show ?case using Field_subject [of L r f] by (auto split: prod.splits option.splits)
next
  case (3 L ns n h r)
  then show ?case using QueryValue_subject [of L r ns] by (auto split: prod.splits option.splits)
next
  case (5 L ps sep n h r)
  then show ?case by (cases "those (map (bucket_of L r) ps)") (auto simp: Let_def split: prod.splits)
next
  case (7 L p ps n h r)
  obtain v r' where k: "Key L p r = (v, r')" by (cases "Key L p r")
  with 7 have r': "same_subject r r'" "coherent L r'" and v: "v = bucket_of L r p" by auto
  have pure: "bucket_of L r' = bucket_of L r" by (rule bucket_of_ext [OF 7(4) r'(2) r'(1)])
  show ?case
  proof (cases "usable n v")
    case None
    then have "first_key L (p # ps) n h r = first_key L ps n h r'"
      by (auto simp: k usable_def Let_def split: option.splits if_splits)
    moreover have "v = None \<or> (\<exists>s. v = Some s \<and> Normalise n s = [])"
      using None by (auto simp: usable_def split: option.splits if_splits)
    then have "reads_as L r' (Option.bind (first_some (map (\<lambda>p. usable n (bucket_of L r' p)) ps))
        (Hash (hasher_or_plain h))) (first_key L ps n h r')"
      using 7(2) [OF k [symmetric]] 7(3) [OF k [symmetric]] r'(2) by auto
    ultimately show ?thesis using None same_subject_trans [OF r'(1)] by (auto simp: v pure)
  next
    case (Some x)
    then show ?thesis using r' by (auto simp: k v usable_def Let_def split: option.splits if_splits)
  qed
next
  case (9 L p ps r)
  obtain v r' where k: "Key L p r = (v, r')" by (cases "Key L p r")
  with 9 have r': "same_subject r r'" "coherent L r'" and v: "v = bucket_of L r p" by auto
  have pure: "bucket_of L r' = bucket_of L r" by (rule bucket_of_ext [OF 9(3) r'(2) r'(1)])
  show ?case
  proof (cases v)
    case None
    with r' show ?thesis by (simp add: k v)
  next
    case (Some x)
    with 9 k r'(2) have "reads_as L r' (those (map (bucket_of L r') ps)) (parts_key L ps r')" by auto
    with Some r' show ?thesis using same_subject_trans [OF r'(1)] by (auto simp: k v pure split: prod.splits)
  qed
qed (auto split: option.splits)

lemmas Key_refines = Key_refines_all(1)

subsection \<open>Running several keyers on one request\<close>

fun run_keys :: "lib \<Rightarrow> keyer list \<Rightarrow> request \<Rightarrow> string option list \<times> request" where
  "run_keys L [] r = ([], r)"
| "run_keys L (k # ks) r =
     (case Key L k r of (b, r') \<Rightarrow> (case run_keys L ks r' of (bs, r'') \<Rightarrow> (b # bs, r'')))"

lemma run_keys_bucket_of:
  "coherent L r \<Longrightarrow> reads_as L r (map (bucket_of L r) ks) (run_keys L ks r)"
proof (induction ks arbitrary: r)
  case (Cons k ks)
  obtain b r' where k: "Key L k r = (b, r')" by (cases "Key L k r")
  with Cons Key_refines [of L r k] have r': "b = bucket_of L r k" "same_subject r r'" "coherent L r'" by auto
  have "bucket_of L r' = bucket_of L r" by (rule bucket_of_ext [OF Cons.prems r'(3) r'(2)])
  with Cons.IH [OF r'(3)] r' show ?case
    using same_subject_trans [OF r'(2)] by (auto simp: k split: prod.splits)
qed simp

subsection \<open>Buckets are usable\<close>

lemma Hash_nonempty: "Hash h v = Some b \<Longrightarrow> b \<noteq> []"
proof (cases h)
  case (HMAC s)
  assume "Hash h v = Some b"
  with HMAC have "length b = 64" by (auto split: if_splits)
  then show ?thesis by auto
qed (auto split: if_splits)

lemma finish_nonempty: "finish n h v = Some b \<Longrightarrow> b \<noteq> []"
  by (auto simp: finish_def Let_def dest: Hash_nonempty split: if_splits)

lemma bucket_of_nonempty: "bucket_of L r k = Some b \<Longrightarrow> b \<noteq> []"
  by (cases k) (auto simp: bind_eq_Some_conv dest!: finish_nonempty Hash_nonempty split: if_splits)

text \<open>The hasher of the outermost node, which has the last word on what is stored.\<close>

fun hasher_at :: "keyer \<Rightarrow> hasher" where
  "hasher_at (BodyField f n h) = hasher_or_plain h"
| "hasher_at (Header ns n h) = hasher_or_plain h"
| "hasher_at (QueryParam ns n h) = hasher_or_plain h"
| "hasher_at (First ps n h) = hasher_or_plain h"
| "hasher_at (Composite ps s n h) = hasher_or_plain h"

lemma bucket_of_hashed: "bucket_of L r k = Some b \<Longrightarrow> \<exists>v. v \<noteq> [] \<and> Hash (hasher_at k) v = Some b"
proof (cases k)
  case (First ps n h)
  assume "bucket_of L r k = Some b"
  then obtain v where v: "first_some (map (\<lambda>p. usable n (bucket_of L r p)) ps) = Some v"
    "Hash (hasher_or_plain h) v = Some b" using First by (auto simp: bind_eq_Some_conv)
  have "first_some xs = Some v \<Longrightarrow> Some v \<in> set xs" for xs :: "string option list" and v
    by (induction xs rule: first_some.induct) auto
  then have "\<exists>p. usable n (bucket_of L r p) = Some v" using v(1) by fastforce
  then have "v \<noteq> []" by (auto simp: usable_def split: option.splits if_splits)
  with v First show ?thesis by auto
qed (auto simp: bind_eq_Some_conv finish_def Let_def split: if_splits)

lemma lower_hex_plain: "lower_hex c \<Longrightarrow> c \<noteq> CHR ''{'' \<and> c \<noteq> CHR ''}'' \<and> c \<noteq> CHR '':''"
  by (auto simp: lower_hex_def is_digit_def byte_def)

lemma Hash_HMAC_shape:
  assumes "Hash (HMAC s) v = Some b"
  shows "s \<noteq> [] \<and> length b = 64 \<and> list_all lower_hex b \<and> SanitizeBucket b = b"
proof -
  have b: "b = EncodeToString (hmac_sha256 (to_bytes s) (to_bytes v))" and s: "s \<noteq> []"
    using assms by (auto split: if_splits)
  have hex: "list_all lower_hex b" by (simp add: b EncodeToString_lower_hex)
  then have "SanitizeBucket b = b"
    unfolding SanitizeBucket_filter using lower_hex_plain by (auto simp: list_all_iff intro!: filter_True)
  with hex s show ?thesis by (simp add: b)
qed

subsection \<open>First and Composite\<close>

lemma first_some_None: "first_some xs = None \<longleftrightarrow> set xs \<subseteq> {None}"
  by (induction xs rule: first_some.induct) auto

lemma first_some_append: "set us \<subseteq> {None} \<Longrightarrow> first_some (us @ Some v # ws) = Some v"
  by (induction us) auto

lemma first_some_SomeD: "first_some xs = Some v \<Longrightarrow> \<exists>us ws. xs = us @ Some v # ws \<and> set us \<subseteq> {None}"
proof (induction xs rule: first_some.induct)
  case (2 xs)
  then obtain us ws where "xs = us @ Some v # ws" "set us \<subseteq> {None}" by auto
  then have "None # xs = (None # us) @ Some v # ws" "set (None # us) \<subseteq> {None}" by auto
  then show ?case by blast
next
  case (3 x xs)
  then have "Some x # xs = [] @ Some v # xs" by simp
  then show ?case by (metis empty_set empty_subsetI)
qed simp

lemma those_eq_Some: "those xs = Some ys \<longleftrightarrow> xs = map Some ys"
  by (induction xs arbitrary: ys) (auto split: option.splits)

lemma map_Some_member: "map f ps = map Some xs \<Longrightarrow> x \<in> set xs \<Longrightarrow> \<exists>p \<in> set ps. f p = Some x"
  by (metis (no_types, lifting) image_iff image_set)

lemma composite_values:
  assumes "bucket_of L r (Composite ps [c] None None) = Some b"
  obtains vs where "map (bucket_of L r) ps = map Some vs" "b = Join vs [c]" "vs \<noteq> []"
proof -
  from assms obtain vs where ne: "ps \<noteq> []" and vs: "those (map (bucket_of L r) ps) = Some vs"
    and b: "finish None None (Join vs [c]) = Some b"
    by (auto simp: bind_eq_Some_conv split: if_splits)
  from b have "b = Join vs [c]" by (auto simp: finish_def Normalise_def hasher_or_plain_def Let_def split: if_splits)
  moreover from vs ne have "vs \<noteq> []" by (auto simp: those_eq_Some)
  ultimately show ?thesis using vs that by (simp add: those_eq_Some)
qed

subsection \<open>Address prefixes\<close>

lemma IPSubnet_v4:
  assumes "ParseIP (TrimSpace s) = Some x" "To4 x = Some a" "0 \<le> n" "n \<le> 32"
  shows "IPSubnet n m s = v4_text (Mask a (mask_bytes (nat n) 4)) @ ''/'' @ Itoa n" "length a = 4"
proof -
  show l: "length a = 4" using assms(2) by (auto simp: To4_def split: if_splits)
  show "IPSubnet n m s = v4_text (Mask a (mask_bytes (nat n) 4)) @ ''/'' @ Itoa n"
    using assms l by (simp add: IPSubnet_def CIDRMask_def IP_String_def To4_def)
qed

lemma IPSubnet_v4_eq:
  assumes "ParseIP (TrimSpace s) = Some x" "To4 x = Some a" "ParseIP (TrimSpace t) = Some y" "To4 y = Some b"
    and "0 \<le> n" "n \<le> 32"
  shows "IPSubnet n m s = IPSubnet n m t \<longleftrightarrow> same_network (nat n) a b"
  using IPSubnet_v4 [OF assms(1,2,5,6)] IPSubnet_v4 [OF assms(3,4,5,6)] assms(6)
  by (simp add: v4_text_inject Mask_eq_iff)

lemma ParseIP_length: "ParseIP s = Some x \<Longrightarrow> To4 x = None \<Longrightarrow> length x \<noteq> 4"
  by (auto simp: To4_def)

lemma IPSubnet_v6_eq:
  assumes "ParseIP (TrimSpace s) = Some x" "To4 x = None" "ParseIP (TrimSpace t) = Some y" "To4 y = None"
    and "length x = 16" "0 \<le> m" "m \<le> 128" "same_network (nat m) x y"
  shows "IPSubnet n m s = IPSubnet n m t"
proof -
  have y: "length y = 16" using assms by (simp add: same_network_def)
  then have "Mask x (mask_bytes (nat m) 16) = Mask y (mask_bytes (nat m) 16)"
    using assms Mask_eq_iff [of x 16 y "nat m"] by simp
  then show ?thesis using assms y by (simp add: IPSubnet_def CIDRMask_def)
qed

lemma Digits_drop: "\<not> is_digit c \<Longrightarrow> Digits (a @ c # b) = Digits (a @ b)"
  by (simp add: Digits_def)

subsection \<open>Properties\<close>


definition demo_request :: request where
  "demo_request = new_request ''POST'' ''/login'' [(''X-Forwarded-For'', [''203.0.113.7, 10.0.0.1''])] [] ''User=alice&user=%20''"


text \<open>C28. A bucket is never empty, and where the outermost node of the key hashes, what reaches the
  store and the log is 64 lower-case hexadecimal digits and never the raw value; without a secret
  such a key yields no bucket at all.\<close>

theorem buckets_usable:
  assumes "coherent L r" "Key L k r = (Some b, r')"
  shows "b \<noteq> [] \<and> (\<forall>s. hasher_at k = HMAC s \<longrightarrow> s \<noteq> [] \<and> length b = 64 \<and> list_all lower_hex b \<and> SanitizeBucket b = b)"
proof -
  have "bucket_of L r k = Some b" using Key_refines [OF assms(1), of k] assms(2) by simp
  then have "b \<noteq> []" and "\<exists>v. Hash (hasher_at k) v = Some b"
    using bucket_of_nonempty bucket_of_hashed by blast+
  then show ?thesis using Hash_HMAC_shape by metis
qed

theorem buckets_usable_witness:
  "let k = Header [''x-forwarded-for''] None (Some (HMAC ''secret''))
   in \<exists>b. fst (Key plain_lib k demo_request) = Some b \<and> length b = 64 \<and> list_all lower_hex b"
proof -
  let ?k = "Header [''x-forwarded-for''] None (Some (HMAC ''secret''))"
  have c: "coherent plain_lib demo_request" by (simp add: demo_request_def)
  have v: "HeaderValue [''x-forwarded-for''] demo_request = Some ''203.0.113.7''" by code_simp
  then obtain b r' where b: "Key plain_lib ?k demo_request = (Some b, r')"
    by (simp add: finish_def Normalise_def hasher_or_plain_def Let_def)
  from buckets_usable [OF c b] b show ?thesis unfolding Let_def by (auto simp: hasher_or_plain_def)
qed


definition composite_demo :: "string \<Rightarrow> request" where
  "composite_demo c = new_request ''GET'' ''/'' [(''A'', [''x'']), (''B'', [c])] [] []"


text \<open>Without that condition it does not: the values \<open>x:y\<close>, \<open>z\<close> and \<open>x\<close>, \<open>y:z\<close> share a bucket.\<close>

lemma composite_collides:
  "let k = Composite [Header [''A''] None None, Header [''B''] None None] [] None None;
       r = (\<lambda>a b. new_request ''GET'' ''/'' [(''A'', [a]), (''B'', [b])] [] [])
   in fst (Key plain_lib k (r ''x:y'' ''z'')) = fst (Key plain_lib k (r ''x'' ''y:z'')) \<and>
      fst (Key plain_lib k (r ''x'' ''y:z'')) = Some ''x:y:z''"
  by code_simp

end
