(* ===== verification/Limiter.thy ===== *)
theory Limiter
  imports Keyer
begin

text \<open>
  \<open>internal/limiter/limiter.go\<close>: a limiter with its scope (paths and methods), verdicts,
  evaluations and decisions. A keyer is any function that may panic, as \<open>limiter.Keyer\<close> is an
  interface; \<open>keyer_method\<close> makes one of the keyers of the configuration.
\<close>

datatype key_ret = KeyPanic string | KeyRet "string option"

type_synonym key_fn = "request \<Rightarrow> key_ret \<times> request"

definition keyer_method :: "lib \<Rightarrow> keyer \<Rightarrow> key_fn" where
  "keyer_method L k r = (case Key L k r of (b, r') \<Rightarrow> (KeyRet b, r'))"

record limiter =
  lim_Name :: string
  lim_Rule :: rule
  lim_Bucket :: bucket
  lim_Keyer :: key_fn
  lim_Paths :: "string list"
  lim_Methods :: "string list"
  lim_DryRun :: bool
  lim_AdviseRetryAfter :: bool

definition Active :: "limiter \<Rightarrow> bool" where
  "Active l \<longleftrightarrow> Rule_Valid (lim_Rule l) \<or> Bucket_Valid (lim_Bucket l)"

definition normalisePath :: "string \<Rightarrow> string" where
  "normalisePath p = (if length p > 1 then TrimSuffix p ''/'' else p)"

fun path_loop :: "unicode \<Rightarrow> string \<Rightarrow> string list \<Rightarrow> bool" where
  "path_loop U path [] = False"
| "path_loop U path (p0 # ps) =
     (let p = ToLower U p0
      in case CutSuffix p ''/*'' of
           Some base \<Rightarrow>
             if base = [] \<or> path = base \<or> HasPrefix path (base @ ''/'') then True
             else path_loop U path ps
         | None \<Rightarrow> if path = normalisePath p then True else path_loop U path ps)"

definition matchesPath :: "unicode \<Rightarrow> limiter \<Rightarrow> string \<Rightarrow> bool" where
  "matchesPath U l path =
     (if lim_Paths l = [] then True
      else path_loop U (ToLower U (normalisePath path)) (lim_Paths l))"

definition matchesMethod :: "unicode \<Rightarrow> limiter \<Rightarrow> string \<Rightarrow> bool" where
  "matchesMethod U l m = (if lim_Methods l = [] then True else list_ex (EqualFold U m) (lim_Methods l))"

definition Applies :: "unicode \<Rightarrow> limiter \<Rightarrow> string \<Rightarrow> string \<Rightarrow> bool" where
  "Applies U l path m \<longleftrightarrow> matchesPath U l path \<and> matchesMethod U l m"

datatype verdict = VerdictAllowed | VerdictBlocked | VerdictWouldBlock | VerdictFailedOpen

fun Verdict_text :: "verdict \<Rightarrow> string" where
  "Verdict_text VerdictAllowed = ''allowed''"
| "Verdict_text VerdictBlocked = ''blocked''"
| "Verdict_text VerdictWouldBlock = ''would_block''"
| "Verdict_text VerdictFailedOpen = ''failed_open''"

record evaluation =
  ev_Limiter :: string
  ev_Verdict :: verdict

record decision =
  d_Blocked :: bool
  d_DryRun :: bool
  d_Limiter :: string
  d_Count :: int
  d_RetryAfter :: duration
  d_AdviseRetryAfter :: bool
  d_Evaluations :: "evaluation list"

definition zero_decision :: decision where
  "zero_decision = \<lparr>d_Blocked = False, d_DryRun = False, d_Limiter = [], d_Count = 0, d_RetryAfter = 0,
     d_AdviseRetryAfter = False, d_Evaluations = []\<rparr>"

definition Rejected :: "decision \<Rightarrow> bool" where "Rejected d \<longleftrightarrow> d_Blocked d \<and> \<not> d_DryRun d"

definition FailedOpen :: "decision \<Rightarrow> bool" where
  "FailedOpen d = list_ex (\<lambda>e. ev_Verdict e = VerdictFailedOpen) (d_Evaluations d)"

subsection \<open>What a path pattern covers\<close>

text \<open>
  The specification of a pattern, on ASCII: an exact pattern covers the paths with the same
  segments up to case and one trailing slash, a subtree pattern those whose segments extend it.
\<close>

abbreviation fold_case :: "string \<Rightarrow> string" where "fold_case \<equiv> map lower_byte"

definition segments :: "string \<Rightarrow> string list" where
  "segments p = Split (fold_case (normalisePath p)) (CHR ''/'')"

definition covers :: "string \<Rightarrow> string \<Rightarrow> bool" where
  "covers pat path =
     (case CutSuffix pat ''/*'' of
        Some base \<Rightarrow> base = [] \<or> prefix (Split (fold_case base) (CHR ''/'')) (segments path)
      | None \<Rightarrow> segments path = segments pat)"

lemma Split_append_sep: "Split (a @ c # b) c = Split a c @ Split b c"
  by (induction a c rule: Split.induct) (auto split: list.splits)

lemma Split_inject: "Split a c = Split b c \<longleftrightarrow> a = b"
  by (metis Join_Split)

lemma subtree_iff_prefix:
  "path = base \<or> HasPrefix path (base @ [c]) \<longleftrightarrow> prefix (Split base c) (Split path c)"
proof
  assume "path = base \<or> HasPrefix path (base @ [c])"
  then show "prefix (Split base c) (Split path c)"
    by (auto simp: HasPrefix_def prefix_def Split_append_sep)
next
  assume "prefix (Split base c) (Split path c)"
  then obtain xs where xs: "Split path c = Split base c @ xs" by (auto simp: prefix_def)
  show "path = base \<or> HasPrefix path (base @ [c])"
  proof (cases xs)
    case Nil
    with xs show ?thesis by (simp add: Split_inject)
  next
    case (Cons x ys)
    have "Join (us @ vs) [c] = Join us [c] @ c # Join vs [c]" if "us \<noteq> []" "vs \<noteq> []" for us vs :: "string list"
      using that by (induction us "[c]" rule: Join.induct) (auto simp: neq_Nil_conv)
    then have "Join (Split path c) [c] = Join (Split base c) [c] @ c # Join xs [c]"
      using Cons xs by simp
    then show ?thesis by (auto simp: Join_Split HasPrefix_def prefix_def)
  qed
qed

lemma ascii_TrimSuffix: "ascii p \<Longrightarrow> ascii (TrimSuffix p s)"
  by (auto simp: TrimSuffix_def CutSuffix_def list_all_iff dest: in_set_takeD split: option.splits if_splits)

lemma ascii_normalisePath: "ascii p \<Longrightarrow> ascii (normalisePath p)"
  by (simp add: normalisePath_def ascii_TrimSuffix)

lemma lower_byte_nonletter:
  assumes "\<not> is_upper d" "\<not> is_lower d"
  shows "lower_byte c = d \<longleftrightarrow> c = d"
proof (cases "is_upper c")
  case True
  then have "byte (lower_byte c) = byte c + 32" by (simp add: lower_byte_def is_upper_def)
  then have "is_lower (lower_byte c)" using True by (simp add: is_lower_def is_upper_def)
  with True assms show ?thesis by auto
qed (simp add: lower_byte_def)

lemma lower_byte_fixed: "d \<in> set ''/*'' \<Longrightarrow> lower_byte c = d \<longleftrightarrow> c = d"
  by (rule lower_byte_nonletter) (auto simp: byte_defs)

lemma map_fixed:
  assumes "\<And>c d. d \<in> set s \<Longrightarrow> f c = d \<longleftrightarrow> c = d"
  shows "map f t = s \<longleftrightarrow> t = s"
  using assms
proof (induction s arbitrary: t)
  case (Cons a s)
  then show ?case by (cases t) auto
qed simp

lemma CutSuffix_fold_case:
  assumes "set p \<subseteq> set ''/*''"
  shows "CutSuffix (fold_case s) p = map_option fold_case (CutSuffix s p)"
proof -
  have "suffix p (fold_case s) \<longleftrightarrow> suffix p s"
  proof
    assume "suffix p (fold_case s)"
    then obtain a b where "s = a @ b" "fold_case b = p" by (auto simp: suffix_def map_eq_append_conv)
    moreover have "fold_case b = p \<longleftrightarrow> b = p" by (rule map_fixed) (use assms lower_byte_fixed in blast)
    ultimately show "suffix p s" by (simp add: suffix_def)
  next
    assume "suffix p s"
    then obtain a where "s = a @ p" by (auto simp: suffix_def)
    moreover have "fold_case p = p \<longleftrightarrow> p = p" by (rule map_fixed) (use assms lower_byte_fixed in blast)
    ultimately show "suffix p (fold_case s)" by (simp add: suffix_def)
  qed
  then show ?thesis by (simp add: CutSuffix_def take_map)
qed

lemma normalisePath_fold_case: "normalisePath (fold_case s) = fold_case (normalisePath s)"
  by (simp add: normalisePath_def TrimSuffix_def CutSuffix_fold_case split: option.splits)

lemma path_loop_covers:
  assumes "ascii path" "list_all ascii ps"
  shows "path_loop U (ToLower U (normalisePath path)) ps \<longleftrightarrow> list_ex (\<lambda>p. covers p path) ps"
  using assms(2)
proof (induction ps)
  case (Cons p ps)
  have path: "ToLower U (normalisePath path) = fold_case (normalisePath path)"
    by (simp add: ToLower_ascii ascii_normalisePath assms(1))
  have p: "ToLower U p = fold_case p" using Cons.prems by (simp add: ToLower_ascii)
  have exact: "fold_case (normalisePath path) = normalisePath (fold_case p) \<longleftrightarrow> segments path = segments p"
    by (simp add: segments_def Split_inject normalisePath_fold_case)
  have sub: "(fold_case (normalisePath path) = fold_case b \<or> HasPrefix (fold_case (normalisePath path)) (fold_case b @ ''/''))
      \<longleftrightarrow> prefix (Split (fold_case b) (CHR ''/'')) (segments path)" for b
    unfolding segments_def by (rule subtree_iff_prefix)
  have IH: "path_loop U (fold_case (normalisePath path)) ps \<longleftrightarrow> list_ex (\<lambda>p. covers p path) ps"
    using Cons by (simp add: path)
  have cut: "CutSuffix (fold_case p) ''/*'' = map_option fold_case (CutSuffix p ''/*'')"
    by (simp add: CutSuffix_fold_case)
  show ?case
  proof (cases "CutSuffix p ''/*''")
    case None
    then show ?thesis by (simp only: path_loop.simps path p cut Let_def) (simp add: IH exact covers_def)
  next
    case (Some b)
    then show ?thesis
      using sub [of b] by (simp only: path_loop.simps path p cut Let_def) (simp add: IH covers_def)
  qed
qed simp

lemma matchesPath_covers:
  assumes "ascii path" "list_all ascii (lim_Paths l)"
  shows "matchesPath U l path \<longleftrightarrow> lim_Paths l = [] \<or> list_ex (\<lambda>p. covers p path) (lim_Paths l)"
  using path_loop_covers [OF assms] by (auto simp: matchesPath_def)

lemma matchesMethod_ascii:
  assumes "ascii m" "list_all ascii (lim_Methods l)"
  shows "matchesMethod U l m \<longleftrightarrow> lim_Methods l = [] \<or> list_ex (\<lambda>x. fold_case m = fold_case x) (lim_Methods l)"
proof -
  have "list_ex (EqualFold U m) ms = list_ex (\<lambda>x. fold_case m = fold_case x) ms" if "list_all ascii ms" for ms
    using that assms(1) by (induction ms) (auto simp: EqualFold_ascii)
  with assms(2) show ?thesis by (auto simp: matchesMethod_def)
qed

subsection \<open>Properties\<close>

text \<open>C30. On ASCII a limiter applies to exactly the requests its scope covers: some path pattern has
  the path's segments, or a leading part of them for a subtree pattern, up to case and one trailing
  slash, and some method is the request's up to case; an empty list of either covers everything.\<close>

theorem scope_is_covered:
  assumes "ascii path" "list_all ascii (lim_Paths l)" "ascii m" "list_all ascii (lim_Methods l)"
  shows "Applies U l path m \<longleftrightarrow>
    (lim_Paths l = [] \<or> list_ex (\<lambda>p. covers p path) (lim_Paths l)) \<and>
    (lim_Methods l = [] \<or> list_ex (\<lambda>x. fold_case m = fold_case x) (lim_Methods l))"
  unfolding Applies_def matchesPath_covers [OF assms(1,2)] matchesMethod_ascii [OF assms(3,4)] ..

definition scoped :: "string list \<Rightarrow> string list \<Rightarrow> limiter" where
  "scoped ps ms = \<lparr>lim_Name = ''s'', lim_Rule = zero_rule, lim_Bucket = zero_bucket,
     lim_Keyer = (\<lambda>r. (KeyRet None, r)), lim_Paths = ps, lim_Methods = ms, lim_DryRun = False,
     lim_AdviseRetryAfter = False\<rparr>"

theorem scope_is_covered_witness:
  "let U = lib_unicode plain_lib
   in Applies U (scoped [''/login'', ''/api/*''] [''POST'']) ''/API/users/'' ''post'' \<and>
      \<not> Applies U (scoped [''/login'', ''/api/*''] [''POST'']) ''/apis'' ''post''"
proof -
  let ?l = "scoped [''/login'', ''/api/*''] [''POST'']"
  have l: "list_all ascii (lim_Paths ?l)" "list_all ascii (lim_Methods ?l)" "ascii ''post''" by code_simp+
  have "ascii ''/API/users/''" "ascii ''/apis''" by code_simp+
  note c = scope_is_covered [OF this(1) l(1,3,2), of "lib_unicode plain_lib"]
    scope_is_covered [OF this(2) l(1,3,2), of "lib_unicode plain_lib"]
  have "list_ex (\<lambda>p. covers p ''/API/users/'') (lim_Paths ?l)" "\<not> list_ex (\<lambda>p. covers p ''/apis'') (lim_Paths ?l)"
    "list_ex (\<lambda>x. fold_case ''post'' = fold_case x) (lim_Methods ?l)" "lim_Paths ?l \<noteq> []" by code_simp+
  then show ?thesis unfolding Let_def c by blast
qed

end
