(* ===== verification/FileConfig.thy ===== *)
theory FileConfig
  imports EnvConfig Limiter
begin

text \<open>
  \<open>internal/config/file.go\<close>: the limiter file and its validation, which collects every problem. The
  YAML decoder and the file system are outside the repository's sources; \<open>stat\<close> is \<open>os.Stat\<close>.
  A message is its location and the fixed part of its text.
\<close>

subsection \<open>Data\<close>

record response_spec =
  rs_Status :: int
  rs_ContentType :: string
  rs_Body :: string
  rs_BodyFile :: string

record window_spec =
  ws_Limit :: int
  ws_Window :: duration
  ws_Block :: duration

record bucket_spec =
  bsp_Rate :: int
  bsp_Burst :: int

datatype key_spec = KeySpec
  (ks_Body: string) (ks_Header: "string list") (ks_Query: "string list") (ks_First: "key_spec list")
  (ks_Composite: "key_spec list") (ks_Separator: string) (ks_Normalise: string) (ks_Hash: bool)

record limiter_spec =
  ls_Name :: string
  ls_Key :: "key_spec option"
  ls_Window :: "window_spec option"
  ls_Bucket :: "bucket_spec option"
  ls_Paths :: "string list"
  ls_Methods :: "string list"
  ls_DryRun :: bool
  ls_RetryAfter :: bool
  ls_Response :: "response_spec option"

record limiter_file =
  f_Response :: "response_spec option"
  f_Limiters :: "limiter_spec list"

definition MinLimit :: int where "MinLimit = 1"
definition MaxLimit :: int where "MaxLimit = 10000"
definition MinWindow :: duration where "MinWindow = Second"
definition MaxWindow :: duration where "MaxWindow = Hour"
definition MinBlock :: duration where "MinBlock = Second"
definition MaxBlock :: duration where "MaxBlock = 24 * Hour"
definition MinRate :: int where "MinRate = 1"
definition MaxRate :: int where "MaxRate = 1000000"
definition MinBurst :: int where "MinBurst = 1"
definition MaxBurst :: int where "MaxBurst = 1000000"

lemmas spec_bounds = MinLimit_def MaxLimit_def MinWindow_def MaxWindow_def MinBlock_def MaxBlock_def
  MinRate_def MaxRate_def MinBurst_def MaxBurst_def

subsection \<open>Normalisers\<close>

datatype normaliserKind = NormNone | NormDigits | NormLower | NormTrim | NormIPSubnet int int

definition check_subnet :: "int \<Rightarrow> int \<Rightarrow> goerror + normaliserKind" where
  "check_subnet v4 v6 =
     (if v4 < 0 \<or> v4 > 32 then Inl (Errorf ''ipsubnet IPv4 prefix must be 0-32'')
      else if v6 < 0 \<or> v6 > 128 then Inl (Errorf ''ipsubnet IPv6 prefix must be 0-128'')
      else Inr (NormIPSubnet v4 v6))"

definition parse_subnet :: "string \<Rightarrow> goerror + normaliserKind" where
  "parse_subnet arg =
     (let parts = Split arg (CHR '','')
      in if length parts > 2 then Inl (Errorf ''ipsubnet takes at most two prefix lengths'')
         else (case ParseInt (TrimSpace (parts ! 0)) of
                 None \<Rightarrow> Inl (Errorf ''ipsubnet: is not a prefix length'')
               | Some v4 \<Rightarrow>
                   if length parts = 2
                   then (case ParseInt (TrimSpace (parts ! 1)) of
                           None \<Rightarrow> Inl (Errorf ''ipsubnet: is not a prefix length'')
                         | Some v6 \<Rightarrow> check_subnet v4 v6)
                   else check_subnet v4 64))"

definition parseNormaliser :: "string \<Rightarrow> goerror + normaliserKind" where
  "parseNormaliser name =
     (case Cut (TrimSpace name) (CHR ''/'') of (base, arg, hasArg) \<Rightarrow>
        let plain = (\<lambda>k. if hasArg then Inl (Errorf (base @ '' takes no argument'')) else Inr k)
        in if base = [] \<or> base = ''none'' then plain NormNone
           else if base = ''digits'' then plain NormDigits
           else if base = ''lower'' then plain NormLower
           else if base = ''trim'' then plain NormTrim
           else if base = ''ipsubnet'' then (if hasArg then parse_subnet arg else check_subnet 24 64)
           else Inl (Errorf ''unknown normaliser; valid: digits, lower, trim, none, ipsubnet/N[,M]''))"

subsection \<open>Validation\<close>

definition sources :: "key_spec \<Rightarrow> string list" where
  "sources k =
     (if ks_Body k \<noteq> [] then [''body''] else []) @
     (if ks_Header k \<noteq> [] then [''header''] else []) @
     (if ks_Query k \<noteq> [] then [''query''] else []) @
     (if ks_First k \<noteq> [] then [''first''] else []) @
     (if ks_Composite k \<noteq> [] then [''composite''] else [])"

definition at_index :: "string \<Rightarrow> string \<Rightarrow> nat \<Rightarrow> string" where
  "at_index where' kind i = where' @ ''.'' @ kind @ ''['' @ Itoa (int i) @ '']''"

definition validate_node :: "string \<Rightarrow> key_spec \<Rightarrow> string list" where
  "validate_node where' k =
     (case length (sources k) of
        0 \<Rightarrow> [where' @ '': one of body, header, query, first or composite is required'']
      | Suc 0 \<Rightarrow> []
      | _ \<Rightarrow> [where' @ '': '' @ Join (sources k) '', '' @ '' are all set, but exactly one key source is allowed'']) @
     fail_if (ks_Separator k \<noteq> [] \<and> ks_Composite k = []) (where' @ '': separator only applies to composite'') @
     (case parseNormaliser (ks_Normalise k) of Inl _ \<Rightarrow> [where' @ ''.normalise''] | Inr _ \<Rightarrow> [])"

fun validateKey :: "string \<Rightarrow> key_spec \<Rightarrow> string list"
  and validateKeys :: "string \<Rightarrow> string \<Rightarrow> nat \<Rightarrow> key_spec list \<Rightarrow> string list" where
  "validateKey where' (KeySpec b h q fs cs sep n hash) =
     validate_node where' (KeySpec b h q fs cs sep n hash) @
     validateKeys where' ''first'' 0 fs @ validateKeys where' ''composite'' 0 cs @
     fail_if (length cs = 1) (where' @ ''.composite: a single child is the same as using it directly'')"
| "validateKeys where' kind i [] = []"
| "validateKeys where' kind i (c # cs) =
     validateKey (at_index where' kind i) c @ validateKeys where' kind (i + 1) cs"

definition validateWindow :: "string \<Rightarrow> window_spec \<Rightarrow> string list" where
  "validateWindow where' w =
     fail_if (ws_Limit w < MinLimit \<or> ws_Limit w > MaxLimit) (where' @ ''.window.limit must be between 1 and 10000'') @
     fail_if (ws_Window w < MinWindow \<or> ws_Window w > MaxWindow) (where' @ ''.window.window must be between 1s and 1h0m0s'') @
     fail_if (ws_Block w < MinBlock \<or> ws_Block w > MaxBlock) (where' @ ''.window.block must be between 1s and 24h0m0s'')"

definition validateBucket :: "string \<Rightarrow> bucket_spec \<Rightarrow> string list" where
  "validateBucket where' b =
     fail_if (bsp_Rate b < MinRate \<or> bsp_Rate b > MaxRate) (where' @ ''.bucket.rate must be between 1 and 1000000'') @
     fail_if (bsp_Burst b < MinBurst \<or> bsp_Burst b > MaxBurst) (where' @ ''.bucket.burst must be between 1 and 1000000'')"

definition validateResponse :: "(string \<Rightarrow> goerror option) \<Rightarrow> string \<Rightarrow> response_spec \<Rightarrow> string list" where
  "validateResponse stat where' r =
     fail_if (rs_Status r \<noteq> 0 \<and> (rs_Status r < 400 \<or> rs_Status r > 599)) (where' @ ''.status must be a 4xx or 5xx code'') @
     fail_if (rs_Body r \<noteq> [] \<and> rs_BodyFile r \<noteq> []) (where' @ '': body and bodyFile are mutually exclusive'') @
     fail_if (rs_BodyFile r \<noteq> [] \<and> stat (rs_BodyFile r) \<noteq> None) (where' @ ''.bodyFile'')"

definition path_problem :: "string \<Rightarrow> string option" where
  "path_problem p =
     (if p = [] then Some '': must not be empty''
      else if \<not> HasPrefix p ''/'' then Some '': must start with /''
      else if CHR ''*'' \<in> set (TrimSuffix p ''/*'') then Some '': * is only valid as a trailing /*''
      else None)"

fun validatePaths :: "string \<Rightarrow> nat \<Rightarrow> string list \<Rightarrow> string list" where
  "validatePaths where' i [] = []"
| "validatePaths where' i (p # ps) =
     (case path_problem p of Some m \<Rightarrow> [at_index where' ''paths'' i @ m] | None \<Rightarrow> [])
     @ validatePaths where' (i + 1) ps"

text \<open>\<open>nameRe\<close> and \<open>methodRe\<close>, the two regular expressions.\<close>

definition name_start :: "char \<Rightarrow> bool" where "name_start c \<longleftrightarrow> is_lower c \<or> is_digit c"

definition nameRe :: "string \<Rightarrow> bool" where
  "nameRe s \<longleftrightarrow> s \<noteq> [] \<and> name_start (hd s) \<and> list_all (\<lambda>c. name_start c \<or> c = CHR ''_'' \<or> c = CHR ''-'') s"

definition methodRe :: "string \<Rightarrow> bool" where "methodRe s \<longleftrightarrow> s \<noteq> [] \<and> list_all token_byte s"

fun validateMethods :: "unicode \<Rightarrow> string \<Rightarrow> nat \<Rightarrow> string list \<Rightarrow> string list \<Rightarrow> string list" where
  "validateMethods U where' i seen [] = []"
| "validateMethods U where' i seen (m # ms) =
     (if m = [] then (at_index where' ''methods'' i @ '': must not be empty'') # validateMethods U where' (i + 1) seen ms
      else if \<not> methodRe m
      then (at_index where' ''methods'' i @ '': is not a valid HTTP method'') # validateMethods U where' (i + 1) seen ms
      else (let up = ToUpper U m
            in if up \<in> set seen
               then (at_index where' ''methods'' i @ '': duplicate method'') # validateMethods U where' (i + 1) seen ms
               else validateMethods U where' (i + 1) (up # seen) ms))"

definition limiter_where :: "nat \<Rightarrow> limiter_spec \<Rightarrow> string" where
  "limiter_where i l = ''limiters['' @ Itoa (int i) @ '']'' @
     (if ls_Name l \<noteq> [] then '' ('' @ ls_Name l @ '')'' else [])"

text \<open>The first switch: the name's problem, or the name joins the names seen.\<close>

definition validate_name :: "nat \<Rightarrow> limiter_spec \<Rightarrow> string list \<Rightarrow> string list \<times> string list" where
  "validate_name i l seen =
     (if ls_Name l = [] then ([limiter_where i l @ '': name is required''], seen)
      else if \<not> nameRe (ls_Name l) then ([limiter_where i l @ '': name must match''], seen)
      else if ls_Name l \<in> set seen then ([limiter_where i l @ '': duplicate name''], seen)
      else ([], ls_Name l # seen))"

definition validate_algorithm :: "string \<Rightarrow> limiter_spec \<Rightarrow> string list" where
  "validate_algorithm where' l =
     (case (ls_Window l, ls_Bucket l) of
        (None, None) \<Rightarrow> [where' @ '': one of window or bucket is required'']
      | (Some _, Some _) \<Rightarrow> [where' @ '': window and bucket are mutually exclusive'']
      | (Some w, None) \<Rightarrow> validateWindow where' w
      | (None, Some b) \<Rightarrow> validateBucket where' b)"

definition validateLimiter ::
  "unicode \<Rightarrow> (string \<Rightarrow> goerror option) \<Rightarrow> nat \<Rightarrow> limiter_spec \<Rightarrow> string list \<Rightarrow> string list \<times> string list" where
  "validateLimiter U stat i l seen =
     (let where' = limiter_where i l
      in case validate_name i l seen of (errs, seen') \<Rightarrow>
           (errs @ validate_algorithm where' l @
            (case ls_Key l of None \<Rightarrow> [where' @ '': key is required''] | Some k \<Rightarrow> validateKey (where' @ ''.key'') k) @
            validatePaths where' 0 (ls_Paths l) @ validateMethods U where' 0 [] (ls_Methods l) @
            (case ls_Response l of None \<Rightarrow> [] | Some r \<Rightarrow> validateResponse stat (where' @ ''.response'') r),
            seen'))"

fun validateLimiters ::
  "unicode \<Rightarrow> (string \<Rightarrow> goerror option) \<Rightarrow> nat \<Rightarrow> string list \<Rightarrow> limiter_spec list \<Rightarrow> string list" where
  "validateLimiters U stat i seen [] = []"
| "validateLimiters U stat i seen (l # ls) =
     (case validateLimiter U stat i l seen of (errs, seen') \<Rightarrow>
        errs @ validateLimiters U stat (i + 1) seen' ls)"

definition Validate :: "unicode \<Rightarrow> (string \<Rightarrow> goerror option) \<Rightarrow> limiter_file \<Rightarrow> string list" where
  "Validate U stat f =
     fail_if (f_Limiters f = []) ''limiters: at least one limiter is required'' @
     (case f_Response f of None \<Rightarrow> [] | Some r \<Rightarrow> validateResponse stat ''response'' r) @
     validateLimiters U stat 0 [] (f_Limiters f)"

subsection \<open>What validation establishes\<close>

text \<open>
  The rules of the configuration, stated on the file: a key tree, a response, the methods, a limiter
  and the whole file.
\<close>

fun key_ok :: "key_spec \<Rightarrow> bool" where
  "key_ok (KeySpec b hs q fs cs sep nrm hash) \<longleftrightarrow>
     length (sources (KeySpec b hs q fs cs sep nrm hash)) = 1 \<and> (cs = [] \<longrightarrow> sep = []) \<and>
     (\<exists>n. parseNormaliser nrm = Inr n) \<and> list_all key_ok fs \<and> list_all key_ok cs \<and> length cs \<noteq> 1"

definition response_ok :: "(string \<Rightarrow> goerror option) \<Rightarrow> response_spec option \<Rightarrow> bool" where
  "response_ok stat r = (case r of
     None \<Rightarrow> True
   | Some r \<Rightarrow> (rs_Status r = 0 \<or> 400 \<le> rs_Status r \<and> rs_Status r \<le> 599) \<and> (rs_Body r = [] \<or> rs_BodyFile r = []) \<and>
       (rs_BodyFile r \<noteq> [] \<longrightarrow> stat (rs_BodyFile r) = None))"

definition methods_ok :: "unicode \<Rightarrow> string list \<Rightarrow> bool" where
  "methods_ok U ms \<longleftrightarrow> list_all methodRe ms \<and> distinct (map (ToUpper U) ms)"

definition limiter_ok :: "(string \<Rightarrow> goerror option) \<Rightarrow> limiter_spec \<Rightarrow> bool" where
  "limiter_ok stat l \<longleftrightarrow> nameRe (ls_Name l) \<and> (\<exists>k. ls_Key l = Some k \<and> key_ok k) \<and>
     (case (ls_Window l, ls_Bucket l) of
        (Some w, None) \<Rightarrow> MinLimit \<le> ws_Limit w \<and> ws_Limit w \<le> MaxLimit \<and> MinWindow \<le> ws_Window w \<and>
          ws_Window w \<le> MaxWindow \<and> MinBlock \<le> ws_Block w \<and> ws_Block w \<le> MaxBlock
      | (None, Some b) \<Rightarrow> MinRate \<le> bsp_Rate b \<and> bsp_Rate b \<le> MaxRate \<and> MinBurst \<le> bsp_Burst b \<and> bsp_Burst b \<le> MaxBurst
      | _ \<Rightarrow> False) \<and>
     list_all (\<lambda>p. path_problem p = None) (ls_Paths l) \<and> response_ok stat (ls_Response l)"

definition file_ok :: "unicode \<Rightarrow> (string \<Rightarrow> goerror option) \<Rightarrow> limiter_file \<Rightarrow> bool" where
  "file_ok U stat f \<longleftrightarrow> f_Limiters f \<noteq> [] \<and> response_ok stat (f_Response f) \<and>
     list_all (limiter_ok stat) (f_Limiters f) \<and> list_all (\<lambda>l. methods_ok U (ls_Methods l)) (f_Limiters f) \<and>
     distinct (map ls_Name (f_Limiters f))"

lemma validate_node_Nil:
  "validate_node w k = [] \<longleftrightarrow> length (sources k) = 1 \<and> (ks_Composite k = [] \<longrightarrow> ks_Separator k = []) \<and>
     (\<exists>n. parseNormaliser (ks_Normalise k) = Inr n)"
  by (auto simp: validate_node_def split: nat.splits sum.splits)

lemma validateKey_iff:
  "validateKey w k = [] \<longleftrightarrow> key_ok k"
  "validateKeys w kind i ks = [] \<longleftrightarrow> list_all key_ok ks"
  by (induction w k and w kind i ks rule: validateKey_validateKeys.induct) (auto simp: validate_node_Nil)

lemma validatePaths_Nil: "validatePaths w i ps = [] \<longleftrightarrow> list_all (\<lambda>p. path_problem p = None) ps"
  by (induction w i ps rule: validatePaths.induct) (auto split: option.splits)

lemma validateMethods_Nil:
  "validateMethods U w i seen ms = [] \<longleftrightarrow> methods_ok U ms \<and> ToUpper U ` set ms \<inter> set seen = {}"
  by (induction U w i seen ms rule: validateMethods.induct) (auto simp: methods_ok_def methodRe_def Let_def)

lemma validate_name_Nil:
  "validate_name i l seen = ([], seen') \<longleftrightarrow> nameRe (ls_Name l) \<and> ls_Name l \<notin> set seen \<and> seen' = ls_Name l # seen"
  by (auto simp: validate_name_def nameRe_def)

lemma validate_algorithm_Nil:
  "validate_algorithm w l = [] \<longleftrightarrow>
     (case (ls_Window l, ls_Bucket l) of
        (Some w, None) \<Rightarrow> MinLimit \<le> ws_Limit w \<and> ws_Limit w \<le> MaxLimit \<and> MinWindow \<le> ws_Window w \<and>
          ws_Window w \<le> MaxWindow \<and> MinBlock \<le> ws_Block w \<and> ws_Block w \<le> MaxBlock
      | (None, Some b) \<Rightarrow> MinRate \<le> bsp_Rate b \<and> bsp_Rate b \<le> MaxRate \<and> MinBurst \<le> bsp_Burst b \<and> bsp_Burst b \<le> MaxBurst
      | _ \<Rightarrow> False)"
  by (auto simp: validate_algorithm_def validateWindow_def validateBucket_def not_less split: option.splits)

lemma validateResponse_Nil: "(case r of None \<Rightarrow> [] | Some r \<Rightarrow> validateResponse stat w r) = [] \<longleftrightarrow> response_ok stat r"
  by (auto simp: response_ok_def validateResponse_def split: option.splits)

lemma validateLimiter_iff:
  "validateLimiter U stat i l seen = ([], seen') \<longleftrightarrow>
     limiter_ok stat l \<and> methods_ok U (ls_Methods l) \<and> ls_Name l \<notin> set seen \<and> seen' = ls_Name l # seen"
proof -
  have key: "(case ls_Key l of None \<Rightarrow> [w] | Some k \<Rightarrow> validateKey v k) = [] \<longleftrightarrow> (\<exists>k. ls_Key l = Some k \<and> key_ok k)" for w v
    by (auto simp: validateKey_iff split: option.splits)
  have "validateLimiter U stat i l seen = ([], seen') \<longleftrightarrow>
      validate_name i l seen = ([], seen') \<and> validate_algorithm (limiter_where i l) l = [] \<and>
      (\<exists>k. ls_Key l = Some k \<and> key_ok k) \<and> list_all (\<lambda>p. path_problem p = None) (ls_Paths l) \<and>
      methods_ok U (ls_Methods l) \<and> response_ok stat (ls_Response l)"
    by (cases "validate_name i l seen")
      (auto simp: validateLimiter_def Let_def key validatePaths_Nil validateMethods_Nil validateResponse_Nil)
  then show ?thesis by (auto simp: validate_name_Nil validate_algorithm_Nil limiter_ok_def)
qed

lemma validateLimiters_iff:
  "validateLimiters U stat i seen ls = [] \<longleftrightarrow>
     list_all (limiter_ok stat) ls \<and> list_all (\<lambda>l. methods_ok U (ls_Methods l)) ls \<and>
     distinct (map ls_Name ls) \<and> ls_Name ` set ls \<inter> set seen = {}"
proof (induction U stat i seen ls rule: validateLimiters.induct)
  case (2 U stat i seen l ls)
  obtain errs seen' where v: "validateLimiter U stat i l seen = (errs, seen')" by (cases "validateLimiter U stat i l seen")
  note IH = 2 [OF v [symmetric]]
  show ?case
  proof (cases "errs = []")
    case True
    with v have "limiter_ok stat l \<and> methods_ok U (ls_Methods l) \<and> ls_Name l \<notin> set seen \<and> seen' = ls_Name l # seen"
      using validateLimiter_iff by blast
    moreover have "validateLimiters U stat i seen (l # ls) = validateLimiters U stat (i + 1) seen' ls"
      using v True by simp
    ultimately show ?thesis using IH by auto
  next
    case False
    have "\<not> (limiter_ok stat l \<and> methods_ok U (ls_Methods l) \<and> ls_Name l \<notin> set seen)"
    proof
      assume "limiter_ok stat l \<and> methods_ok U (ls_Methods l) \<and> ls_Name l \<notin> set seen"
      then have "validateLimiter U stat i l seen = ([], ls_Name l # seen)" by (simp add: validateLimiter_iff)
      with v False show False by simp
    qed
    with v False show ?thesis by auto
  qed
qed simp

lemma Validate_iff: "Validate U stat f = [] \<longleftrightarrow> file_ok U stat f"
  by (auto simp: Validate_def file_ok_def validateResponse_Nil validateLimiters_iff)

lemma Validate_ok:
  assumes "Validate U stat f = []"
  shows "list_all (limiter_ok stat) (f_Limiters f)" "distinct (map ls_Name (f_Limiters f))" "f_Limiters f \<noteq> []"
    "response_ok stat (f_Response f)"
  using assms by (simp_all add: Validate_iff file_ok_def)

lemma nameRe_separable: "nameRe n \<Longrightarrow> separable n"
  by (auto simp: nameRe_def list_all_iff name_start_def byte_defs)

lemma parseNormaliser_subnet:
  "parseNormaliser s = Inr (NormIPSubnet v4 v6) \<Longrightarrow> 0 \<le> v4 \<and> v4 \<le> 32 \<and> 0 \<le> v6 \<and> v6 \<le> 128"
  by (auto simp: parseNormaliser_def parse_subnet_def check_subnet_def Let_def
      split: prod.splits if_splits option.splits)

subsection \<open>Properties\<close>

text \<open>C25. Validation accepts exactly the files that keep the documented rules: at least one limiter, each
  with a distinct name, one algorithm within its bounds, a key tree with one source per node and
  known normalisers, sound paths, distinct methods, and only refusals as responses.\<close>

theorem validation_is_exact: "Validate U stat f = [] \<longleftrightarrow> file_ok U stat f"
  by (rule Validate_iff)

end
