(* ===== verification/Fake.thy ===== *)
theory Fake
  imports Store Float64
begin

text \<open>
  \<open>internal/store/storetest\<close>: the in-memory store, with its counting window, its block that
  outlives the window and its token bucket. Its world is its own memory beside the world of its
  clock. It is the reference the contracts of \<open>Store\<close> are discharged on.
\<close>

subsection \<open>State and operations\<close>

record bucketState =
  bs_tokens :: rat
  bs_ts :: time

record fake =
  fk_counts :: "string \<rightharpoonup> int"
  fk_expires :: "string \<rightharpoonup> time"
  fk_blocked :: "string \<rightharpoonup> time"
  fk_buckets :: "string \<rightharpoonup> bucketState"
  fk_Err :: "goerror option"
  fk_Calls :: int
  fk_Closed :: bool

definition Fake_New :: fake where
  "Fake_New = \<lparr>fk_counts = Map.empty, fk_expires = Map.empty, fk_blocked = Map.empty,
     fk_buckets = Map.empty, fk_Err = None, fk_Calls = 0, fk_Closed = False\<rparr>"

text \<open>The part of \<open>Consume\<close> that counts, reached when the key is not blocked.\<close>

definition fake_count :: "string \<Rightarrow> rule \<Rightarrow> time \<Rightarrow> fake \<Rightarrow> result \<times> fake" where
  "fake_count k r t f =
     (let f1 = (case fk_expires f k of
                  Some e \<Rightarrow> if t < e then f
                    else f\<lparr>fk_counts := (fk_counts f)(k \<mapsto> 0),
                           fk_expires := (fk_expires f)(k \<mapsto> t + rule_Window r)\<rparr>
                | None \<Rightarrow> f\<lparr>fk_counts := (fk_counts f)(k \<mapsto> 0),
                           fk_expires := (fk_expires f)(k \<mapsto> t + rule_Window r)\<rparr>);
          count = (case fk_counts f1 k of Some c \<Rightarrow> c | None \<Rightarrow> 0) + 1;
          f2 = f1\<lparr>fk_counts := (fk_counts f1)(k \<mapsto> count)\<rparr>
      in if count > rule_Limit r
         then (\<lparr>res_Blocked = True, res_Count = count, res_RetryAfter = rule_Block r\<rparr>,
               f2\<lparr>fk_blocked := (fk_blocked f2)(k \<mapsto> t + rule_Block r),
                  fk_counts := (fk_counts f2)(k := None),
                  fk_expires := (fk_expires f2)(k := None)\<rparr>)
         else (\<lparr>res_Blocked = False, res_Count = count, res_RetryAfter = 0\<rparr>, f2))"

definition fake_decide :: "string \<Rightarrow> rule \<Rightarrow> time \<Rightarrow> fake \<Rightarrow> result \<times> fake" where
  "fake_decide k r t f =
     (case fk_blocked f k of
        Some u \<Rightarrow>
          if t < u
          then (\<lparr>res_Blocked = True, res_Count = -1, res_RetryAfter = sat64 (u - t)\<rparr>, f)
          else fake_count k r t (f\<lparr>fk_blocked := (fk_blocked f)(k := None)\<rparr>)
      | None \<Rightarrow> fake_count k r t f)"

definition Fake_Consume :: "'w clock \<Rightarrow> key \<Rightarrow> rule \<Rightarrow> fake \<times> 'w \<Rightarrow> result ret \<times> fake \<times> 'w" where
  "Fake_Consume now key r = (\<lambda>(f0, w).
     (let f = f0\<lparr>fk_Calls := fk_Calls f0 + 1\<rparr>
      in case fk_Err f of
           Some e \<Rightarrow> (Ret zero_result (Some e), (f, w))
         | None \<Rightarrow>
             (case now w of (t, w') \<Rightarrow>
               (case fake_decide (Key_String key) r t f of (res, f') \<Rightarrow> (Ret res None, (f', w'))))))"

definition fake_refill :: "bucket \<Rightarrow> time \<Rightarrow> bucketState \<Rightarrow> bucketState" where
  "fake_refill b t s =
     (let elapsed = sat64 (t - bs_ts s);
          tokens = (if elapsed > 0
            then (let n = f64 (bs_tokens s + f64 (Seconds elapsed * float (tb_Rate b)))
                  in if n > float (tb_Burst b) then float (tb_Burst b) else n)
            else bs_tokens s)
      in \<lparr>bs_tokens = tokens, bs_ts = t\<rparr>)"

definition fake_take :: "string \<Rightarrow> bucket \<Rightarrow> time \<Rightarrow> fake \<Rightarrow> take_result \<times> fake" where
  "fake_take k b t f =
     (let s0 = (case fk_buckets f k of Some s \<Rightarrow> s | None \<Rightarrow> \<lparr>bs_tokens = float (tb_Burst b), bs_ts = t\<rparr>);
          s = fake_refill b t s0
      in if bs_tokens s \<ge> 1
         then (let n = f64 (bs_tokens s - 1)
               in (\<lparr>tr_Allowed = True, tr_Remaining = trunc n, tr_RetryAfter = 0\<rparr>,
                   f\<lparr>fk_buckets := (fk_buckets f)(k \<mapsto> s\<lparr>bs_tokens := n\<rparr>)\<rparr>))
         else (\<lparr>tr_Allowed = False, tr_Remaining = 0,
                 tr_RetryAfter = trunc (f64 (f64 (f64 (1 - bs_tokens s) / float (tb_Rate b)) * float Second))\<rparr>,
               f\<lparr>fk_buckets := (fk_buckets f)(k \<mapsto> s)\<rparr>))"

definition Fake_Take :: "'w clock \<Rightarrow> key \<Rightarrow> bucket \<Rightarrow> fake \<times> 'w \<Rightarrow> take_result ret \<times> fake \<times> 'w" where
  "Fake_Take now key b = (\<lambda>(f0, w).
     (let f = f0\<lparr>fk_Calls := fk_Calls f0 + 1\<rparr>
      in case fk_Err f of
           Some e \<Rightarrow> (Ret zero_take_result (Some e), (f, w))
         | None \<Rightarrow>
             (case now w of (t, w') \<Rightarrow>
               (case fake_take (Key_String key) b t f of (res, f') \<Rightarrow> (Ret res None, (f', w'))))))"

definition Fake_Close :: "fake \<times> 'w \<Rightarrow> goerror option \<times> fake \<times> 'w" where
  "Fake_Close = (\<lambda>(f, w). (None, (f\<lparr>fk_Closed := True\<rparr>, w)))"

definition Fake_CallCount :: "fake \<Rightarrow> int" where "Fake_CallCount f = fk_Calls f"

definition Fake :: "'w clock \<Rightarrow> (fake \<times> 'w) store" where
  "Fake now = \<lparr>st_Consume = Fake_Consume now, st_Take = Fake_Take now, st_Close = Fake_Close\<rparr>"

subsection \<open>The counting window\<close>

text \<open>The count a window shows at an instant: zero once the window is over or absent.\<close>

definition fake_live_count :: "string \<Rightarrow> time \<Rightarrow> fake \<Rightarrow> int" where
  "fake_live_count k t f = (case fk_expires f k of
     Some e \<Rightarrow> if t < e then (case fk_counts f k of Some c \<Rightarrow> c | None \<Rightarrow> 0) else 0
   | None \<Rightarrow> 0)"

definition fake_is_blocked :: "string \<Rightarrow> time \<Rightarrow> fake \<Rightarrow> bool" where
  "fake_is_blocked k t f = (case fk_blocked f k of Some u \<Rightarrow> t < u | None \<Rightarrow> False)"

lemma fake_count_result:
  "fst (fake_count k r t f) =
     (let c = fake_live_count k t f + 1
      in if c > rule_Limit r
         then \<lparr>res_Blocked = True, res_Count = c, res_RetryAfter = rule_Block r\<rparr>
         else \<lparr>res_Blocked = False, res_Count = c, res_RetryAfter = 0\<rparr>)"
  by (auto simp: fake_count_def fake_live_count_def Let_def split: option.splits)

lemma fake_decide_blocked:
  "fake_is_blocked k t f \<Longrightarrow> fake_decide k r t f =
     (\<lparr>res_Blocked = True, res_Count = -1, res_RetryAfter = sat64 (the (fk_blocked f k) - t)\<rparr>, f)"
  by (auto simp: fake_is_blocked_def fake_decide_def split: option.splits if_splits)

lemma fake_decide_unblocked:
  assumes "\<not> fake_is_blocked k t f"
  shows "fake_decide k r t f = fake_count k r t (f\<lparr>fk_blocked := (fk_blocked f)(k := None)\<rparr>)"
proof (cases "fk_blocked f k")
  case None
  then have "f\<lparr>fk_blocked := (fk_blocked f)(k := None)\<rparr> = f" by (simp add: fun_upd_idem)
  with None show ?thesis by (simp add: fake_decide_def)
next
  case (Some u)
  with assms show ?thesis by (simp add: fake_decide_def fake_is_blocked_def)
qed

lemma fake_live_count_unblock [simp]:
  "fake_live_count k t (f\<lparr>fk_blocked := m\<rparr>) = fake_live_count k t f"
  "fake_live_count k t (f\<lparr>fk_Calls := c\<rparr>) = fake_live_count k t f"
  by (simp_all add: fake_live_count_def split: option.split)

lemma fake_decide_Blocked_iff:
  "res_Blocked (fst (fake_decide k r t f)) \<longleftrightarrow>
     fake_is_blocked k t f \<or> rule_Limit r < fake_live_count k t f + 1"
  by (cases "fake_is_blocked k t f")
    (auto simp: fake_decide_blocked fake_decide_unblocked fake_count_result Let_def)

text \<open>Only the key asked about changes.\<close>

definition fake_agree :: "string \<Rightarrow> fake \<Rightarrow> fake \<Rightarrow> bool" where
  "fake_agree k f g \<longleftrightarrow> fk_counts f k = fk_counts g k \<and> fk_expires f k = fk_expires g k \<and>
     fk_blocked f k = fk_blocked g k \<and> fk_buckets f k = fk_buckets g k"

lemma fake_agree_refl [simp]: "fake_agree k f f"
  by (simp add: fake_agree_def)

lemma fake_count_frame [store_frame]: "k' \<noteq> k \<Longrightarrow> fake_agree k' (snd (fake_count k r t f)) f"
  by (auto simp: fake_count_def fake_agree_def Let_def split: option.splits)

lemma fake_decide_frame [store_frame]:
  assumes "k' \<noteq> k" shows "fake_agree k' (snd (fake_decide k r t f)) f"
proof (cases "fake_is_blocked k t f")
  case False
  then show ?thesis
    using fake_count_frame [OF assms, of r t "f\<lparr>fk_blocked := (fk_blocked f)(k := None)\<rparr>"] assms
    by (auto simp: fake_decide_unblocked fake_agree_def)
qed (simp add: fake_decide_blocked)

lemma fake_take_frame [store_frame]: "k' \<noteq> k \<Longrightarrow> fake_agree k' (snd (fake_take k b t f)) f"
  by (auto simp: fake_take_def fake_agree_def Let_def)

lemma fake_decide_local:
  assumes "fake_agree k f g"
  shows "fst (fake_decide k r t f) = fst (fake_decide k r t g) \<and>
     fake_agree k (snd (fake_decide k r t f)) (snd (fake_decide k r t g))"
  using assms
  by (cases "fk_blocked g k"; cases "fk_expires g k"; cases "fk_counts g k")
    (auto simp: fake_decide_def fake_count_def fake_agree_def Let_def)

lemma fake_take_local:
  "fake_agree k f g \<Longrightarrow> fst (fake_take k b t f) = fst (fake_take k b t g) \<and>
     fake_agree k (snd (fake_take k b t f)) (snd (fake_take k b t g))"
  by (cases "fk_buckets g k") (auto simp: fake_take_def fake_agree_def Let_def)

subsection \<open>The fake store keeps the contracts\<close>

definition fake_held :: "fake \<times> 'w \<Rightarrow> key \<Rightarrow> time \<Rightarrow> bool" where
  "fake_held = (\<lambda>(f, w) k u. case fk_blocked f (Key_String k) of Some v \<Rightarrow> u \<le> v | None \<Rightarrow> False)"

lemma fake_held_world: "fake_held (f, w) k u \<Longrightarrow> fake_held (f, w') k u"
  by (simp add: fake_held_def)

lemma fake_held_antimono: "fake_held x k u \<Longrightarrow> u' \<le> u \<Longrightarrow> fake_held x k u'"
  by (auto simp: fake_held_def split: option.splits prod.splits)

lemma fake_count_blocked:
  "fk_blocked (snd (fake_count k r t f)) =
     (if rule_Limit r < fake_live_count k t f + 1 then (fk_blocked f)(k \<mapsto> t + rule_Block r)
      else fk_blocked f)"
  by (auto simp: fake_count_def fake_live_count_def Let_def split: option.splits)

lemma fake_decide_keeps_block:
  "fk_blocked f k' = Some u \<Longrightarrow> t < u \<Longrightarrow> fk_blocked (snd (fake_decide k r t f)) k' = Some u"
  by (cases "fake_is_blocked k t f")
    (auto simp: fake_decide_blocked fake_decide_unblocked fake_count_blocked fake_is_blocked_def)

lemma fake_decide_reports:
  assumes "res_Blocked (fst (fake_decide k r t f))"
  shows "\<exists>v. fk_blocked (snd (fake_decide k r t f)) k = Some v \<and>
     t + res_RetryAfter (fst (fake_decide k r t f)) \<le> v"
proof (cases "fake_is_blocked k t f")
  case True
  then obtain u where "fk_blocked f k = Some u" "t < u"
    by (auto simp: fake_is_blocked_def split: option.splits)
  with True sat64_le [of "u - t"] show ?thesis by (auto simp: fake_decide_blocked)
next
  case False
  with assms show ?thesis
    by (simp add: fake_decide_unblocked fake_count_blocked fake_count_result Let_def split: if_splits)
qed

lemma fake_take_blocked [simp]: "fk_blocked (snd (fake_take k b t f)) = fk_blocked f"
  by (simp add: fake_take_def Let_def)

lemma Fake_Consume_cases:
  assumes "Fake_Consume now key r (f, w) = (x, fw)"
  obtains (err) e where "fk_Err f = Some e" "x = Ret zero_result (Some e)"
      "fw = (f\<lparr>fk_Calls := fk_Calls f + 1\<rparr>, w)"
  | (ok) t w' where "fk_Err f = None" "now w = (t, w')"
      "x = Ret (fst (fake_decide (Key_String key) r t (f\<lparr>fk_Calls := fk_Calls f + 1\<rparr>))) None"
      "fw = (snd (fake_decide (Key_String key) r t (f\<lparr>fk_Calls := fk_Calls f + 1\<rparr>)), w')"
  using assms by (auto simp: Fake_Consume_def Let_def split: option.splits prod.splits)

lemma Fake_Take_cases:
  assumes "Fake_Take now key b (f, w) = (x, fw)"
  obtains (err) e where "fk_Err f = Some e" "x = Ret zero_take_result (Some e)"
      "fw = (f\<lparr>fk_Calls := fk_Calls f + 1\<rparr>, w)"
  | (ok) t w' where "fk_Err f = None" "now w = (t, w')"
      "x = Ret (fst (fake_take (Key_String key) b t (f\<lparr>fk_Calls := fk_Calls f + 1\<rparr>))) None"
      "fw = (snd (fake_take (Key_String key) b t (f\<lparr>fk_Calls := fk_Calls f + 1\<rparr>)), w')"
  using assms by (auto simp: Fake_Take_def Let_def split: option.splits prod.splits)

text \<open>Every operation is counted once, and the two fields a test sets stay as they were set.\<close>

lemma fake_decide_calls [simp]:
  "fk_Calls (snd (fake_decide k r t f)) = fk_Calls f" "fk_Err (snd (fake_decide k r t f)) = fk_Err f"
  by (auto simp: fake_decide_def fake_count_def Let_def split: option.splits)

lemma fake_take_calls [simp]:
  "fk_Calls (snd (fake_take k b t f)) = fk_Calls f" "fk_Err (snd (fake_take k b t f)) = fk_Err f"
  by (simp_all add: fake_take_def Let_def)

lemma Fake_Consume_calls:
  "Fake_Consume now k r (f, w) = (x, f', w') \<Longrightarrow> fk_Calls f' = fk_Calls f + 1 \<and> fk_Err f' = fk_Err f"
  by (erule Fake_Consume_cases) auto

lemma Fake_Take_calls:
  "Fake_Take now k b (f, w) = (x, f', w') \<Longrightarrow> fk_Calls f' = fk_Calls f + 1 \<and> fk_Err f' = fk_Err f"
  by (erule Fake_Take_cases) auto

locale fake_store = clk: passing_clock now time_of wait
  for now :: "'w clock" and time_of :: "'w \<Rightarrow> time" and wait :: "nat \<Rightarrow> 'w \<Rightarrow> 'w"
begin

lemma fake_consume_time:
  "Fake_Consume now k r (f, w) = (x, f', w') \<Longrightarrow> time_of w \<le> time_of w'"
  by (erule Fake_Consume_cases) (auto dest: clk.now_mono)

lemma fake_take_time:
  "Fake_Take now k b (f, w) = (x, f', w') \<Longrightarrow> time_of w \<le> time_of w'"
  by (erule Fake_Take_cases) (auto dest: clk.now_mono)

lemma fake_consume_keeps:
  assumes "Fake_Consume now k r (f, w) = (x, f', w')" "fake_held (f, w) k' u"
  shows "fake_held (f', w') k' u \<or> u \<le> time_of w'"
  using assms(1)
proof (cases rule: Fake_Consume_cases)
  case err
  with assms(2) show ?thesis by (simp add: fake_held_def)
next
  case (ok t w'')
  from assms(2) obtain v where v: "fk_blocked f (Key_String k') = Some v" "u \<le> v"
    by (auto simp: fake_held_def split: option.splits)
  show ?thesis
  proof (cases "t < v")
    case True
    with v fake_decide_keeps_block [of "f\<lparr>fk_Calls := fk_Calls f + 1\<rparr>" "Key_String k'" v t] ok
    show ?thesis by (auto simp: fake_held_def)
  next
    case False
    with ok v clk.now_time [OF ok(2)] show ?thesis by auto
  qed
qed

lemma fake_take_keeps:
  "Fake_Take now k b (f, w) = (y, f', w') \<Longrightarrow> fake_held (f, w) k' u \<Longrightarrow> fake_held (f', w') k' u"
  by (erule Fake_Take_cases) (auto simp: fake_held_def)

lemma fake_consume_reports:
  assumes "Fake_Consume now k r (f, w) = (Ret res None, f', w')" "res_Blocked res"
  shows "fake_held (f', w') k (time_of w' + res_RetryAfter res)"
  using assms(1)
proof (cases rule: Fake_Consume_cases)
  case (ok t w'')
  with clk.now_time [OF ok(2)] assms(2)
    fake_decide_reports [of "Key_String k" r t "f\<lparr>fk_Calls := fk_Calls f + 1\<rparr>"]
  show ?thesis by (auto simp: fake_held_def)
qed simp

lemma fake_consume_refuses:
  assumes "Fake_Consume now k r (f, w) = (Ret res None, f', w')" "fake_held (f, w) k u" "time_of w' < u"
  shows "res_Blocked res"
  using assms(1)
proof (cases rule: Fake_Consume_cases)
  case (ok t w'')
  have "fake_is_blocked (Key_String k) t (f\<lparr>fk_Calls := fk_Calls f + 1\<rparr>)"
    using assms(2,3) ok clk.now_time [OF ok(2)]
    by (auto simp: fake_held_def fake_is_blocked_def split: option.splits)
  with ok show ?thesis by (simp add: fake_decide_Blocked_iff)
qed simp

end

sublocale fake_store \<subseteq> fake: blocking_store "lift_clock now" "\<lambda>x. time_of (snd x)" "Fake now" "lift_wait wait"
  "\<lambda>_. True" fake_held 0
proof -
  have clock: "monotone_clock (lift_clock now) (\<lambda>x :: fake \<times> 'w. time_of (snd x))"
    by (rule lift_clock_monotone) (rule clk.monotone_clock_axioms)
  show "blocking_store (lift_clock now) (\<lambda>x. time_of (snd x)) (Fake now) (lift_wait wait) (\<lambda>_. True) fake_held 0"
    by (intro blocking_store.intro timed_store.intro clock; unfold_locales)
      (auto simp: Fake_def lift_clock_eq clk.wait_time
        dest: fake_held_world fake_held_antimono fake_consume_time fake_take_time fake_consume_keeps fake_take_keeps
          fake_consume_refuses fake_consume_reports)
qed

interpretation fake_now: fake_store Now fst Waiting ..

interpretation fake_prompt: fake_store "Prompt lag" fst Waiting for lag ..

text \<open>
  The fake store separates limiters. Its clock is stopped here, as the tests that advance it by
  hand do: a world is the memory and the present instant.
\<close>

definition fake_view :: "fake \<times> time \<Rightarrow> string \<Rightarrow>
    (string \<Rightarrow> int option \<times> time option \<times> time option \<times> bucketState option) \<times> goerror option \<times> time" where
  "fake_view = (\<lambda>(f, t) n.
     ((\<lambda>b. let k = n @ '':'' @ b in (fk_counts f k, fk_expires f k, fk_blocked f k, fk_buckets f k)),
      fk_Err f, t))"

lemma fake_view_eq:
  "fake_view (f, t) n = fake_view (g, u) n \<longleftrightarrow>
     (\<forall>b. fake_agree (n @ '':'' @ b) f g) \<and> fk_Err f = fk_Err g \<and> t = u"
  by (auto simp: fake_view_def fake_agree_def fun_eq_iff Let_def)

lemma fake_decide_Err [simp]: "fk_Err (snd (fake_decide k r t f)) = fk_Err f"
  by (auto simp: fake_decide_def fake_count_def Let_def split: option.splits)

lemma fake_take_Err [simp]: "fk_Err (snd (fake_take k b t f)) = fk_Err f"
  by (simp add: fake_take_def Let_def)

lemma fake_agree_Calls [simp]:
  "fake_agree k (f\<lparr>fk_Calls := c\<rparr>) g \<longleftrightarrow> fake_agree k f g"
  "fake_agree k g (f\<lparr>fk_Calls := c\<rparr>) \<longleftrightarrow> fake_agree k g f"
  by (simp_all add: fake_agree_def)

lemma fake_agree_trans: "fake_agree k f g \<Longrightarrow> fake_agree k g h \<Longrightarrow> fake_agree k f h"
  by (simp add: fake_agree_def)

lemma Fake_Consume_stopped:
  "Fake_Consume stopped key r (f, t) =
     (case fk_Err f of
        Some e \<Rightarrow> (Ret zero_result (Some e), (f\<lparr>fk_Calls := fk_Calls f + 1\<rparr>, t))
      | None \<Rightarrow> (Ret (fst (fake_decide (Key_String key) r t (f\<lparr>fk_Calls := fk_Calls f + 1\<rparr>))) None,
                (snd (fake_decide (Key_String key) r t (f\<lparr>fk_Calls := fk_Calls f + 1\<rparr>)), t)))"
  by (simp add: Fake_Consume_def stopped_def Let_def split: option.splits prod.splits)

lemma Fake_Take_stopped:
  "Fake_Take stopped key b (f, t) =
     (case fk_Err f of
        Some e \<Rightarrow> (Ret zero_take_result (Some e), (f\<lparr>fk_Calls := fk_Calls f + 1\<rparr>, t))
      | None \<Rightarrow> (Ret (fst (fake_take (Key_String key) b t (f\<lparr>fk_Calls := fk_Calls f + 1\<rparr>))) None,
                (snd (fake_take (Key_String key) b t (f\<lparr>fk_Calls := fk_Calls f + 1\<rparr>)), t)))"
  by (simp add: Fake_Take_def stopped_def Let_def split: option.splits prod.splits)

text \<open>An operation on one key changes no other; on its own key it depends on that key alone.\<close>

lemma fake_agree_other:
  assumes "fake_agree k f g" "\<And>k'. k' \<noteq> k0 \<Longrightarrow> fake_agree k' f' f" "\<And>k'. k' \<noteq> k0 \<Longrightarrow> fake_agree k' g' g"
    and "k = k0 \<Longrightarrow> fake_agree k f' g'"
  shows "fake_agree k f' g'"
  using assms by (cases "k = k0") (auto simp: fake_agree_def)

lemma fake_decide_agree:
  "fake_agree k0 f g \<Longrightarrow> fake_agree k f g \<Longrightarrow>
     fake_agree k (snd (fake_decide k0 r t f)) (snd (fake_decide k0 r t g))"
  by (erule fake_agree_other [where ?k0.0 = k0]) (auto simp: fake_decide_frame fake_decide_local)

lemma fake_take_agree:
  "fake_agree k0 f g \<Longrightarrow> fake_agree k f g \<Longrightarrow>
     fake_agree k (snd (fake_take k0 b t f)) (snd (fake_take k0 b t g))"
  by (erule fake_agree_other [where ?k0.0 = k0]) (auto simp: fake_take_frame fake_take_local)

lemma Key_String_other:
  assumes "separable n" "separable (key_Limiter k)" "n \<noteq> key_Limiter k"
  shows "n @ '':'' @ b \<noteq> Key_String k"
  using assms by (simp add: Key_String_def append_sep_inject)

interpretation fake_keyed: keyed_store "Fake stopped" fake_view separable
proof
  fix k :: key and w v :: "fake \<times> time" and r :: rule and b :: bucket
  assume sep: "separable (key_Limiter k)"
    and eq: "fake_view w (key_Limiter k) = fake_view v (key_Limiter k)"
  obtain f g t u where [simp]: "w = (f, t)" "v = (g, u)" by (cases w, cases v)
  from eq have agree: "\<And>b. fake_agree (key_Limiter k @ '':'' @ b) f g"
    and [simp]: "fk_Err f = fk_Err g" "t = u" by (simp_all add: fake_view_eq)
  from agree have own: "fake_agree (Key_String k) f g" by (simp add: Key_String_def)
  let ?f = "f\<lparr>fk_Calls := fk_Calls f + 1\<rparr>" and ?g = "g\<lparr>fk_Calls := fk_Calls g + 1\<rparr>"
  show "fst (st_Consume (Fake stopped) k r w) = fst (st_Consume (Fake stopped) k r v) \<and>
    fake_view (snd (st_Consume (Fake stopped) k r w)) (key_Limiter k)
      = fake_view (snd (st_Consume (Fake stopped) k r v)) (key_Limiter k)"
    using fake_decide_local [of "Key_String k" ?f ?g r u] fake_decide_agree [of "Key_String k" ?f ?g _ r u] own agree
    by (auto simp: Fake_def Fake_Consume_stopped fake_view_eq split: option.splits)
  show "fst (st_Take (Fake stopped) k b w) = fst (st_Take (Fake stopped) k b v) \<and>
    fake_view (snd (st_Take (Fake stopped) k b w)) (key_Limiter k)
      = fake_view (snd (st_Take (Fake stopped) k b v)) (key_Limiter k)"
    using fake_take_local [of "Key_String k" ?f ?g b u] fake_take_agree [of "Key_String k" ?f ?g _ b u] own agree
    by (auto simp: Fake_def Fake_Take_stopped fake_view_eq split: option.splits)
next
  fix n and k :: key and w :: "fake \<times> time" and r :: rule and b :: bucket
  assume n: "separable n" "separable (key_Limiter k)" "n \<noteq> key_Limiter k"
  obtain f t where [simp]: "w = (f, t)" by (cases w)
  note other = Key_String_other [OF n]
  show "fake_view (snd (st_Consume (Fake stopped) k r w)) n = fake_view w n"
    using fake_decide_frame [OF other, where r = r and t = t and f = "f\<lparr>fk_Calls := fk_Calls f + 1\<rparr>"]
    by (auto simp: Fake_def Fake_Consume_stopped fake_view_eq split: option.splits)
  show "fake_view (snd (st_Take (Fake stopped) k b w)) n = fake_view w n"
    using fake_take_frame [OF other, where b = b and t = t and f = "f\<lparr>fk_Calls := fk_Calls f + 1\<rparr>"]
    by (auto simp: Fake_def Fake_Take_stopped fake_view_eq split: option.splits)
qed

end
