(* ===== verification/Engine.thy ===== *)
theory Engine
  imports Limiter Fake
begin

text \<open>
  \<open>internal/limiter/engine.go\<close>: the engine runs the limiters of a request in order against a
  store. Its effects are on the request (whose caches the keyers fill), on the store's world and
  on the log; the three travel together in \<open>run\<close>. Panics of keyers and of the store are values,
  and the two recoveries of the source are the branches that handle them.
\<close>

subsection \<open>Operations\<close>

datatype log_event =
  KeyerPanicked string string
| StoreFailed string string goerror

record 'w run =
  run_req :: request
  run_world :: 'w
  run_log :: "log_event list"

definition truncate_bucket :: "string \<Rightarrow> string" where
  "truncate_bucket s = (if length s \<le> 12 then s else take 12 s @ ''...'')"

definition bucket :: "limiter \<Rightarrow> 'w run \<Rightarrow> string option \<times> 'w run" where
  "bucket l x =
     (case lim_Keyer l (run_req x) of
        (KeyRet b, r') \<Rightarrow> (b, x\<lparr>run_req := r'\<rparr>)
      | (KeyPanic m, r') \<Rightarrow>
          (None, x\<lparr>run_req := r', run_log := run_log x @ [KeyerPanicked (lim_Name l) m]\<rparr>))"

record outcome =
  out_blocked :: bool
  out_count :: int
  out_retryAfter :: duration

definition apply_limiter :: "'w store \<Rightarrow> limiter \<Rightarrow> string \<Rightarrow> 'w \<Rightarrow> (goerror + outcome) \<times> 'w" where
  "apply_limiter S l b w =
     (let key = \<lparr>key_Limiter = lim_Name l, key_Bucket = b\<rparr>
      in if Bucket_Valid (lim_Bucket l)
         then (case st_Take S key (lim_Bucket l) w of
                 (Panic m, w') \<Rightarrow> (Inl (Errorf (''store panicked: '' @ m)), w')
               | (Ret res (Some e), w') \<Rightarrow> (Inl e, w')
               | (Ret res None, w') \<Rightarrow>
                   (Inr \<lparr>out_blocked = \<not> tr_Allowed res, out_count = tr_Remaining res,
                         out_retryAfter = tr_RetryAfter res\<rparr>, w'))
         else (case st_Consume S key (lim_Rule l) w of
                 (Panic m, w') \<Rightarrow> (Inl (Errorf (''store panicked: '' @ m)), w')
               | (Ret res (Some e), w') \<Rightarrow> (Inl e, w')
               | (Ret res None, w') \<Rightarrow>
                   (Inr \<lparr>out_blocked = res_Blocked res, out_count = res_Count res,
                         out_retryAfter = res_RetryAfter res\<rparr>, w')))"

definition add_evaluation :: "limiter \<Rightarrow> verdict \<Rightarrow> decision \<Rightarrow> decision" where
  "add_evaluation l v d = d\<lparr>d_Evaluations := d_Evaluations d @ [\<lparr>ev_Limiter = lim_Name l, ev_Verdict = v\<rparr>]\<rparr>"

text \<open>The dry-run branch and the enforcing branch of the switch.\<close>

definition would_block :: "limiter \<Rightarrow> outcome \<Rightarrow> decision \<Rightarrow> decision" where
  "would_block l res d0 =
     (let d = add_evaluation l VerdictWouldBlock d0
      in if \<not> d_Blocked d
         then d\<lparr>d_Blocked := True, d_DryRun := True, d_Limiter := lim_Name l, d_Count := out_count res,
                d_RetryAfter := out_retryAfter res\<rparr>
         else d)"

definition block :: "limiter \<Rightarrow> outcome \<Rightarrow> decision \<Rightarrow> decision" where
  "block l res d =
     add_evaluation l VerdictBlocked
       (d\<lparr>d_Blocked := True, d_DryRun := False, d_Limiter := lim_Name l, d_Count := out_count res,
          d_RetryAfter := out_retryAfter res, d_AdviseRetryAfter := lim_AdviseRetryAfter l\<rparr>)"

fun evaluate_loop :: "unicode \<Rightarrow> 'w store \<Rightarrow> limiter list \<Rightarrow> decision \<Rightarrow> 'w run \<Rightarrow> decision \<times> 'w run" where
  "evaluate_loop U S [] d x = (d, x)"
| "evaluate_loop U S (l # ls) d x =
     (if \<not> Applies U l (rq_Path (run_req x)) (rq_Method (run_req x)) \<or> \<not> Active l
      then evaluate_loop U S ls d x
      else
        (case bucket l x of
           (None, x') \<Rightarrow> evaluate_loop U S ls d x'
         | (Some b, x') \<Rightarrow>
             (case apply_limiter S l b (run_world x') of
                (Inl e, w') \<Rightarrow>
                  evaluate_loop U S ls (add_evaluation l VerdictFailedOpen d)
                    (x'\<lparr>run_world := w', run_log := run_log x' @ [StoreFailed (lim_Name l) (truncate_bucket b) e]\<rparr>)
              | (Inr res, w') \<Rightarrow>
                  if out_blocked res \<and> lim_DryRun l
                  then evaluate_loop U S ls (would_block l res d) (x'\<lparr>run_world := w'\<rparr>)
                  else if out_blocked res then (block l res d, x'\<lparr>run_world := w'\<rparr>)
                  else evaluate_loop U S ls (add_evaluation l VerdictAllowed d) (x'\<lparr>run_world := w'\<rparr>))))"

record 'w engine =
  eng_limiters :: "limiter list"
  eng_store :: "'w store"

definition NewEngine :: "'w store \<Rightarrow> limiter list \<Rightarrow> 'w engine" where
  "NewEngine S ls = \<lparr>eng_limiters = ls, eng_store = S\<rparr>"

definition Limiters :: "'w engine \<Rightarrow> limiter list" where "Limiters e = eng_limiters e"

definition Evaluate :: "unicode \<Rightarrow> 'w engine \<Rightarrow> 'w run \<Rightarrow> decision \<times> 'w run" where
  "Evaluate U e x = evaluate_loop U (eng_store e) (eng_limiters e) zero_decision x"

subsection \<open>One iteration\<close>

text \<open>
  What one turn of the loop does to the decision: nothing (\<open>Skips\<close>), or a verdict. The loop is
  the fold of \<open>turn\<close> that stops at an enforced block; the proofs below go through it.
\<close>

datatype step = Skips | Opens | Allows | Projects outcome | Blocks outcome

definition turn :: "unicode \<Rightarrow> 'w store \<Rightarrow> limiter \<Rightarrow> 'w run \<Rightarrow> step \<times> 'w run" where
  "turn U S l x =
     (if \<not> Applies U l (rq_Path (run_req x)) (rq_Method (run_req x)) \<or> \<not> Active l then (Skips, x)
      else (case bucket l x of
              (None, x') \<Rightarrow> (Skips, x')
            | (Some b, x') \<Rightarrow>
                (case apply_limiter S l b (run_world x') of
                   (Inl e, w') \<Rightarrow>
                     (Opens, x'\<lparr>run_world := w', run_log := run_log x' @ [StoreFailed (lim_Name l) (truncate_bucket b) e]\<rparr>)
                 | (Inr res, w') \<Rightarrow>
                     (if \<not> out_blocked res then Allows else if lim_DryRun l then Projects res else Blocks res,
                      x'\<lparr>run_world := w'\<rparr>))))"

fun after :: "limiter \<Rightarrow> step \<Rightarrow> decision \<Rightarrow> decision" where
  "after l Skips d = d"
| "after l Opens d = add_evaluation l VerdictFailedOpen d"
| "after l Allows d = add_evaluation l VerdictAllowed d"
| "after l (Projects res) d = would_block l res d"
| "after l (Blocks res) d = block l res d"

fun is_block :: "step \<Rightarrow> bool" where
  "is_block (Blocks res) = True"
| "is_block _ = False"

lemma evaluate_loop_turn:
  "evaluate_loop U S (l # ls) d x =
     (case turn U S l x of (s, x') \<Rightarrow>
        if is_block s then (after l s d, x') else evaluate_loop U S ls (after l s d) x')"
  by (auto simp: turn_def split: prod.splits option.splits sum.splits)

lemma evaluate_loop_induct [consumes 1, case_names finished blocked continued]:
  assumes "evaluate_loop U S ls d x = (d', x')"
    and "\<And>d x. P [] d x d x"
    and "\<And>l ls d x x' res. turn U S l x = (Blocks res, x') \<Longrightarrow> P (l # ls) d x (block l res d) x'"
    and "\<And>l ls d x s x1 d' x'. turn U S l x = (s, x1) \<Longrightarrow> \<not> is_block s \<Longrightarrow>
           evaluate_loop U S ls (after l s d) x1 = (d', x') \<Longrightarrow> P ls (after l s d) x1 d' x' \<Longrightarrow>
           P (l # ls) d x d' x'"
  shows "P ls d x d' x'"
  using assms(1)
proof (induction ls arbitrary: d x)
  case Nil
  then show ?case using assms(2) by simp
next
  case (Cons l ls)
  obtain s x1 where t: "turn U S l x = (s, x1)" by (cases "turn U S l x")
  show ?case
  proof (cases "is_block s")
    case True
    then obtain res where "s = Blocks res" by (cases s) auto
    with t Cons.prems show ?thesis using assms(3) by (auto simp: evaluate_loop_turn simp del: evaluate_loop.simps)
  next
    case False
    with t Cons.prems have "evaluate_loop U S ls (after l s d) x1 = (d', x')"
      by (simp add: evaluate_loop_turn del: evaluate_loop.simps)
    with t False Cons.IH show ?thesis using assms(4) by blast
  qed
qed

lemmas decision_defs = add_evaluation_def would_block_def block_def

subsection \<open>The shape of a decision\<close>

abbreviation verdicts :: "decision \<Rightarrow> verdict list" where "verdicts d \<equiv> map ev_Verdict (d_Evaluations d)"

text \<open>
  Before an enforced block, the decision projects: it is blocked exactly when some dry-run limiter
  would block, and then names the first of them. After one, the block is the last evaluation and
  what the decision reports.
\<close>

definition projecting :: "decision \<Rightarrow> bool" where
  "projecting d \<longleftrightarrow>
     VerdictBlocked \<notin> set (verdicts d) \<and> d_DryRun d = d_Blocked d \<and> \<not> d_AdviseRetryAfter d \<and>
     (case find (\<lambda>e. ev_Verdict e = VerdictWouldBlock) (d_Evaluations d) of
        Some e \<Rightarrow> d_Blocked d \<and> d_Limiter d = ev_Limiter e
      | None \<Rightarrow> \<not> d_Blocked d \<and> d_Limiter d = [] \<and> d_Count d = 0 \<and> d_RetryAfter d = 0)"

definition enforced :: "decision \<Rightarrow> bool" where
  "enforced d \<longleftrightarrow>
     d_Blocked d \<and> \<not> d_DryRun d \<and> d_Evaluations d \<noteq> [] \<and>
     last (d_Evaluations d) = \<lparr>ev_Limiter = d_Limiter d, ev_Verdict = VerdictBlocked\<rparr> \<and>
     VerdictBlocked \<notin> set (map ev_Verdict (butlast (d_Evaluations d)))"

lemma projecting_zero: "projecting zero_decision"
  by (simp add: projecting_def zero_decision_def)

lemma find_snoc: "find P (xs @ [x]) = (case find P xs of Some y \<Rightarrow> Some y | None \<Rightarrow> if P x then Some x else None)"
  by (induction xs) auto

lemma projecting_after:
  assumes "projecting d" "\<not> is_block s"
  shows "projecting (after l s d)"
proof (cases s)
  case (Projects res)
  then show ?thesis using assms(1)
    by (auto simp: projecting_def decision_defs Let_def find_snoc split: option.splits)
qed (use assms in \<open>auto simp: projecting_def decision_defs find_snoc split: option.splits\<close>)

lemma enforced_block: "projecting d \<Longrightarrow> enforced (block l res d)"
  by (auto simp: projecting_def enforced_def decision_defs)

lemma evaluate_loop_shape:
  "evaluate_loop U S ls d x = (d', x') \<Longrightarrow> projecting d \<Longrightarrow> projecting d' \<or> enforced d'"
  by (induction rule: evaluate_loop_induct) (auto simp: enforced_block projecting_after)

lemma projecting_not_Rejected: "projecting d \<Longrightarrow> \<not> Rejected d"
  by (simp add: projecting_def Rejected_def)

lemma enforced_Rejected: "enforced d \<Longrightarrow> Rejected d"
  by (simp add: enforced_def Rejected_def)

subsection \<open>What a rejection rests on\<close>

lemma turn_Blocks:
  assumes "turn U S l x = (Blocks res, x')"
  obtains b x1 where "Applies U l (rq_Path (run_req x)) (rq_Method (run_req x))" "Active l" "\<not> lim_DryRun l"
    "bucket l x = (Some b, x1)" "apply_limiter S l b (run_world x1) = (Inr res, run_world x')" "out_blocked res"
  using assms by (auto simp: turn_def split: if_splits prod.splits option.splits sum.splits)

lemma after_not_Rejected: "\<not> Rejected d \<Longrightarrow> \<not> is_block s \<Longrightarrow> \<not> Rejected (after l s d)"
  by (cases s) (auto simp: Rejected_def decision_defs Let_def)

lemma evaluate_loop_append:
  "\<not> Rejected d \<Longrightarrow> evaluate_loop U S (ks @ ls) d x =
     (case evaluate_loop U S ks d x of (d', x') \<Rightarrow>
        if Rejected d' then (d', x') else evaluate_loop U S ls d' x')"
proof (induction ks arbitrary: d x)
  case (Cons l ks)
  obtain s x1 where t: "turn U S l x = (s, x1)" by (cases "turn U S l x")
  show ?case
  proof (cases "is_block s")
    case True
    then have "Rejected (after l s d)" by (cases s) (auto simp: Rejected_def decision_defs)
    with True t show ?thesis by (simp add: evaluate_loop_turn del: evaluate_loop.simps)
  next
    case False
    with t Cons show ?thesis by (simp add: evaluate_loop_turn after_not_Rejected del: evaluate_loop.simps)
  qed
qed simp

text \<open>
  The limiter \<open>l\<close>, reached in state \<open>xm\<close> with the decision \<open>dm\<close> so far, refuses the request: it
  applies, it is active and enforcing, it yields a bucket, and the store says that bucket is over
  its limit.
\<close>

definition refuses :: "unicode \<Rightarrow> 'w store \<Rightarrow> limiter \<Rightarrow> 'w run \<Rightarrow> outcome \<Rightarrow> 'w run \<Rightarrow> bool" where
  "refuses U S l xm res x' \<longleftrightarrow>
     Applies U l (rq_Path (run_req xm)) (rq_Method (run_req xm)) \<and> Active l \<and> \<not> lim_DryRun l \<and> out_blocked res \<and>
     (\<exists>b xb. bucket l xm = (Some b, xb) \<and> apply_limiter S l b (run_world xb) = (Inr res, run_world x') \<and>
        x' = xb\<lparr>run_world := run_world x'\<rparr>)"

lemma turn_refuses: "turn U S l x = (Blocks res, x') \<longleftrightarrow> refuses U S l x res x'"
  unfolding refuses_def turn_def
  by (cases "bucket l x"; cases "fst (bucket l x)";
      cases "apply_limiter S l (the (fst (bucket l x))) (run_world (snd (bucket l x)))")
    (auto split: sum.splits)

lemma evaluate_loop_rejects:
  "evaluate_loop U S ls d x = (d', x') \<Longrightarrow> \<not> Rejected d \<Longrightarrow> Rejected d' \<Longrightarrow>
     \<exists>ks l ms dm xm res. ls = ks @ l # ms \<and> evaluate_loop U S ks d x = (dm, xm) \<and> \<not> Rejected dm \<and>
       refuses U S l xm res x' \<and> d' = block l res dm"
proof (induction rule: evaluate_loop_induct)
  case (blocked l ls d x x' res)
  have "l # ls = [] @ l # ls \<and> evaluate_loop U S [] d x = (d, x) \<and> \<not> Rejected d \<and> refuses U S l x res x' \<and>
      block l res d = block l res d"
    using blocked by (simp add: turn_refuses)
  then show ?case by blast
next
  case (continued l ls d x s x1 d' x')
  then obtain ks k ms dm xm res where k: "ls = ks @ k # ms" "evaluate_loop U S ks (after l s d) x1 = (dm, xm)"
    "\<not> Rejected dm" "refuses U S k xm res x'" "d' = block k res dm"
    using after_not_Rejected by blast
  then have "l # ls = (l # ks) @ k # ms \<and> evaluate_loop U S (l # ks) d x = (dm, xm)"
    using continued.hyps by (simp add: evaluate_loop_turn del: evaluate_loop.simps)
  with k show ?case by blast
qed auto

subsection \<open>Failing open\<close>

definition failing :: "('w \<Rightarrow> bool) \<Rightarrow> 'w store \<Rightarrow> bool" where
  "failing down S \<longleftrightarrow>
     (\<forall>k r w. down w \<longrightarrow> \<not> ret_ok (fst (st_Consume S k r w)) \<and> down (snd (st_Consume S k r w))) \<and>
     (\<forall>k b w. down w \<longrightarrow> \<not> ret_ok (fst (st_Take S k b w)) \<and> down (snd (st_Take S k b w)))"

lemma failing_apply:
  assumes "failing down S" "down w" "apply_limiter S l b w = (y, w')"
  shows "isl y \<and> down w'"
proof -
  let ?k = "\<lparr>key_Limiter = lim_Name l, key_Bucket = b\<rparr>"
  have "\<not> ret_ok (fst (st_Consume S ?k (lim_Rule l) w)) \<and> down (snd (st_Consume S ?k (lim_Rule l) w))"
    "\<not> ret_ok (fst (st_Take S ?k (lim_Bucket l) w)) \<and> down (snd (st_Take S ?k (lim_Bucket l) w))"
    using assms(1,2) by (auto simp: failing_def)
  then show ?thesis using assms(3)
    by (auto simp: apply_limiter_def Let_def split: if_splits prod.splits ret.splits option.splits)
qed

lemma bucket_world: "bucket l x = (b, x') \<Longrightarrow> run_world x' = run_world x"
  by (auto simp: bucket_def split: prod.splits key_ret.splits)

lemma turn_cases:
  assumes "turn U S l x = (s, x')"
  obtains (skipped) "s = Skips" "run_world x' = run_world x"
  | (applied) b y where "s \<noteq> Skips" "apply_limiter S l b (run_world x) = (y, run_world x')"
      "isl y \<longleftrightarrow> s = Opens"
  using assms
  by (auto simp: turn_def dest!: bucket_world split: if_splits prod.splits option.splits sum.splits)

lemma failing_turn:
  assumes "failing down S" "down (run_world x)" "turn U S l x = (s, x')"
  shows "(s = Skips \<or> s = Opens) \<and> down (run_world x')"
  using assms(3)
proof (cases rule: turn_cases)
  case (applied b y)
  then show ?thesis using failing_apply [OF assms(1,2)] by blast
qed (use assms(2) in simp)

lemma evaluate_loop_failing:
  assumes "failing down S"
  shows "evaluate_loop U S ls d x = (d', x') \<Longrightarrow> down (run_world x) \<Longrightarrow> \<not> d_Blocked d \<Longrightarrow>
    \<not> d_Blocked d' \<and> set (verdicts d') \<subseteq> set (verdicts d) \<union> {VerdictFailedOpen}"
proof (induction rule: evaluate_loop_induct)
  case (blocked l ls d x x' res)
  then show ?case using failing_turn [OF assms] by blast
next
  case (continued l ls d x s x1 d' x')
  then have "s = Skips \<or> s = Opens" "down (run_world x1)" using failing_turn [OF assms] by blast+
  then have "set (verdicts (after l s d)) \<subseteq> set (verdicts d) \<union> {VerdictFailedOpen}"
    "d_Blocked (after l s d) = d_Blocked d" "down (run_world x1)" by (auto simp: decision_defs)
  with continued show ?case by blast
qed auto

subsection \<open>Order and number of evaluations\<close>

lemma after_names:
  "map ev_Limiter (d_Evaluations (after l s d)) =
     map ev_Limiter (d_Evaluations d) @ (if s = Skips then [] else [lim_Name l])"
  by (cases s) (auto simp: decision_defs Let_def)

lemma evaluate_loop_names:
  "evaluate_loop U S ls d x = (d', x') \<Longrightarrow>
     \<exists>ns. map ev_Limiter (d_Evaluations d') = map ev_Limiter (d_Evaluations d) @ ns \<and> subseq ns (map lim_Name ls)"
proof (induction rule: evaluate_loop_induct)
  case (blocked l ls d x x' res)
  then show ?case using after_names [of l "Blocks res" d] by (auto intro: exI [of _ "[lim_Name l]"])
next
  case (continued l ls d x s x1 d' x')
  then show ?case using after_names [of l s d] by (cases "s = Skips") (auto intro: subseq_Cons')
qed simp

text \<open>Every evaluation is one call to the store.\<close>

lemma fake_apply_calls:
  assumes "apply_limiter (Fake now) l b (f, w) = (y, f', w')"
  shows "fk_Calls f' = fk_Calls f + 1"
  using assms
  by (auto simp: apply_limiter_def Let_def Fake_def dest: Fake_Consume_calls Fake_Take_calls
      split: if_splits prod.splits ret.splits option.splits)

lemma fake_turn_calls:
  assumes "turn U (Fake now) l x = (s, x')"
  shows "fk_Calls (fst (run_world x')) = fk_Calls (fst (run_world x)) + (if s = Skips then 0 else 1)"
  using assms
proof (cases rule: turn_cases)
  case (applied b y)
  then show ?thesis using fake_apply_calls by (cases "run_world x"; cases "run_world x'") auto
qed simp

lemma fake_evaluate_calls:
  "evaluate_loop U (Fake now) ls d x = (d', x') \<Longrightarrow>
     fk_Calls (fst (run_world x')) - fk_Calls (fst (run_world x)) =
       int (length (d_Evaluations d')) - int (length (d_Evaluations d))"
proof (induction rule: evaluate_loop_induct)
  case (blocked l ls d x x' res)
  then show ?case using fake_turn_calls [OF blocked] by (simp add: decision_defs)
next
  case (continued l ls d x s x1 d' x')
  have "length (d_Evaluations (after l s d)) = length (d_Evaluations d) + (if s = Skips then 0 else 1)"
    using arg_cong [OF after_names, of length l s d] by auto
  with continued show ?case using fake_turn_calls [OF continued.hyps(1)] by (auto split: if_splits)
qed simp

subsection \<open>Dry runs change nothing\<close>

text \<open>A keyer that reads only the subject of the request, as every keyer of the configuration does.\<close>

definition subject_keyer :: "lib \<Rightarrow> key_fn \<Rightarrow> bool" where
  "subject_keyer L f \<longleftrightarrow>
     (\<forall>r. coherent L r \<longrightarrow> same_subject r (snd (f r)) \<and> coherent L (snd (f r))) \<and>
     (\<forall>r r'. coherent L r \<longrightarrow> coherent L r' \<longrightarrow> same_subject r r' \<longrightarrow> fst (f r) = fst (f r'))"

lemma subject_keyer_method: "subject_keyer L (keyer_method L k)"
proof -
  have m: "fst (keyer_method L k r) = KeyRet (bucket_of L r k) \<and> same_subject r (snd (keyer_method L k r)) \<and>
      coherent L (snd (keyer_method L k r))" if "coherent L r" for r
    using Key_refines [OF that, of k] by (auto simp: keyer_method_def split: prod.splits)
  have "fst (keyer_method L k r) = fst (keyer_method L k r')"
    if "coherent L r" "coherent L r'" "same_subject r r'" for r r'
    using m [OF that(1)] m [OF that(2)] bucket_of_pure [OF that, of k] by simp
  with m show ?thesis unfolding subject_keyer_def by blast
qed

definition same_run :: "lib \<Rightarrow> 'w run \<Rightarrow> 'w run \<Rightarrow> bool" where
  "same_run L x y \<longleftrightarrow> coherent L (run_req x) \<and> coherent L (run_req y) \<and> same_subject (run_req x) (run_req y)"

definition same_reply :: "decision \<Rightarrow> decision \<Rightarrow> bool" where
  "same_reply d e \<longleftrightarrow> Rejected d = Rejected e \<and>
     (Rejected d \<longrightarrow> d_Limiter d = d_Limiter e \<and> d_Count d = d_Count e \<and> d_RetryAfter d = d_RetryAfter e \<and>
        d_AdviseRetryAfter d = d_AdviseRetryAfter e)"

lemma bucket_same_run:
  assumes "subject_keyer L (lim_Keyer l)" "same_run L x y"
  shows "fst (bucket l x) = fst (bucket l y)" "same_run L (snd (bucket l x)) (snd (bucket l y))"
    "same_run L (snd (bucket l x)) y"
proof -
  obtain kx rx ky ry where k: "lim_Keyer l (run_req x) = (kx, rx)" "lim_Keyer l (run_req y) = (ky, ry)"
    by (cases "lim_Keyer l (run_req x)", cases "lim_Keyer l (run_req y)")
  have c: "coherent L (run_req x)" "coherent L (run_req y)" "same_subject (run_req x) (run_req y)"
    using assms(2) by (simp_all add: same_run_def)
  have "kx = ky" using assms(1) c k unfolding subject_keyer_def by (metis fst_conv)
  moreover have sx: "same_subject (run_req x) rx" "coherent L rx" and sy: "same_subject (run_req y) ry" "coherent L ry"
    using assms(1) c k unfolding subject_keyer_def by (metis snd_conv)+
  moreover have "same_subject rx ry" "same_subject rx (run_req y)"
    using sx sy c by (auto simp: same_subject_def)
  ultimately show "fst (bucket l x) = fst (bucket l y)" "same_run L (snd (bucket l x)) (snd (bucket l y))"
    "same_run L (snd (bucket l x)) y"
    using c by (auto simp: bucket_def k same_run_def split: key_ret.splits)
qed

context keyed_store
begin

definition agree :: "string set \<Rightarrow> 'w \<Rightarrow> 'w \<Rightarrow> bool" where
  "agree N w v \<longleftrightarrow> (\<forall>n \<in> N. view w n = view v n)"

lemma apply_local:
  assumes "good (lim_Name l)" "view w (lim_Name l) = view v (lim_Name l)"
  shows "fst (apply_limiter S l b w) = fst (apply_limiter S l b v)"
    "view (snd (apply_limiter S l b w)) (lim_Name l) = view (snd (apply_limiter S l b v)) (lim_Name l)"
proof -
  let ?k = "\<lparr>key_Limiter = lim_Name l, key_Bucket = b\<rparr>"
  note c = consume_local [of ?k w v "lim_Rule l"] and t = take_local [of ?k w v "lim_Bucket l"]
  show "fst (apply_limiter S l b w) = fst (apply_limiter S l b v)"
    "view (snd (apply_limiter S l b w)) (lim_Name l) = view (snd (apply_limiter S l b v)) (lim_Name l)"
    using c t assms
    by (auto simp: apply_limiter_def Let_def split: prod.splits ret.splits option.splits)
qed

lemma apply_frame:
  assumes "good n" "good (lim_Name l)" "n \<noteq> lim_Name l"
  shows "view (snd (apply_limiter S l b w)) n = view w n"
  using consume_frame [of n "\<lparr>key_Limiter = lim_Name l, key_Bucket = b\<rparr>" "lim_Rule l" w]
    take_frame [of n "\<lparr>key_Limiter = lim_Name l, key_Bucket = b\<rparr>" "lim_Bucket l" w] assms
  by (auto simp: apply_limiter_def Let_def split: prod.splits ret.splits option.splits)

lemma turn_frame:
  assumes "good n" "good (lim_Name l)" "n \<noteq> lim_Name l" "turn U S l x = (s, x')"
  shows "view (run_world x') n = view (run_world x) n"
  using assms(4)
proof (cases rule: turn_cases)
  case (applied b y)
  then show ?thesis using apply_frame [OF assms(1-3), of b "run_world x"] by simp
qed simp

lemma turn_dry:
  assumes "subject_keyer L (lim_Keyer l)" "same_run L x y" "turn U S l x = (s, x')"
  shows "same_run L x' y"
  using assms(3) bucket_same_run(3) [OF assms(1,2)] assms(2)
  by (auto simp: turn_def same_run_def split: if_splits prod.splits option.splits sum.splits)

lemma turn_local:
  assumes "subject_keyer L (lim_Keyer l)" "same_run L x y"
    and "good (lim_Name l)" "view (run_world x) (lim_Name l) = view (run_world y) (lim_Name l)"
    and "turn U S l x = (s, x')" "turn U S l y = (s', y')"
  shows "s = s' \<and> same_run L x' y' \<and> view (run_world x') (lim_Name l) = view (run_world y') (lim_Name l)"
proof -
  have subject: "rq_Path (run_req x) = rq_Path (run_req y)" "rq_Method (run_req x) = rq_Method (run_req y)"
    using assms(2) by (simp_all add: same_run_def same_subject_def)
  obtain k x1 y1 where k: "bucket l x = (k, x1)" "bucket l y = (k, y1)"
    using bucket_same_run(1) [OF assms(1,2)] by (cases "bucket l x"; cases "bucket l y") auto
  have xy: "same_run L x1 y1" using bucket_same_run(2) [OF assms(1,2)] k by simp
  have w: "run_world x1 = run_world x" "run_world y1 = run_world y" using k bucket_world by blast+
  show ?thesis
  proof (cases k)
    case None
    with k xy w assms(2-6) subject show ?thesis by (auto simp: turn_def split: if_splits)
  next
    case (Some b)
    show ?thesis
      using apply_local [OF assms(3,4), of b] assms(2-6) k xy
      by (auto simp: turn_def Some w subject same_run_def split: if_splits prod.splits sum.splits)
  qed
qed

abbreviation enforcing :: "limiter list \<Rightarrow> limiter list" where
  "enforcing ls \<equiv> filter (\<lambda>l. \<not> lim_DryRun l) ls"

lemma dry_run_transparent:
  assumes "evaluate_loop U S ls d x = (d', x')" "evaluate_loop U S (enforcing ls) e y = (e', y')"
    and "same_run L x y" "\<not> Rejected d" "\<not> Rejected e"
    and "\<forall>l \<in> set ls. good (lim_Name l) \<and> subject_keyer L (lim_Keyer l)" "distinct (map lim_Name ls)"
    and "\<forall>n \<in> N. good n" "agree N (run_world x) (run_world y)"
    and "lim_Name ` set (enforcing ls) \<subseteq> N" "N \<inter> lim_Name ` {l \<in> set ls. lim_DryRun l} = {}"
  shows "same_reply d' e' \<and> agree N (run_world x') (run_world y')"
  using assms
proof (induction ls arbitrary: d x e y)
  case Nil
  then show ?case by (simp add: same_reply_def)
next
  case (Cons l ls)
  obtain s x1 where t: "turn U S l x = (s, x1)" by (cases "turn U S l x")
  show ?case
  proof (cases "lim_DryRun l")
    case True
    then have nb: "\<not> is_block s" using t by (cases s) (auto elim: turn_Blocks)
    have "agree N (run_world x1) (run_world y)"
      using Cons.prems turn_frame [OF _ _ _ t] True unfolding agree_def by fastforce
    moreover have "same_run L x1 y" using turn_dry [OF _ Cons.prems(3) t] Cons.prems(6) by simp
    ultimately show ?thesis
      using Cons.prems t nb True
      by (intro Cons.IH [of "after l s d" x1 e y])
        (auto simp: evaluate_loop_turn after_not_Rejected simp del: evaluate_loop.simps)
  next
    case False
    obtain s' y1 where t': "turn U S l y = (s', y1)" by (cases "turn U S l y")
    have l: "lim_Name l \<in> N" "good (lim_Name l)" "subject_keyer L (lim_Keyer l)"
      using Cons.prems(6,10) False by auto
    then have loc: "s' = s" "same_run L x1 y1"
      "view (run_world x1) (lim_Name l) = view (run_world y1) (lim_Name l)"
      using turn_local [OF l(3) Cons.prems(3) l(2) _ t t'] Cons.prems(9) by (auto simp: agree_def)
    have ag: "agree N (run_world x1) (run_world y1)"
      unfolding agree_def
    proof
      fix n assume n: "n \<in> N"
      show "view (run_world x1) n = view (run_world y1) n"
        using turn_frame [OF _ l(2) _ t, of n] turn_frame [OF _ l(2) _ t', of n] loc(3) n Cons.prems(8,9)
        by (cases "n = lim_Name l") (auto simp: agree_def)
    qed
    show ?thesis
    proof (cases "is_block s")
      case True
      then obtain res where "s = Blocks res" by (cases s) auto
      with Cons.prems(1,2) t t' loc(1) False ag show ?thesis
        by (auto simp: evaluate_loop_turn same_reply_def Rejected_def decision_defs simp del: evaluate_loop.simps)
    next
      case nb: False
      then show ?thesis
        using Cons.prems t t' loc ag False
        by (intro Cons.IH [of "after l s d" x1 "after l s e" y1])
          (auto simp: evaluate_loop_turn after_not_Rejected simp del: evaluate_loop.simps)
    qed
  qed
qed

end

subsection \<open>What is logged\<close>

fun failed_name :: "log_event \<Rightarrow> string list" where
  "failed_name (StoreFailed n b e) = [n]"
| "failed_name (KeyerPanicked n m) = []"

definition failed_names :: "log_event list \<Rightarrow> string list" where
  "failed_names es = concat (map failed_name es)"

fun quoted :: "log_event \<Rightarrow> string" where
  "quoted (StoreFailed n b e) = b"
| "quoted (KeyerPanicked n m) = []"

definition opened :: "decision \<Rightarrow> string list" where
  "opened d = map ev_Limiter (filter (\<lambda>e. ev_Verdict e = VerdictFailedOpen) (d_Evaluations d))"

lemma failed_names_simps [simp]:
  "failed_names [] = []" "failed_names (es @ fs) = failed_names es @ failed_names fs"
  "failed_names [StoreFailed n b e] = [n]" "failed_names [KeyerPanicked n m] = []"
  by (simp_all add: failed_names_def)

lemma bucket_log:
  assumes "bucket l x = (b, x')"
  obtains "run_log x' = run_log x" | m where "run_log x' = run_log x @ [KeyerPanicked (lim_Name l) m]"
  using assms by (auto simp: bucket_def split: prod.splits key_ret.splits)

lemma truncate_bucket_length: "length (truncate_bucket b) \<le> 15"
  by (simp add: truncate_bucket_def)

lemma turn_log:
  assumes "turn U S l x = (s, x')"
  shows "failed_names (run_log x') = failed_names (run_log x) @ (if s = Opens then [lim_Name l] else [])"
    "\<exists>es. run_log x' = run_log x @ es \<and> (\<forall>e \<in> set es. length (quoted e) \<le> 15)"
proof -
  obtain b x1 where b: "bucket l x = (b, x1)" by (cases "bucket l x")
  from b have n: "failed_names (run_log x1) = failed_names (run_log x)" by (rule bucket_log) simp_all
  from b have q: "\<exists>es. run_log x1 = run_log x @ es \<and> (\<forall>e \<in> set es. length (quoted e) \<le> 15)"
    by (rule bucket_log) auto
  show "failed_names (run_log x') = failed_names (run_log x) @ (if s = Opens then [lim_Name l] else [])"
    using assms b n by (auto simp: turn_def split: if_splits option.splits prod.splits sum.splits)
  show "\<exists>es. run_log x' = run_log x @ es \<and> (\<forall>e \<in> set es. length (quoted e) \<le> 15)"
    using assms b q by (fastforce simp: turn_def truncate_bucket_length split: if_splits option.splits prod.splits sum.splits)
qed

lemma opened_after: "opened (after l s d) = opened d @ (if s = Opens then [lim_Name l] else [])"
  by (cases s) (auto simp: opened_def decision_defs Let_def)

lemma evaluate_loop_log:
  "evaluate_loop U S ls d x = (d', x') \<Longrightarrow>
     (\<exists>ns. failed_names (run_log x') = failed_names (run_log x) @ ns \<and> opened d' = opened d @ ns) \<and>
     (\<exists>es. run_log x' = run_log x @ es \<and> (\<forall>e \<in> set es. length (quoted e) \<le> 15))"
proof (induction rule: evaluate_loop_induct)
  case (blocked l ls d x x' res)
  then show ?case using turn_log [OF blocked] opened_after [of l "Blocks res" d] by auto
next
  case (continued l ls d x s x1 d' x')
  obtain es where es: "run_log x1 = run_log x @ es" "\<forall>e \<in> set es. length (quoted e) \<le> 15"
    using turn_log(2) [OF continued.hyps(1)] by blast
  from continued.IH obtain fs where fs: "run_log x' = run_log x1 @ fs" "\<forall>e \<in> set fs. length (quoted e) \<le> 15"
    by blast
  have "run_log x' = run_log x @ es @ fs \<and> (\<forall>e \<in> set (es @ fs). length (quoted e) \<le> 15)"
    using es fs by auto
  moreover have "\<exists>ns. failed_names (run_log x') = failed_names (run_log x) @ ns \<and> opened d' = opened d @ ns"
    using continued.IH turn_log(1) [OF continued.hyps(1)] opened_after [of l s d] by auto
  ultimately show ?case by blast
qed simp

subsection \<open>Properties\<close>

definition rejected_at ::
  "unicode \<Rightarrow> 'w engine \<Rightarrow> 'w run \<Rightarrow> limiter \<Rightarrow> decision \<Rightarrow> outcome \<Rightarrow> 'w run \<Rightarrow> bool" where
  "rejected_at U e x l dm res y \<longleftrightarrow>
     (\<exists>ks ms xm. eng_limiters e = ks @ l # ms \<and> \<not> Rejected dm \<and>
        evaluate_loop U (eng_store e) ks zero_decision x = (dm, xm) \<and> refuses U (eng_store e) l xm res y)"

lemma zero_decision_simps [simp]: "d_Evaluations zero_decision = []" "opened zero_decision = []"
  by (simp_all add: zero_decision_def opened_def)

lemma zero_not_Rejected: "\<not> Rejected zero_decision"
  by (simp add: Rejected_def zero_decision_def)

lemma rejected_at_Evaluate:
  assumes "rejected_at U e x l dm res y"
  shows "Evaluate U e x = (block l res dm, y)"
proof -
  from assms obtain ks ms xm where k: "eng_limiters e = ks @ l # ms" "\<not> Rejected dm"
    "evaluate_loop U (eng_store e) ks zero_decision x = (dm, xm)" "turn U (eng_store e) l xm = (Blocks res, y)"
    by (auto simp: rejected_at_def turn_refuses)
  have "evaluate_loop U (eng_store e) (l # ms) dm xm = (block l res dm, y)"
    by (simp add: evaluate_loop_turn k(4) del: evaluate_loop.simps)
  with k show ?thesis
    by (simp add: Evaluate_def evaluate_loop_append [OF zero_not_Rejected] del: evaluate_loop.simps)
qed

text \<open>C2. A request is rejected exactly when some enforcing limiter that applies to it finds its bucket
  over the limit, after the limiters before it let the request pass; the decision is then that
  limiter's block with the store's count and wait, and the limiters after it are not consulted.\<close>

theorem rejection_cause:
  assumes "Evaluate U e x = (d, x')"
  shows "(Rejected d \<longleftrightarrow> (\<exists>l dm res y. rejected_at U e x l dm res y)) \<and>
    (\<forall>l dm res y. rejected_at U e x l dm res y \<longrightarrow> d = block l res dm \<and> x' = y)"
proof (intro conjI iffI allI impI)
  assume "Rejected d"
  with evaluate_loop_rejects [OF assms [unfolded Evaluate_def] zero_not_Rejected]
  show "\<exists>l dm res y. rejected_at U e x l dm res y" unfolding rejected_at_def by blast
next
  assume "\<exists>l dm res y. rejected_at U e x l dm res y"
  with assms have "\<exists>l res dm. d = block l res dm"
    using rejected_at_Evaluate by (metis prod.inject)
  then show "Rejected d" by (auto simp: Rejected_def decision_defs)
qed (use assms rejected_at_Evaluate in \<open>fastforce+\<close>)

text \<open>A limiter on the header \<open>X-Id\<close> and a request that carries it, to run the engine on.\<close>

definition demo_limiter :: "string \<Rightarrow> int \<Rightarrow> bool \<Rightarrow> limiter" where
  "demo_limiter n limit dry = \<lparr>lim_Name = n, lim_Rule = \<lparr>rule_Limit = limit, rule_Window = Minute, rule_Block = 30 * Second\<rparr>,
     lim_Bucket = zero_bucket, lim_Keyer = keyer_method plain_lib (Header [''X-Id''] None None),
     lim_Paths = [''/login''], lim_Methods = [''post''], lim_DryRun = dry, lim_AdviseRetryAfter = True\<rparr>"

definition demo_run :: "fake \<Rightarrow> (fake \<times> time) run" where
  "demo_run f = \<lparr>run_req = new_request ''POST'' ''/login/'' [(''X-Id'', [''a''])] [] [], run_world = (f, 0), run_log = []\<rparr>"

abbreviation demo_engine :: "limiter list \<Rightarrow> (fake \<times> time) engine" where
  "demo_engine ls \<equiv> NewEngine (Fake stopped) ls"

abbreviation plain_unicode :: unicode where "plain_unicode \<equiv> lib_unicode plain_lib"

text \<open>The memory after one request was counted against the limiter \<open>a\<close>.\<close>

definition demo_memory :: fake where
  "demo_memory = Fake_New\<lparr>fk_counts := [''a:a'' \<mapsto> 1], fk_expires := [''a:a'' \<mapsto> Minute], fk_Calls := 1\<rparr>"

theorem rejection_cause_witness:
  "let ls = [demo_limiter ''d'' 0 True, demo_limiter ''a'' 1 False, demo_limiter ''z'' 1 False];
       d = fst (Evaluate plain_unicode (demo_engine ls) (demo_run demo_memory))
   in Rejected d \<and> d_Limiter d = ''a'' \<and>
      (\<exists>l dm res y. rejected_at plain_unicode (demo_engine ls) (demo_run demo_memory) l dm res y)"
proof -
  let ?ls = "[demo_limiter ''d'' 0 True, demo_limiter ''a'' 1 False, demo_limiter ''z'' 1 False]"
  let ?y = "Evaluate plain_unicode (demo_engine ?ls) (demo_run demo_memory)"
  have "Rejected (fst ?y) \<and> d_Limiter (fst ?y) = ''a''" by code_simp
  with rejection_cause [of plain_unicode "demo_engine ?ls" "demo_run demo_memory" "fst ?y" "snd ?y"]
  show ?thesis unfolding Let_def by simp
qed

text \<open>C21. Every decision is well formed: either no limiter enforced a block, and then it is blocked
  exactly when some dry-run limiter would have blocked and names the first of them; or the last
  evaluation is the one enforced block and the decision reports it. The limiters are evaluated in
  the configured order.\<close>

theorem decision_shape:
  "let d = fst (Evaluate U e x)
   in (projecting d \<or> enforced d) \<and> (Rejected d \<longleftrightarrow> enforced d) \<and>
      subseq (map ev_Limiter (d_Evaluations d)) (map lim_Name (eng_limiters e))"
proof -
  obtain d x' where d: "evaluate_loop U (eng_store e) (eng_limiters e) zero_decision x = (d, x')"
    by (metis surj_pair)
  have "projecting d \<or> enforced d" using evaluate_loop_shape [OF d projecting_zero] .
  moreover have "subseq (map ev_Limiter (d_Evaluations d)) (map lim_Name (eng_limiters e))"
    using evaluate_loop_names [OF d] by (auto simp: zero_decision_def)
  ultimately show ?thesis
    using projecting_not_Rejected [of d] enforced_Rejected [of d] by (auto simp: Evaluate_def d Let_def)
qed


lemma fake_failing: "failing (\<lambda>(f, w). fk_Err f \<noteq> None) (Fake now)"
  by (auto simp: failing_def Fake_def Fake_Consume_def Fake_Take_def Let_def split: option.splits)



text \<open>Every evaluation is one call to the store, and nothing else is: a limiter that does not
  apply, is inactive or finds no bucket, and every limiter after a block, costs no call.\<close>

lemma evaluations_are_calls:
  "case Evaluate U (NewEngine (Fake now) ls) x of (d, x') \<Rightarrow>
     fk_Calls (fst (run_world x')) = fk_Calls (fst (run_world x)) + int (length (d_Evaluations d))"
proof -
  obtain d x' where d: "evaluate_loop U (Fake now) ls zero_decision x = (d, x')" by (metis surj_pair)
  from fake_evaluate_calls [OF d] show ?thesis
    by (simp add: Evaluate_def NewEngine_def d)
qed

text \<open>A keyer that panics is skipped: it leaves a line in the log, and no evaluation.\<close>

lemma keyer_panic_skips:
  assumes "lim_Keyer l (run_req x) = (KeyPanic m, r')" "Active l"
    and "Applies U l (rq_Path (run_req x)) (rq_Method (run_req x))"
  shows "evaluate_loop U S (l # ls) d x = evaluate_loop U S ls d
    (x\<lparr>run_req := r', run_log := run_log x @ [KeyerPanicked (lim_Name l) m]\<rparr>)"
  using assms by (simp add: bucket_def)

end
