(* ===== verification/Observability.thy ===== *)
theory Observability
  imports Limiter Float64
begin

text \<open>
  \<open>internal/observability\<close>: the choice of logger, the metrics namespace and the service's own
  counters and gauges. The Prometheus client is a library outside the repository; a collector is
  modelled by the value it holds. Its exposition, the registry and the runtime collectors are not.
\<close>

subsection \<open>Logger\<close>

datatype level = LevelDebug | LevelInfo | LevelWarn | LevelError
datatype log_format = JSONHandler | TextHandler

definition NewLogger :: "unicode \<Rightarrow> string \<Rightarrow> string \<Rightarrow> goerror + level \<times> log_format" where
  "NewLogger U lvl fmt =
     (let l = ToLower U (TrimSpace lvl); f = ToLower U (TrimSpace fmt);
          h = (\<lambda>v. if f = [] \<or> f = ''json'' then Inr (v, JSONHandler)
                   else if f = ''text'' then Inr (v, TextHandler)
                   else Inl (Errorf (''unknown log format '' @ fmt)))
      in if l = ''debug'' then h LevelDebug
         else if l = [] \<or> l = ''info'' then h LevelInfo
         else if l = ''warn'' \<or> l = ''warning'' then h LevelWarn
         else if l = ''error'' then h LevelError
         else Inl (Errorf (''unknown log level '' @ lvl)))"

subsection \<open>Namespace\<close>

text \<open>How many bytes the next rune of a string takes; a byte that starts no valid sequence is one rune.\<close>

definition cont :: "nat \<Rightarrow> nat \<Rightarrow> char \<Rightarrow> bool" where "cont lo hi c \<longleftrightarrow> lo \<le> byte c \<and> byte c \<le> hi"

definition rune_width :: "string \<Rightarrow> nat" where
  "rune_width s =
     (case s of
        a # b # rest \<Rightarrow>
          (let n = byte a;
               lo = (if n = 224 then 160 else if n = 240 then 144 else 128);
               hi = (if n = 237 then 159 else if n = 244 then 143 else 191);
               more = (\<lambda>k. length rest \<ge> k \<and> list_all (cont 128 191) (List.take k rest))
           in if \<not> cont lo hi b then 1
              else if 194 \<le> n \<and> n \<le> 223 then 2
              else if 224 \<le> n \<and> n \<le> 239 then (if more 1 then 3 else 1)
              else if 240 \<le> n \<and> n \<le> 244 then (if more 2 then 4 else 1)
              else 1)
      | _ \<Rightarrow> 1)"

lemma rune_width_pos: "0 < rune_width s"
  by (auto simp: rune_width_def Let_def split: list.splits)

definition name_char :: "char \<Rightarrow> bool" where
  "name_char c \<longleftrightarrow> is_lower c \<or> is_upper c \<or> c = CHR ''_'' \<or> c = CHR '':''"

function sanitise_from :: "nat \<Rightarrow> string \<Rightarrow> string" where
  "sanitise_from i s =
     (if s = [] then []
      else (if name_char (hd s) then hd s else if is_digit (hd s) \<and> i > 0 then hd s else CHR ''_'')
             # sanitise_from (i + rune_width s) (drop (rune_width s) s))"
  by pat_completeness auto
termination
  by (relation "measure (\<lambda>(i, s). length s)") (auto simp: rune_width_pos)

declare sanitise_from.simps [simp del]

definition sanitiseNamespace :: "string \<Rightarrow> string" where
  "sanitiseNamespace ns = sanitise_from 0 (TrimSpace ns)"

definition DefaultNamespace :: string where "DefaultNamespace = ''forwardlimit''"

subsection \<open>Metrics\<close>

record metrics =
  m_namespace :: string
  m_decisions :: "string \<times> string \<Rightarrow> nat"
  m_storeErrors :: nat
  m_cacheHits :: rat
  m_breakerOpen :: int
  m_duration :: "rat list"

definition NewMetrics :: "string \<Rightarrow> metrics" where
  "NewMetrics ns = (let n = sanitiseNamespace ns in
     \<lparr>m_namespace = (if n = [] then DefaultNamespace else n), m_decisions = (\<lambda>_. 0), m_storeErrors = 0,
      m_cacheHits = 0, m_breakerOpen = 0, m_duration = []\<rparr>)"

definition Namespace :: "metrics \<Rightarrow> string" where "Namespace m = m_namespace m"

definition RecordDecision :: "string \<Rightarrow> string \<Rightarrow> metrics \<Rightarrow> metrics" where
  "RecordDecision limiterName decision m =
     (let l = (if limiterName = [] then ''none'' else limiterName)
      in m\<lparr>m_decisions := (m_decisions m)((l, decision) := m_decisions m (l, decision) + 1)\<rparr>)"

definition RecordStoreError :: "metrics \<Rightarrow> metrics" where
  "RecordStoreError m = m\<lparr>m_storeErrors := m_storeErrors m + 1\<rparr>"

definition ObserveCheck :: "duration \<Rightarrow> metrics \<Rightarrow> metrics" where
  "ObserveCheck d m = m\<lparr>m_duration := m_duration m @ [Seconds d]\<rparr>"

definition SetBlockCacheHits :: "int \<Rightarrow> metrics \<Rightarrow> metrics" where
  "SetBlockCacheHits n m = m\<lparr>m_cacheHits := float n\<rparr>"

definition SetBreakerOpen :: "bool \<Rightarrow> metrics \<Rightarrow> metrics" where
  "SetBreakerOpen open' m = m\<lparr>m_breakerOpen := (if open' then 1 else 0)\<rparr>"

subsection \<open>Every namespace is a metric name\<close>

text \<open>Prometheus admits \<open>[a-zA-Z_:][a-zA-Z0-9_:]*\<close>.\<close>

definition metric_name :: "string \<Rightarrow> bool" where
  "metric_name s \<longleftrightarrow> s \<noteq> [] \<and> name_char (hd s) \<and> list_all (\<lambda>c. name_char c \<or> is_digit c) s"

lemma sanitise_from_chars: "list_all (\<lambda>c. name_char c \<or> is_digit c) (sanitise_from i s)"
proof (induction i s rule: sanitise_from.induct)
  case (1 i s)
  then show ?case by (subst sanitise_from.simps) (auto simp: name_char_def)
qed

lemma sanitise_from_hd: "sanitise_from 0 s = c # t \<Longrightarrow> name_char c"
  by (subst (asm) sanitise_from.simps) (auto simp: name_char_def split: if_splits)

lemma sanitiseNamespace_name: "sanitiseNamespace ns = [] \<or> metric_name (sanitiseNamespace ns)"
  using sanitise_from_chars [of 0 "TrimSpace ns"] sanitise_from_hd [of "TrimSpace ns"]
  unfolding sanitiseNamespace_def metric_name_def by (cases "sanitise_from 0 (TrimSpace ns)") auto

lemma DefaultNamespace_name: "metric_name DefaultNamespace"
  by (simp add: metric_name_def DefaultNamespace_def name_char_def byte_defs)

lemma rune_width_ascii: "s \<noteq> [] \<Longrightarrow> is_ascii (hd s) \<Longrightarrow> rune_width s = 1"
  by (auto simp: rune_width_def Let_def is_ascii_def split: list.splits)

lemma sanitise_from_id:
  "list_all (\<lambda>c. name_char c \<or> is_digit c) s \<Longrightarrow> i > 0 \<or> s = [] \<or> name_char (hd s) \<Longrightarrow> sanitise_from i s = s"
proof (induction s arbitrary: i)
  case (Cons c s)
  then have "is_ascii c" by (auto simp: name_char_def byte_defs)
  then have w: "rune_width (c # s) = 1" by (simp add: rune_width_ascii)
  have "sanitise_from (Suc i) s = s" using Cons by simp
  with Cons.prems w show ?case by (subst sanitise_from.simps) auto
qed (simp add: sanitise_from.simps)

lemma space_runes_not_names:
  "list_all (\<lambda>p. p \<noteq> [] \<and> \<not> (name_char (hd p) \<or> is_digit (hd p))) space_runes"
  "list_all (\<lambda>p. p \<noteq> [] \<and> \<not> (name_char (hd p) \<or> is_digit (hd p))) (map rev space_runes)"
  by code_simp+

lemma strip_one_name:
  assumes "list_all (\<lambda>p. p \<noteq> [] \<and> \<not> P (hd p)) ps" "list_all P s"
  shows "strip_one ps s = None"
proof -
  have "\<not> prefix p s" if "p \<in> set ps" for p
  proof -
    have "p \<noteq> []" "\<not> P (hd p)" using that assms(1) by (auto simp: list_all_iff)
    then show ?thesis using assms(2) by (auto simp: prefix_def list_all_iff neq_Nil_conv)
  qed
  then show ?thesis by (auto simp: strip_one_def find_None_iff split: option.splits dest: find_Some_iff [THEN iffD1])
qed

lemma TrimSpace_name: "list_all (\<lambda>c. name_char c \<or> is_digit c) s \<Longrightarrow> TrimSpace s = s"
  by (rule TrimSpace_id; rule strip_one_name [OF space_runes_not_names(1)] strip_one_name [OF space_runes_not_names(2)])
    (simp_all add: list_all_iff)

subsection \<open>Properties\<close>

text \<open>C37. Whatever namespace is configured, the metrics are registered under a name Prometheus admits,
  so registration cannot panic; a namespace that is already such a name is kept as it is.\<close>

theorem namespace_valid:
  "metric_name (Namespace (NewMetrics ns)) \<and> (metric_name ns \<longrightarrow> Namespace (NewMetrics ns) = ns)"
proof
  show "metric_name (Namespace (NewMetrics ns))"
    using sanitiseNamespace_name [of ns] DefaultNamespace_name by (auto simp: Namespace_def NewMetrics_def Let_def)
  show "metric_name ns \<longrightarrow> Namespace (NewMetrics ns) = ns"
    using TrimSpace_name [of ns] sanitise_from_id [of ns 0]
    by (auto simp: Namespace_def NewMetrics_def sanitiseNamespace_def metric_name_def Let_def)
qed

theorem namespace_valid_witness:
  "metric_name (Namespace (NewMetrics ''9 lives'')) \<and> Namespace (NewMetrics ''edge_1'') = ''edge_1''"
proof -
  have "metric_name ''edge_1''" by code_simp
  with namespace_valid [of "''edge_1''"] namespace_valid [of "''9 lives''"] show ?thesis by blast
qed

end
