(* ===== verification/GoPath.thy ===== *)
theory GoPath
  imports GoStrings
begin

text \<open>
  What \<open>http.ServeMux\<close> does to a path before it looks for a route (\<open>cleanPath\<close> over \<open>path.Clean\<close>):
  empty and dot segments go, a double dot takes the segment before it along, a final slash stays.
  Paths are taken to hold no percent escapes.
\<close>

fun clean_segments :: "string list \<Rightarrow> string list \<Rightarrow> string list" where
  "clean_segments acc [] = rev acc"
| "clean_segments acc (s # ss) =
     (if s = [] \<or> s = ''.'' then clean_segments acc ss
      else if s = ''..'' then clean_segments (tl acc) ss
      else clean_segments (s # acc) ss)"

text \<open>For a path that starts with a slash.\<close>

definition path_Clean :: "string \<Rightarrow> string" where
  "path_Clean p = CHR ''/'' # Join (clean_segments [] (Split p (CHR ''/''))) ''/''"

definition cleanPath :: "string \<Rightarrow> string" where
  "cleanPath p =
     (if p = [] then ''/''
      else (let q = (if hd p \<noteq> CHR ''/'' then CHR ''/'' # p else p); np = path_Clean q
            in if last q = CHR ''/'' \<and> np \<noteq> ''/'' then np @ ''/'' else np))"

subsection \<open>Cleaning is done once\<close>

definition proper :: "string \<Rightarrow> bool" where
  "proper s \<longleftrightarrow> s \<noteq> [] \<and> s \<noteq> ''.'' \<and> s \<noteq> ''..'' \<and> CHR ''/'' \<notin> set s"

lemma clean_segments_proper:
  "list_all (\<lambda>s. CHR ''/'' \<notin> set s) ss \<Longrightarrow> list_all proper acc \<Longrightarrow> list_all proper (clean_segments acc ss)"
proof (induction acc ss rule: clean_segments.induct)
  case (2 acc s ss)
  have "list_all proper (tl acc)" using 2(5) by (cases acc) auto
  moreover have "s \<noteq> [] \<Longrightarrow> s \<noteq> ''.'' \<Longrightarrow> s \<noteq> ''..'' \<Longrightarrow> proper s" using 2(4) by (simp add: proper_def)
  ultimately show ?case using 2 by simp
qed (simp add: list_all_iff)

lemma clean_segments_id: "list_all proper ss \<Longrightarrow> clean_segments acc ss = rev acc @ ss"
  by (induction ss arbitrary: acc) (auto simp: proper_def)

lemma clean_segments_snoc: "clean_segments acc (ss @ [[]]) = clean_segments acc ss"
  by (induction acc ss rule: clean_segments.induct) auto

lemma Split_slash: "Split (CHR ''/'' # s) (CHR ''/'') = [] # Split s (CHR ''/'')"
  by simp

lemma Split_snoc_sep: "Split (s @ [c]) c = Split s c @ [[]]"
  by (induction s) (auto split: list.splits)

lemma path_Clean_segments:
  assumes "list_all proper ss"
  shows "path_Clean (CHR ''/'' # Join ss ''/'') = CHR ''/'' # Join ss ''/''"
proof (cases "ss = []")
  case False
  have "\<forall>s \<in> set ss. CHR ''/'' \<notin> set s" using assms by (auto simp: list_all_iff proper_def)
  then have "Split (Join ss ''/'') (CHR ''/'') = ss" using Split_Join False by blast
  then show ?thesis using clean_segments_id [OF assms, of "[]"] by (simp add: path_Clean_def)
qed (simp add: path_Clean_def)

lemma path_Clean_obtain:
  obtains ss where "path_Clean p = CHR ''/'' # Join ss ''/''" "list_all proper ss"
proof
  show "list_all proper (clean_segments [] (Split p (CHR ''/'')))"
    by (rule clean_segments_proper) (auto simp: list_all_iff Split_no_sep)
qed (simp add: path_Clean_def)

lemma last_Join:
  "list_all proper ss \<Longrightarrow> ss \<noteq> [] \<Longrightarrow> Join ss ''/'' \<noteq> [] \<and> last (Join ss ''/'') \<noteq> CHR ''/''"
proof (induction ss "''/''" rule: Join.induct)
  case (2 x)
  then show ?case by (auto simp: proper_def dest: last_in_set)
qed auto

lemma cleanPath_cases:
  obtains (root) "cleanPath p = ''/''"
  | (plain) ss where "ss \<noteq> []" "list_all proper ss" "cleanPath p = CHR ''/'' # Join ss ''/''"
  | (slashed) ss where "ss \<noteq> []" "list_all proper ss" "cleanPath p = CHR ''/'' # Join ss ''/'' @ ''/''"
proof (cases "p = []")
  case False
  let ?q = "if hd p \<noteq> CHR ''/'' then CHR ''/'' # p else p"
  obtain ss where ss: "path_Clean ?q = CHR ''/'' # Join ss ''/''" "list_all proper ss" by (rule path_Clean_obtain)
  have c: "cleanPath p = (if last ?q = CHR ''/'' \<and> path_Clean ?q \<noteq> ''/'' then path_Clean ?q @ ''/'' else path_Clean ?q)"
    using False by (simp only: cleanPath_def Let_def if_False)
  show ?thesis
  proof (cases "ss = []")
    case True
    then show ?thesis using root c ss(1) by simp
  next
    case False
    then show ?thesis using plain [OF False ss(2)] slashed [OF False ss(2)] c ss(1) by (auto split: if_splits)
  qed
qed (use root in \<open>simp add: cleanPath_def\<close>)

lemma cleanPath_slash:
  "cleanPath (CHR ''/'' # t) =
     (if last (CHR ''/'' # t) = CHR ''/'' \<and> path_Clean (CHR ''/'' # t) \<noteq> ''/''
      then path_Clean (CHR ''/'' # t) @ ''/'' else path_Clean (CHR ''/'' # t))"
  by (simp only: cleanPath_def Let_def list.sel list.distinct if_False simp_thms)

text \<open>A path that has been cleaned is clean, so that a redirection never leads to another one.\<close>

lemma cleanPath_idem: "cleanPath (cleanPath p) = cleanPath p"
proof (cases p rule: cleanPath_cases)
  case root
  have "cleanPath ''/'' = ''/''" by code_simp
  then show ?thesis by (simp add: root)
next
  case (plain ss)
  have "last (CHR ''/'' # Join ss ''/'') \<noteq> CHR ''/''" using last_Join [OF plain(2,1)] by simp
  then have "cleanPath (CHR ''/'' # Join ss ''/'') = path_Clean (CHR ''/'' # Join ss ''/'')"
    by (simp add: cleanPath_slash)
  then show ?thesis by (simp only: plain(3) path_Clean_segments [OF plain(2)])
next
  case (slashed ss)
  have "path_Clean (CHR ''/'' # Join ss ''/'' @ ''/'') = path_Clean (CHR ''/'' # Join ss ''/'')"
    using clean_segments_snoc [of "[]"] Split_snoc_sep [of "Join ss ''/''" "CHR ''/''"] by (simp add: path_Clean_def)
  then have "path_Clean (CHR ''/'' # Join ss ''/'' @ ''/'') = CHR ''/'' # Join ss ''/''"
    using path_Clean_segments [OF slashed(2)] by simp
  moreover have "CHR ''/'' # Join ss ''/'' \<noteq> ''/''" using last_Join [OF slashed(2,1)] by simp
  ultimately have "cleanPath (CHR ''/'' # Join ss ''/'' @ ''/'') = CHR ''/'' # Join ss ''/'' @ ''/''"
    by (simp add: cleanPath_slash)
  then show ?thesis by (simp only: slashed(3))
qed

end
