(* ===== verification/Http.thy ===== *)
theory Http
  imports Engine Observability GoPath
begin

text \<open>
  \<open>internal/httpapi\<close>: the ForwardAuth endpoint. A handler is a transformer of the response writer,
  the metrics, the log and the engine's world, and ends normally or with a panic; what the client
  gets is the writer's state once the handler is over. The text behind \<open>/metrics\<close>, the Prometheus
  exposition, is an argument.
\<close>

subsection \<open>The response writer\<close>

record writer =
  wr_status :: "int option"
  wr_header :: "(string \<times> string) list"
  wr_body :: string
  wr_wrote :: bool

definition new_writer :: writer where
  "new_writer = \<lparr>wr_status = None, wr_header = [], wr_body = [], wr_wrote = False\<rparr>"

record response =
  rsp_Status :: int
  rsp_ContentType :: string
  rsp_Body :: string

datatype http_log =
  EngineEvent log_event
| BodyUnreadable goerror
| BodyTruncated int string
| RequestBlocked string string string int duration bool
| PanicAllowed string

record 'w hstate =
  hs_rw :: writer
  hs_metrics :: "metrics option"
  hs_log :: "http_log list"
  hs_world :: 'w

text \<open>A handler's body: \<open>Some m\<close> when it panics with \<open>m\<close>.\<close>

type_synonym 'w body = "'w hstate \<Rightarrow> string option \<times> 'w hstate"

definition seq :: "'w body \<Rightarrow> 'w body \<Rightarrow> 'w body" where
  "seq f g s = (case f s of (None, s') \<Rightarrow> g s' | (Some m, s') \<Rightarrow> (Some m, s'))"

text \<open>
  \<open>http.ResponseWriter.WriteHeader\<close>: an impossible code panics, a second call changes nothing. The
  wrapper notes the attempt first.
\<close>

definition rw_WriteHeader :: "int \<Rightarrow> 'w body" where
  "rw_WriteHeader code s =
     (if code < 100 \<or> code > 999 then (Some ''invalid WriteHeader code'', s)
      else (None, s\<lparr>hs_rw := (case wr_status (hs_rw s) of
              None \<Rightarrow> (hs_rw s)\<lparr>wr_status := Some code\<rparr>
            | Some _ \<Rightarrow> hs_rw s)\<rparr>))"

definition rw_Write :: "string \<Rightarrow> 'w body" where
  "rw_Write b s =
     (None, s\<lparr>hs_rw := (hs_rw s)\<lparr>wr_status := (case wr_status (hs_rw s) of None \<Rightarrow> Some 200 | Some c \<Rightarrow> Some c),
        wr_body := wr_body (hs_rw s) @ b\<rparr>\<rparr>)"

definition mark_wrote :: "'w hstate \<Rightarrow> 'w hstate" where
  "mark_wrote s = s\<lparr>hs_rw := (hs_rw s)\<lparr>wr_wrote := True\<rparr>\<rparr>"

definition aw_WriteHeader :: "int \<Rightarrow> 'w body" where "aw_WriteHeader code s = rw_WriteHeader code (mark_wrote s)"

definition aw_Write :: "string \<Rightarrow> 'w body" where "aw_Write b s = rw_Write b (mark_wrote s)"

definition set_header :: "string \<Rightarrow> string \<Rightarrow> 'w body" where
  "set_header n v s = (None, s\<lparr>hs_rw := (hs_rw s)\<lparr>wr_header := (n, v) # filter (\<lambda>h. fst h \<noteq> n) (wr_header (hs_rw s))\<rparr>\<rparr>)"

definition hlog :: "http_log \<Rightarrow> 'w hstate \<Rightarrow> 'w hstate" where
  "hlog e s = s\<lparr>hs_log := hs_log s @ [e]\<rparr>"

definition with_metrics :: "(metrics \<Rightarrow> metrics) \<Rightarrow> 'w hstate \<Rightarrow> 'w hstate" where
  "with_metrics f s = s\<lparr>hs_metrics := map_option f (hs_metrics s)\<rparr>"

subsection \<open>The original request\<close>

record http_request =
  hr_Method :: string
  hr_Header :: header
  hr_Path :: string
  hr_RawQuery :: string
  hr_Body :: "(string \<times> goerror option) option"

definition headerForwardedURI :: string where "headerForwardedURI = ''X-Forwarded-Uri''"
definition headerForwardedMethod :: string where "headerForwardedMethod = ''X-Forwarded-Method''"

definition originalPath :: "http_request \<Rightarrow> string" where
  "originalPath r =
     (let uri = Header_Get (hr_Header r) headerForwardedURI
      in if uri = [] then hr_Path r
         else (let i = IndexByte uri (CHR ''?'') in if i \<ge> 0 then take (nat i) uri else uri))"

definition originalQuery :: "http_request \<Rightarrow> string" where
  "originalQuery r =
     (let uri = Header_Get (hr_Header r) headerForwardedURI
      in if uri = [] then hr_RawQuery r
         else (let i = IndexByte uri (CHR ''?'') in if i \<ge> 0 then drop (nat i + 1) uri else []))"

definition originalMethod :: "http_request \<Rightarrow> string" where
  "originalMethod r =
     (let m = Header_Get (hr_Header r) headerForwardedMethod in if m \<noteq> [] then m else hr_Method r)"

definition retryAfterSeconds :: "duration \<Rightarrow> int" where
  "retryAfterSeconds d = (if d \<le> 0 then 1 else \<lceil>Seconds d\<rceil>)"

subsection \<open>The handler\<close>

record 'w handler =
  h_engine :: "'w engine"
  h_maxBody :: int
  h_response :: response
  h_responses :: "string \<rightharpoonup> response"

record 'w options =
  o_Engine :: "'w engine"
  o_Response :: response
  o_Responses :: "string \<rightharpoonup> response"
  o_MaxBodyBytes :: int

definition default_body :: string where
  "default_body = [CHR ''{'', CHR 0x22] @ ''error'' @ [CHR 0x22, CHR '':'', CHR 0x22] @ ''rate_limited'' @ [CHR 0x22, CHR ''}'']"

definition Http_New :: "'w options \<Rightarrow> 'w handler" where
  "Http_New opts =
     (let maxBody = (if o_MaxBodyBytes opts \<le> 0 then 262144 else o_MaxBodyBytes opts);
          r0 = o_Response opts;
          r1 = (if rsp_Status r0 = 0 then r0\<lparr>rsp_Status := 429\<rparr> else r0);
          r2 = (if rsp_Body r1 = []
                then (let r = r1\<lparr>rsp_Body := default_body\<rparr>
                      in if rsp_ContentType r = [] then r\<lparr>rsp_ContentType := ''application/json''\<rparr> else r)
                else r1)
      in \<lparr>h_engine = o_Engine opts, h_maxBody = maxBody, h_response = r2, h_responses = o_Responses opts\<rparr>)"

text \<open>
  \<open>io.ReadAll\<close> of a reader limited to \<open>n\<close> bytes. A body is the bytes it delivers and the error it
  ends with, if any; the limit hides an error that lies beyond it.
\<close>

definition ReadAll_limited :: "int \<Rightarrow> string \<times> goerror option \<Rightarrow> goerror + string" where
  "ReadAll_limited n body = (case body of (content, err) \<Rightarrow>
     if n \<le> int (length content) then Inr (take (nat n) content)
     else (case err of Some e \<Rightarrow> Inl e | None \<Rightarrow> Inr content))"

definition readBody :: "'w handler \<Rightarrow> http_request \<Rightarrow> 'w hstate \<Rightarrow> (string \<times> bool) \<times> 'w hstate" where
  "readBody h r s =
     (case hr_Body r of
        None \<Rightarrow> (([], False), s)
      | Some body \<Rightarrow>
          (case ReadAll_limited (wrap64 (h_maxBody h + 1)) body of
             Inl e \<Rightarrow> (([], False), hlog (BodyUnreadable e) s)
           | Inr b \<Rightarrow> if int (length b) > h_maxBody h then ((take (nat (h_maxBody h)) b, True), s)
                      else ((b, False), s)))"

definition record_evaluation :: "evaluation \<Rightarrow> metrics \<Rightarrow> metrics" where
  "record_evaluation e m =
     (let m' = RecordDecision (ev_Limiter e) (Verdict_text (ev_Verdict e)) m
      in if ev_Verdict e = VerdictFailedOpen then RecordStoreError m' else m')"

definition record_metrics :: "decision \<Rightarrow> metrics \<Rightarrow> metrics" where
  "record_metrics d m =
     (if d_Evaluations d = [] then RecordDecision [] (Verdict_text VerdictAllowed) m
      else fold record_evaluation (d_Evaluations d) m)"

definition record_decision :: "decision \<Rightarrow> 'w hstate \<Rightarrow> 'w hstate" where
  "record_decision d s = with_metrics (record_metrics d) s"

definition chosen_response :: "'w handler \<Rightarrow> decision \<Rightarrow> response" where
  "chosen_response h d = (case h_responses h (d_Limiter d) of Some r \<Rightarrow> r | None \<Rightarrow> h_response h)"

definition writeBlocked :: "'w handler \<Rightarrow> decision \<Rightarrow> 'w body" where
  "writeBlocked h d =
     (let resp = chosen_response h d
      in seq (if rsp_ContentType resp \<noteq> [] then set_header ''Content-Type'' (rsp_ContentType resp) else Pair None)
        (seq (if d_AdviseRetryAfter d then set_header ''Retry-After'' (Itoa (retryAfterSeconds (d_RetryAfter d))) else Pair None)
          (seq (aw_WriteHeader (rsp_Status resp)) (aw_Write (rsp_Body resp)))))"

definition run_engine :: "unicode \<Rightarrow> 'w handler \<Rightarrow> request \<Rightarrow> 'w hstate \<Rightarrow> decision \<times> 'w hstate" where
  "run_engine U h req s =
     (case Evaluate U (h_engine h) \<lparr>run_req = req, run_world = hs_world s, run_log = []\<rparr> of (d, x) \<Rightarrow>
        (d, s\<lparr>hs_world := run_world x, hs_log := hs_log s @ map EngineEvent (run_log x)\<rparr>))"

definition check_request :: "http_request \<Rightarrow> string \<Rightarrow> request" where
  "check_request r body = new_request (originalMethod r) (originalPath r) (hr_Header r) body (originalQuery r)"

definition note_truncated :: "'w handler \<Rightarrow> http_request \<Rightarrow> bool \<Rightarrow> 'w hstate \<Rightarrow> 'w hstate" where
  "note_truncated h r truncated s =
     (if truncated
      then with_metrics (RecordDecision ''body'' (Verdict_text VerdictFailedOpen))
             (hlog (BodyTruncated (h_maxBody h) (originalPath r)) s)
      else s)"

definition note_blocked :: "decision \<Rightarrow> request \<Rightarrow> 'w hstate \<Rightarrow> 'w hstate" where
  "note_blocked d req s =
     (if d_Blocked d
      then hlog (RequestBlocked (if d_DryRun d then ''request would have been blocked (dry run, allowed through)''
                                 else ''request blocked'')
             (d_Limiter d) (rq_Path req) (d_Count d) (d_RetryAfter d) (d_DryRun d)) s
      else s)"

text \<open>\<open>elapsed\<close> is what \<open>time.Since(start)\<close> reads when the handler ends, normally or not.\<close>

definition handleCheck :: "unicode \<Rightarrow> duration \<Rightarrow> 'w handler \<Rightarrow> http_request \<Rightarrow> 'w body" where
  "handleCheck U elapsed h r s0 =
     (case readBody h r s0 of ((body, truncated), s1) \<Rightarrow>
      let s2 = note_truncated h r truncated s1; req = check_request r body
      in case run_engine U h req s2 of (d, s3) \<Rightarrow>
         let s4 = note_blocked d req (record_decision d s3)
         in case (if Rejected d then writeBlocked h d s4 else aw_WriteHeader 200 s4) of (p, s5) \<Rightarrow>
              (p, with_metrics (ObserveCheck elapsed) s5))"

definition recoverAndAllow :: "'w body \<Rightarrow> 'w body" where
  "recoverAndAllow next s =
     (case next s of
        (None, s') \<Rightarrow> (None, s')
      | (Some m, s') \<Rightarrow>
          (let s1 = with_metrics (\<lambda>x. RecordStoreError (RecordDecision ''panic'' (Verdict_text VerdictFailedOpen) x))
                      (hlog (PanicAllowed m) s')
           in if \<not> wr_wrote (hs_rw s1) then rw_WriteHeader 200 s1 else (None, s1)))"

definition handleHealth :: "'w body" where
  "handleHealth = seq (set_header ''Content-Type'' ''text/plain; charset=utf-8'')
     (seq (rw_WriteHeader 200) (rw_Write ''ok''))"

definition handle_check_endpoint :: "unicode \<Rightarrow> duration \<Rightarrow> 'w handler \<Rightarrow> http_request \<Rightarrow> 'w body" where
  "handle_check_endpoint U elapsed h r = recoverAndAllow (handleCheck U elapsed h r)"

text \<open>The status the server sends: 200 when the handler returned without writing one.\<close>

definition sent_status :: "'w hstate \<Rightarrow> int" where
  "sent_status s = (case wr_status (hs_rw s) of Some c \<Rightarrow> c | None \<Rightarrow> 200)"

text \<open>The routes; \<open>exposition\<close> is the Prometheus handler's output.\<close>

definition http_error :: "int \<Rightarrow> string \<Rightarrow> 'w body" where
  "http_error code text = seq (set_header ''Content-Type'' ''text/plain; charset=utf-8'')
     (seq (set_header ''X-Content-Type-Options'' ''nosniff'') (seq (rw_WriteHeader code) (rw_Write (text @ [CHR 0x0A]))))"

definition get_only :: "http_request \<Rightarrow> 'w body \<Rightarrow> 'w body" where
  "get_only r f = (if hr_Method r = ''GET'' \<or> hr_Method r = ''HEAD'' then f
     else seq (set_header ''Allow'' ''GET, HEAD'') (http_error 405 ''Method Not Allowed''))"

definition routes ::
  "unicode \<Rightarrow> duration \<Rightarrow> (metrics \<Rightarrow> string) \<Rightarrow> 'w handler \<Rightarrow> http_request \<Rightarrow> 'w body" where
  "routes U elapsed exposition h r s =
     (if hr_Path r = ''/check'' then handle_check_endpoint U elapsed h r s
      else if hr_Path r = ''/healthz'' then get_only r handleHealth s
      else (case hs_metrics s of
              Some m \<Rightarrow> if hr_Path r = ''/metrics'' then get_only r (rw_Write (exposition m)) s
                        else http_error 404 ''404 page not found'' s
            | None \<Rightarrow> http_error 404 ''404 page not found'' s))"

text \<open>
  \<open>http.ServeMux\<close> in front of the routes: the request for \<open>*\<close> is bad, and an unclean path is
  redirected to the clean one, with its query.
\<close>

definition html_escape :: "string \<Rightarrow> string" where
  "html_escape s = concat (map (\<lambda>c. if c = CHR ''&'' then ''&amp;'' else if c = CHR ''<'' then ''&lt;''
     else if c = CHR ''>'' then ''&gt;'' else if c = CHR 0x22 then ''&#34;'' else if c = CHR 0x27 then ''&#39;'' else [c]) s)"

definition redirect :: "http_request \<Rightarrow> string \<Rightarrow> 'w body" where
  "redirect r url =
     seq (set_header ''Location'' url)
       (seq (if hr_Method r = ''GET'' \<or> hr_Method r = ''HEAD'' then set_header ''Content-Type'' ''text/html; charset=utf-8'' else Pair None)
         (seq (rw_WriteHeader 301)
           (if hr_Method r = ''GET''
            then rw_Write (''<a href='' @ [CHR 0x22] @ html_escape url @ [CHR 0x22] @ ''>Moved Permanently</a>.'' @ [CHR 0x0A, CHR 0x0A])
            else Pair None)))"

definition clean_url :: "http_request \<Rightarrow> string" where
  "clean_url r = cleanPath (hr_Path r) @ (if hr_RawQuery r = [] then [] else CHR ''?'' # hr_RawQuery r)"

definition ServeHTTP ::
  "unicode \<Rightarrow> duration \<Rightarrow> (metrics \<Rightarrow> string) \<Rightarrow> 'w handler \<Rightarrow> http_request \<Rightarrow> 'w body" where
  "ServeHTTP U elapsed exposition h r s =
     (if hr_Path r = ''*'' then seq (set_header ''Connection'' ''close'') (rw_WriteHeader 400) s
      else if hr_Method r \<noteq> ''CONNECT'' \<and> cleanPath (hr_Path r) \<noteq> hr_Path r then redirect r (clean_url r) s
      else routes U elapsed exposition h r s)"

lemma ServeHTTP_check:
  assumes "hr_Path r = ''/check''"
  shows "ServeHTTP U elapsed exposition h r = handle_check_endpoint U elapsed h r"
proof -
  have "cleanPath ''/check'' = ''/check''" by code_simp
  then show ?thesis using assms by (simp add: fun_eq_iff ServeHTTP_def routes_def)
qed

text \<open>
  Nothing but the check endpoint touches the store, and where a redirection leads, the next request
  is not redirected again.
\<close>

lemma ServeHTTP_world:
  assumes "hr_Path r \<noteq> ''/check''" "ServeHTTP U elapsed exposition h r s = (p, s')"
  shows "p = None \<and> hs_world s' = hs_world s \<and> hs_metrics s' = hs_metrics s"
  using assms
  by (auto simp: ServeHTTP_def routes_def redirect_def get_only_def handleHealth_def http_error_def seq_def set_header_def
      rw_WriteHeader_def rw_Write_def split: if_splits option.splits)

lemma redirect_once:
  assumes "hr_Path r' = cleanPath (hr_Path r)"
  shows "ServeHTTP U elapsed exposition h r' s = routes U elapsed exposition h r' s"
proof -
  have "cleanPath (hr_Path r) \<noteq> ''*''" by (cases "hr_Path r" rule: cleanPath_cases) simp_all
  with assms show ?thesis by (simp add: ServeHTTP_def cleanPath_idem)
qed

subsection \<open>The reply\<close>

text \<open>The body the handler inspects and the decision it takes, apart from the handler's own state.\<close>

definition check_body :: "'w handler \<Rightarrow> http_request \<Rightarrow> string \<times> bool" where
  "check_body h r = fst (readBody h r \<lparr>hs_rw = new_writer, hs_metrics = None, hs_log = [], hs_world = undefined\<rparr>)"

definition check_decision :: "unicode \<Rightarrow> 'w handler \<Rightarrow> http_request \<Rightarrow> 'w \<Rightarrow> decision" where
  "check_decision U h r w = fst (Evaluate U (h_engine h)
     \<lparr>run_req = check_request r (fst (check_body h r)), run_world = w, run_log = []\<rparr>)"

definition check_world :: "unicode \<Rightarrow> 'w handler \<Rightarrow> http_request \<Rightarrow> 'w \<Rightarrow> 'w" where
  "check_world U h r w = run_world (snd (Evaluate U (h_engine h)
     \<lparr>run_req = check_request r (fst (check_body h r)), run_world = w, run_log = []\<rparr>))"

lemma readBody_pure: "readBody h r s = (b, s') \<Longrightarrow> b = check_body h r \<and> hs_world s' = hs_world s \<and> hs_rw s' = hs_rw s
    \<and> hs_metrics s' = hs_metrics s"
  by (auto simp: check_body_def readBody_def hlog_def split: option.splits sum.splits if_splits)

lemma note_simps [simp]:
  "hs_rw (note_truncated h r b s) = hs_rw s" "hs_world (note_truncated h r b s) = hs_world s"
  "hs_rw (note_blocked d q s) = hs_rw s" "hs_world (note_blocked d q s) = hs_world s"
  "hs_rw (record_decision d s) = hs_rw s" "hs_world (record_decision d s) = hs_world s"
  "hs_rw (with_metrics f s) = hs_rw s" "hs_world (with_metrics f s) = hs_world s"
  "hs_rw (hlog e s) = hs_rw s" "hs_world (hlog e s) = hs_world s"
  by (simp_all add: note_truncated_def note_blocked_def record_decision_def with_metrics_def hlog_def)

definition reply_headers :: "response \<Rightarrow> decision \<Rightarrow> (string \<times> string) list" where
  "reply_headers resp d =
     (if d_AdviseRetryAfter d then [(''Retry-After'', Itoa (retryAfterSeconds (d_RetryAfter d)))] else []) @
     (if rsp_ContentType resp \<noteq> [] then [(''Content-Type'', rsp_ContentType resp)] else [])"

definition valid_status :: "int \<Rightarrow> bool" where "valid_status c \<longleftrightarrow> 100 \<le> c \<and> c \<le> 999"

lemma writeBlocked_reply:
  assumes "hs_rw s = new_writer" "writeBlocked h d s = (p, s')"
  shows "hs_world s' = hs_world s \<and>
    (if valid_status (rsp_Status (chosen_response h d))
     then p = None \<and> hs_rw s' = \<lparr>wr_status = Some (rsp_Status (chosen_response h d)),
       wr_header = reply_headers (chosen_response h d) d, wr_body = rsp_Body (chosen_response h d), wr_wrote = True\<rparr>
     else p \<noteq> None \<and> wr_status (hs_rw s') = None \<and> wr_body (hs_rw s') = [] \<and> wr_wrote (hs_rw s'))"
  using assms
  by (auto simp: writeBlocked_def seq_def set_header_def aw_WriteHeader_def aw_Write_def rw_WriteHeader_def
      rw_Write_def mark_wrote_def new_writer_def reply_headers_def valid_status_def Let_def split: if_splits)

lemma handleCheck_reply:
  assumes "hs_rw s = new_writer" "handleCheck U el h r s = (p, s')"
  shows "hs_world s' = check_world U h r (hs_world s) \<and>
    (if Rejected (check_decision U h r (hs_world s))
     then (let d = check_decision U h r (hs_world s); resp = chosen_response h d
           in if valid_status (rsp_Status resp)
              then p = None \<and> hs_rw s' = \<lparr>wr_status = Some (rsp_Status resp), wr_header = reply_headers resp d,
                     wr_body = rsp_Body resp, wr_wrote = True\<rparr>
              else p \<noteq> None \<and> wr_status (hs_rw s') = None \<and> wr_body (hs_rw s') = [] \<and> wr_wrote (hs_rw s'))
     else p = None \<and> hs_rw s' = \<lparr>wr_status = Some 200, wr_header = [], wr_body = [], wr_wrote = True\<rparr>)"
proof -
  let ?d = "check_decision U h r (hs_world s)"
  obtain body tr s1 where b: "readBody h r s = ((body, tr), s1)" by (metis surj_pair)
  have s1: "(body, tr) = check_body h r" "hs_world s1 = hs_world s" "hs_rw s1 = new_writer"
    using readBody_pure [OF b] assms(1) by simp_all
  define s2 where "s2 = note_truncated h r tr s1"
  obtain d s3 where e: "run_engine U h (check_request r body) s2 = (d, s3)" by (metis surj_pair)
  have body: "body = fst (check_body h r)" using s1(1) by (metis fst_conv)
  have d: "d = ?d" "hs_world s3 = check_world U h r (hs_world s)" "hs_rw s3 = new_writer"
    using e s1 by (auto simp: run_engine_def check_decision_def check_world_def body s2_def split: prod.splits)
  define s4 where "s4 = note_blocked d (check_request r body) (record_decision d s3)"
  have s4: "hs_rw s4 = new_writer" "hs_world s4 = check_world U h r (hs_world s)" using d by (simp_all add: s4_def)
  obtain p5 s5 where w5: "(if Rejected d then writeBlocked h d s4 else aw_WriteHeader 200 s4) = (p5, s5)"
    by (metis surj_pair)
  have "handleCheck U el h r s = (p5, with_metrics (ObserveCheck el) s5)"
    using b e w5 by (simp only: handleCheck_def Let_def s2_def s4_def prod.case)
  then have w: "(if Rejected d then writeBlocked h d s4 else aw_WriteHeader 200 s4) = (p, s5)"
    and s': "s' = with_metrics (ObserveCheck el) s5" using assms(2) w5 by simp_all
  show ?thesis
  proof (cases "Rejected d")
    case True
    with w have "writeBlocked h d s4 = (p, s5)" by simp
    from writeBlocked_reply [OF s4(1) this] True show ?thesis by (simp add: s' d(1) s4 Let_def)
  next
    case False
    with w s4 show ?thesis
      by (auto simp: s' d(1) aw_WriteHeader_def rw_WriteHeader_def mark_wrote_def new_writer_def)
  qed
qed

lemma check_endpoint_reply:
  assumes "hs_rw s = new_writer" "handle_check_endpoint U el h r s = (p, s')"
  shows "p = None \<and> hs_world s' = check_world U h r (hs_world s) \<and>
    (let d = check_decision U h r (hs_world s); resp = chosen_response h d
     in if Rejected d \<and> valid_status (rsp_Status resp)
        then sent_status s' = rsp_Status resp \<and> wr_header (hs_rw s') = reply_headers resp d \<and>
          wr_body (hs_rw s') = rsp_Body resp
        else sent_status s' = 200 \<and> wr_body (hs_rw s') = [])"
proof -
  obtain p1 s1 where n: "handleCheck U el h r s = (p1, s1)" by (metis surj_pair)
  note R = handleCheck_reply [OF assms(1) n]
  show ?thesis
  proof (cases p1)
    case None
    then have "p = None" "s' = s1" using assms(2) n by (auto simp: handle_check_endpoint_def recoverAndAllow_def)
    with R None show ?thesis by (auto simp: sent_status_def Let_def split: if_splits)
  next
    case (Some m)
    then have "wr_wrote (hs_rw s1)" "wr_status (hs_rw s1) = None" "wr_body (hs_rw s1) = []"
      "\<not> (Rejected (check_decision U h r (hs_world s)) \<and>
          valid_status (rsp_Status (chosen_response h (check_decision U h r (hs_world s)))))"
      using R by (auto simp: Let_def split: if_splits)
    with R Some assms(2) n show ?thesis
      by (auto simp: handle_check_endpoint_def recoverAndAllow_def sent_status_def Let_def)
  qed
qed

text \<open>Whatever panics before a status is written is an allow.\<close>

lemma recoverAndAllow_allows:
  assumes "next s = (Some m, s1)" "wr_status (hs_rw s1) = None" "recoverAndAllow next s = (p, s')"
  shows "p = None \<and> sent_status s' = 200 \<and> hs_world s' = hs_world s1"
  using assms by (auto simp: recoverAndAllow_def rw_WriteHeader_def sent_status_def Let_def split: if_splits)

subsection \<open>Bodies, paths and queries\<close>

lemma readBody_bound: "h_maxBody h < max_int64 \<Longrightarrow> 0 \<le> h_maxBody h \<Longrightarrow>
    hr_Body r = Some (content, None) \<Longrightarrow>
    check_body h r = (take (nat (h_maxBody h)) content, int (length content) > h_maxBody h)"
  by (auto simp: check_body_def readBody_def ReadAll_limited_def min_int64_def split: if_splits)

lemma original_uri:
  assumes "Header_Get (hr_Header r) headerForwardedURI = uri" "uri \<noteq> []"
  shows "CHR ''?'' \<notin> set (originalPath r) \<and>
    uri = originalPath r @ (if CHR ''?'' \<in> set uri then CHR ''?'' # originalQuery r else []) \<and>
    (CHR ''?'' \<notin> set uri \<longrightarrow> originalQuery r = [])"
proof (cases "CHR ''?'' \<in> set uri")
  case True
  let ?q = "\<lambda>x. x \<noteq> CHR ''?''"
  have p: "originalPath r = takeWhile ?q uri"
    using True assms by (simp add: originalPath_def IndexByte_def takeWhile_eq_take [symmetric])
  have "dropWhile ?q uri \<noteq> []" using True by (simp add: dropWhile_eq_Nil_conv)
  then obtain c rest where d: "dropWhile ?q uri = c # rest" by (cases "dropWhile ?q uri") auto
  then have c: "c = CHR ''?''" using hd_dropWhile [of ?q uri] by simp
  have u: "uri = takeWhile ?q uri @ c # rest" using d by (metis takeWhile_dropWhile_id)
  have "originalQuery r = drop (length (takeWhile ?q uri) + 1) uri"
    using True assms by (simp add: originalQuery_def IndexByte_def)
  also have "\<dots> = rest" by (subst (2) u) simp
  finally show ?thesis using True p c u by (auto dest: set_takeWhileD)
next
  case False
  with assms show ?thesis by (simp add: originalPath_def originalQuery_def IndexByte_def)
qed

subsection \<open>Accounting\<close>

definition label :: "evaluation \<Rightarrow> string \<times> string" where
  "label e = (if ev_Limiter e = [] then ''none'' else ev_Limiter e, Verdict_text (ev_Verdict e))"

lemma record_evaluation_counts:
  "m_decisions (record_evaluation e m) l = m_decisions m l + (if label e = l then 1 else 0)"
  "m_storeErrors (record_evaluation e m) = m_storeErrors m + (if ev_Verdict e = VerdictFailedOpen then 1 else 0)"
  by (auto simp: record_evaluation_def RecordDecision_def RecordStoreError_def label_def Let_def)

lemma record_evaluations_counts:
  "m_decisions (fold record_evaluation es m) l = m_decisions m l + count_list (map label es) l"
  "m_storeErrors (fold record_evaluation es m) =
     m_storeErrors m + count_list (map ev_Verdict es) VerdictFailedOpen"
  by (induction es arbitrary: m) (simp_all add: record_evaluation_counts)

subsection \<open>Properties\<close>

text \<open>C22. The check endpoint never panics out of its handler and answers in one of two ways: with the
  configured refusal, its status, headers and body, when the engine rejects; with an empty 200
  otherwise, and also when the configured status is one the server would refuse to send. The world
  is left as the engine left it.\<close>

theorem check_reply:
  assumes "hs_rw s = new_writer" "handle_check_endpoint U el h r s = (p, s')"
  shows "p = None \<and> hs_world s' = check_world U h r (hs_world s) \<and>
    (let d = check_decision U h r (hs_world s); resp = chosen_response h d
     in if Rejected d \<and> valid_status (rsp_Status resp)
        then sent_status s' = rsp_Status resp \<and> wr_header (hs_rw s') = reply_headers resp d \<and>
          wr_body (hs_rw s') = rsp_Body resp
        else sent_status s' = 200 \<and> wr_body (hs_rw s') = [])"
  using check_endpoint_reply [OF assms] .

definition demo_handler :: "limiter list \<Rightarrow> (fake \<times> time) handler" where
  "demo_handler ls = Http_New \<lparr>o_Engine = demo_engine ls, o_Response = \<lparr>rsp_Status = 0, rsp_ContentType = [], rsp_Body = []\<rparr>,
     o_Responses = Map.empty, o_MaxBodyBytes = 4\<rparr>"

definition demo_check :: http_request where
  "demo_check = \<lparr>hr_Method = ''GET'', hr_Header = [(''X-Forwarded-Uri'', [''/login?next=a?b'']),
     (''X-Forwarded-Method'', [''POST'']), (''X-Id'', [''a''])],
     hr_Path = ''/check'', hr_RawQuery = [], hr_Body = Some (''abcdef'', None)\<rparr>"

definition demo_state :: "fake \<Rightarrow> (fake \<times> time) hstate" where
  "demo_state f = \<lparr>hs_rw = new_writer, hs_metrics = Some (NewMetrics ''m''), hs_log = [], hs_world = (f, 0)\<rparr>"

theorem check_reply_witness:
  "let h = demo_handler [demo_limiter ''a'' 1 False]; s = demo_state demo_memory;
       s' = snd (handle_check_endpoint plain_unicode 5 h demo_check s)
   in sent_status s' = 429 \<and> wr_header (hs_rw s') = [(''Retry-After'', ''30''), (''Content-Type'', ''application/json'')]"
proof -
  let ?h = "demo_handler [demo_limiter ''a'' 1 False]" and ?s = "demo_state demo_memory"
  let ?y = "handle_check_endpoint plain_unicode 5 ?h demo_check ?s"
  let ?d = "check_decision plain_unicode ?h demo_check (hs_world ?s)"
  have "hs_rw ?s = new_writer" by (simp add: demo_state_def)
  from check_reply [OF this, of plain_unicode 5 ?h demo_check "fst ?y" "snd ?y"]
  have "Rejected ?d \<and> valid_status (rsp_Status (chosen_response ?h ?d)) \<Longrightarrow>
      sent_status (snd ?y) = rsp_Status (chosen_response ?h ?d) \<and>
      wr_header (hs_rw (snd ?y)) = reply_headers (chosen_response ?h ?d) ?d" by (simp add: Let_def)
  moreover have d: "Rejected ?d" "rsp_Status (chosen_response ?h ?d) = 429" "d_AdviseRetryAfter ?d"
    "d_RetryAfter ?d = 30 * Second" "rsp_ContentType (chosen_response ?h ?d) = ''application/json''" "Itoa 30 = ''30''"
    by code_simp+
  moreover have "retryAfterSeconds (30 * Second) = 30"
    using ceiling_Seconds [of "30 * Second"] by (simp add: retryAfterSeconds_def Second_def)
  ultimately show ?thesis unfolding Let_def by (simp add: valid_status_def reply_headers_def)
qed

text \<open>A panic of the check handler is an allow: unless a status was already written, the client
  gets 200, and the panic is counted as a store error and as \<open>failed_open\<close>.\<close>

lemma panic_is_allowed:
  assumes "next s = (Some m, s1)" "wr_status (hs_rw s1) = None" "recoverAndAllow next s = (p, s')"
  shows "p = None \<and> sent_status s' = 200 \<and> hs_world s' = hs_world s1 \<and> PanicAllowed m \<in> set (hs_log s') \<and>
    (\<forall>x. hs_metrics s1 = Some x \<longrightarrow> (\<exists>y. hs_metrics s' = Some y \<and> m_storeErrors y = m_storeErrors x + 1 \<and>
       m_decisions y (''panic'', ''failed_open'') = m_decisions x (''panic'', ''failed_open'') + 1))"
  using assms
  by (auto simp: recoverAndAllow_def rw_WriteHeader_def sent_status_def with_metrics_def hlog_def RecordStoreError_def
      RecordDecision_def Let_def split: if_splits)

text \<open>C35. The keyers see at most the configured number of bytes of the body, and the request is marked
  as truncated exactly when there were more; a body that cannot be read counts as empty.\<close>

theorem body_is_bounded:
  assumes "0 < h_maxBody h" "h_maxBody h < max_int64" "hr_Body r = Some (content, err)"
  shows "check_body h r =
    (if err = None \<or> int (length content) > h_maxBody h
     then (take (nat (h_maxBody h)) content, int (length content) > h_maxBody h) else ([], False))"
  using assms by (auto simp: check_body_def readBody_def ReadAll_limited_def min_int64_def split: if_splits option.splits)

theorem body_is_bounded_witness: "check_body (demo_handler []) demo_check = (''abcd'', True)"
proof -
  have "0 < h_maxBody (demo_handler [])" "h_maxBody (demo_handler []) < max_int64"
    "hr_Body demo_check = Some (''abcdef'', None)"
    by (simp_all add: demo_handler_def Http_New_def demo_check_def max_int64_def)
  from body_is_bounded [OF this] show ?thesis by (simp add: demo_handler_def Http_New_def)
qed

text \<open>With the largest limit that the configuration accepts, the limit plus one wraps to a negative
  number and no byte of any body is inspected, and the request is not marked as truncated.\<close>

lemma body_limit_wraps:
  assumes "h_maxBody h = max_int64" "hr_Body r = Some (content, err)"
  shows "check_body h r = ([], False)"
  using assms
  by (simp add: check_body_def readBody_def ReadAll_limited_def wrap64_max int64_defs)

text \<open>C34. The advised wait survives the header: a client that parses \<open>Retry-After\<close> gets a whole number
  of seconds that covers the store's wait and exceeds it by less than a second, and at least one.\<close>

theorem retry_after_roundtrip:
  assumes "d \<le> 2000000 * Second"
  shows "\<exists>n. ParseInt (Itoa (retryAfterSeconds d)) = Some n \<and> 1 \<le> n \<and> d \<le> n * Second \<and>
    (0 < d \<longrightarrow> (n - 1) * Second < d)"
proof -
  let ?n = "retryAfterSeconds d"
  have n: "1 \<le> ?n \<and> d \<le> ?n * Second \<and> (0 < d \<longrightarrow> (?n - 1) * Second < d) \<and> ?n \<le> 2000000"
  proof (cases "0 < d")
    case True
    have "?n = (d + Second - 1) div Second" using True ceiling_Seconds [OF True assms] by (simp add: retryAfterSeconds_def)
    then have "d + Second - 1 = Second * ?n + (d + Second - 1) mod Second" by simp
    moreover have "0 \<le> (d + Second - 1) mod Second" "(d + Second - 1) mod Second < Second"
      by (simp_all add: Second_def)
    ultimately have "d \<le> ?n * Second" "(?n - 1) * Second < d" by (simp_all add: algebra_simps)
    with True assms show ?thesis by (simp add: Second_def)
  next
    case False
    then show ?thesis by (simp add: retryAfterSeconds_def Second_def)
  qed
  then have "ParseInt (Itoa ?n) = Some ?n" by (intro ParseInt_Itoa) (auto simp: int64_defs)
  with n show ?thesis by blast
qed

theorem retry_after_roundtrip_witness:
  "retryAfterSeconds (Second + 1) = 2 \<and> (\<exists>n. ParseInt (Itoa (retryAfterSeconds (Second + 1))) = Some n \<and>
     1 \<le> n \<and> Second + 1 \<le> n * Second)"
proof -
  have d: "0 < Second + 1" "Second + 1 \<le> 2000000 * Second" by (simp_all add: Second_def)
  have "retryAfterSeconds (Second + 1) = 2"
    using d(1) ceiling_Seconds [OF d] by (simp add: retryAfterSeconds_def Second_def)
  with retry_after_roundtrip [OF d(2)] show ?thesis by blast
qed

text \<open>Every evaluation of a decision is counted once under its limiter and verdict, a request that
  no limiter evaluated is counted once as allowed under \<open>none\<close>, and the store errors grow by the number
  of limiters that failed open.\<close>

lemma decision_is_counted:
  "m_decisions (record_metrics d m) l =
     m_decisions m l + (if d_Evaluations d = [] then (if l = (''none'', ''allowed'') then 1 else 0)
       else count_list (map label (d_Evaluations d)) l) \<and>
   m_storeErrors (record_metrics d m) = m_storeErrors m + length (opened d)"
proof -
  have "length (opened d) = count_list (map ev_Verdict (d_Evaluations d)) VerdictFailedOpen"
    by (simp add: opened_def count_list_eq_length_filter filter_map o_def eq_commute)
  then show ?thesis
    by (auto simp: record_metrics_def record_evaluations_counts RecordDecision_def Let_def)
qed

end
