(* ===== verification/Build.thy ===== *)
theory Build
  imports FileConfig Http
begin

text \<open>
  \<open>internal/config/build.go\<close>: from the validated file to limiters, keyers and responses. Reading a
  file and decoding YAML are arguments; a nil dereference of the source is a panic of the model.
\<close>

subsection \<open>Keyers\<close>

definition norm_fn :: "unicode \<Rightarrow> normaliserKind \<Rightarrow> normaliser option" where
  "norm_fn U n = (case n of
     NormDigits \<Rightarrow> Some Digits
   | NormLower \<Rightarrow> Some (Lower U)
   | NormTrim \<Rightarrow> Some TrimSpace
   | NormIPSubnet v4 v6 \<Rightarrow> Some (IPSubnet v4 v6)
   | NormNone \<Rightarrow> None)"

fun buildKeyer :: "unicode \<Rightarrow> hasher \<Rightarrow> key_spec \<Rightarrow> goerror + keyer \<times> bool"
  and buildChildren :: "unicode \<Rightarrow> hasher \<Rightarrow> key_spec list \<Rightarrow> goerror + keyer list \<times> bool" where
  "buildKeyer U hsh (KeySpec b hs q fs cs sep nrm hash) =
     (case parseNormaliser nrm of
        Inl e \<Rightarrow> Inl e
      | Inr kind \<Rightarrow>
          (let n = norm_fn U kind; h = (if hash then Some hsh else None)
           in if b \<noteq> [] then Inr (BodyField b n h, hash)
              else if hs \<noteq> [] then Inr (Header hs n h, hash)
              else if q \<noteq> [] then Inr (QueryParam q n h, hash)
              else if fs \<noteq> []
              then (case buildChildren U hsh fs of
                      Inl e \<Rightarrow> Inl e
                    | Inr (parts, needs) \<Rightarrow> Inr (First parts n h, needs \<or> hash))
              else if cs \<noteq> []
              then (case buildChildren U hsh cs of
                      Inl e \<Rightarrow> Inl e
                    | Inr (parts, needs) \<Rightarrow> Inr (Composite parts sep n h, needs \<or> hash))
              else Inl (Errorf ''key spec has no source'')))"
| "buildChildren U hsh [] = Inr ([], False)"
| "buildChildren U hsh (s # ss) =
     (case buildKeyer U hsh s of
        Inl e \<Rightarrow> Inl e
      | Inr (k, needs) \<Rightarrow>
          (case buildChildren U hsh ss of
             Inl e \<Rightarrow> Inl e
           | Inr (ks, anyHash) \<Rightarrow> Inr (k # ks, needs \<or> anyHash)))"

subsection \<open>Responses\<close>

definition DefaultResponse :: response where
  "DefaultResponse = \<lparr>rsp_Status = 429, rsp_ContentType = ''application/json'', rsp_Body = default_body\<rparr>"

definition resolveResponse ::
  "(string \<Rightarrow> goerror + string) \<Rightarrow> response_spec \<Rightarrow> response \<Rightarrow> goerror + response" where
  "resolveResponse readfile spec base =
     (let o1 = (if rs_Status spec \<noteq> 0 then base\<lparr>rsp_Status := rs_Status spec\<rparr> else base);
          o2 = (if rs_ContentType spec \<noteq> [] then o1\<lparr>rsp_ContentType := rs_ContentType spec\<rparr> else o1)
      in if rs_BodyFile spec \<noteq> []
         then (case readfile (rs_BodyFile spec) of
                 Inl e \<Rightarrow> Inl (Wrapf ''reading bodyFile'' e)
               | Inr body \<Rightarrow> Inr (o2\<lparr>rsp_Body := body\<rparr>))
         else if rs_Body spec \<noteq> [] then Inr (o2\<lparr>rsp_Body := rs_Body spec\<rparr>)
         else Inr o2)"

subsection \<open>Building\<close>

record built =
  b_Limiters :: "limiter list"
  b_Responses :: "string \<rightharpoonup> response"
  b_Default :: response
  b_Warnings :: "string list"

definition new_built :: "response \<Rightarrow> built" where
  "new_built d = \<lparr>b_Limiters = [], b_Responses = Map.empty, b_Default = d, b_Warnings = []\<rparr>"

definition hash_warning :: "string \<Rightarrow> string" where
  "hash_warning n = ''limiter '' @ n @ '' needs hashing but HASH_SECRET is empty: it is disabled and will not limit anything''"

definition make_limiter :: "lib \<Rightarrow> limiter_spec \<Rightarrow> keyer \<Rightarrow> limiter ret" where
  "make_limiter L spec k =
     (let l = \<lparr>lim_Name = ls_Name spec, lim_Rule = zero_rule, lim_Bucket = zero_bucket, lim_Keyer = keyer_method L k,
               lim_Paths = ls_Paths spec, lim_Methods = ls_Methods spec, lim_DryRun = ls_DryRun spec,
               lim_AdviseRetryAfter = ls_RetryAfter spec\<rparr>
      in case ls_Window spec of
           Some w \<Rightarrow> Ret (l\<lparr>lim_Rule := \<lparr>rule_Limit = ws_Limit w, rule_Window = ws_Window w, rule_Block = ws_Block w\<rparr>\<rparr>) None
         | None \<Rightarrow> (case ls_Bucket spec of
                      Some bk \<Rightarrow> Ret (l\<lparr>lim_Bucket := \<lparr>tb_Rate = bsp_Rate bk, tb_Burst = bsp_Burst bk\<rparr>\<rparr>) None
                    | None \<Rightarrow> Panic ''nil pointer dereference''))"

text \<open>One turn of the loop over the specs.\<close>

definition build_one ::
  "lib \<Rightarrow> (string \<Rightarrow> goerror + string) \<Rightarrow> string \<Rightarrow> limiter_spec \<Rightarrow> built \<Rightarrow> built ret" where
  "build_one L readfile secret spec b =
     (case ls_Key spec of
        None \<Rightarrow> Panic ''nil pointer dereference''
      | Some key \<Rightarrow>
          (case buildKeyer (lib_unicode L) (NewHMAC secret) key of
             Inl e \<Rightarrow> Ret b (Some (Wrapf (''limiter '' @ ls_Name spec) e))
           | Inr (k, needsHash) \<Rightarrow>
               if needsHash \<and> \<not> Available secret
               then Ret (b\<lparr>b_Warnings := b_Warnings b @ [hash_warning (ls_Name spec)]\<rparr>) None
               else (case make_limiter L spec k of
                       Panic m \<Rightarrow> Panic m
                     | Ret l _ \<Rightarrow>
                         (let b' = b\<lparr>b_Limiters := b_Limiters b @ [l]\<rparr>
                          in case ls_Response spec of
                               None \<Rightarrow> Ret b' None
                             | Some r \<Rightarrow>
                                 (case resolveResponse readfile r (b_Default b') of
                                    Inl e \<Rightarrow> Ret b' (Some (Wrapf (''limiter '' @ ls_Name spec) e))
                                  | Inr resp \<Rightarrow> Ret (b'\<lparr>b_Responses := (b_Responses b')(ls_Name spec \<mapsto> resp)\<rparr>) None)))))"

fun build_all ::
  "lib \<Rightarrow> (string \<Rightarrow> goerror + string) \<Rightarrow> string \<Rightarrow> limiter_spec list \<Rightarrow> built \<Rightarrow> built ret" where
  "build_all L readfile secret [] b = Ret b None"
| "build_all L readfile secret (s # ss) b =
     (case build_one L readfile secret s b of
        Ret b' None \<Rightarrow> build_all L readfile secret ss b'
      | other \<Rightarrow> other)"

definition warn_inactive :: "built \<Rightarrow> built" where
  "warn_inactive b = (if b_Limiters b = []
     then b\<lparr>b_Warnings := b_Warnings b @ [''no limiters are active: every request will be allowed'']\<rparr> else b)"

definition Build :: "lib \<Rightarrow> (string \<Rightarrow> goerror + string) \<Rightarrow> string \<Rightarrow> limiter_file \<Rightarrow> built ret" where
  "Build L readfile secret f =
     (case (case f_Response f of
              None \<Rightarrow> Inr DefaultResponse
            | Some r \<Rightarrow> resolveResponse readfile r DefaultResponse) of
        Inl e \<Rightarrow> Ret (new_built DefaultResponse) (Some e)
      | Inr d \<Rightarrow>
          (case build_all L readfile secret (f_Limiters f) (new_built d) of
             Ret b None \<Rightarrow> Ret (warn_inactive b) None
           | other \<Rightarrow> other))"

definition DryRunNames :: "built \<Rightarrow> string list" where
  "DryRunNames b = map lim_Name (filter lim_DryRun (b_Limiters b))"

definition Names :: "built \<Rightarrow> string list" where "Names b = map lim_Name (b_Limiters b)"

definition LoadFile ::
  "unicode \<Rightarrow> (string \<Rightarrow> goerror option) \<Rightarrow> (string \<Rightarrow> goerror + string) \<Rightarrow> (string \<Rightarrow> goerror + limiter_file) \<Rightarrow>
     string \<Rightarrow> goerror + limiter_file" where
  "LoadFile U stat readfile yaml path =
     (case readfile path of
        Inl e \<Rightarrow> Inl (Wrapf ''reading config'' e)
      | Inr bytes \<Rightarrow>
          (case yaml bytes of
             Inl e \<Rightarrow> Inl (Wrapf (''parsing config '' @ path) e)
           | Inr f \<Rightarrow> (case Validate U stat f of
                         [] \<Rightarrow> Inr f
                       | errs \<Rightarrow> Inl (Wrapf path (Errorf (''invalid configuration: '' @ Join errs [CHR 0x0A]))))))"

subsection \<open>Hashing\<close>

fun uses_hash :: "key_spec \<Rightarrow> bool" where
  "uses_hash (KeySpec b hs q fs cs sep nrm hash) = (hash \<or> list_ex uses_hash fs \<or> list_ex uses_hash cs)"

fun keyer_hashers :: "keyer \<Rightarrow> hasher option list" where
  "keyer_hashers (BodyField f n h) = [h]"
| "keyer_hashers (Header ns n h) = [h]"
| "keyer_hashers (QueryParam ns n h) = [h]"
| "keyer_hashers (First ps n h) = h # concat (map keyer_hashers ps)"
| "keyer_hashers (Composite ps s n h) = h # concat (map keyer_hashers ps)"

text \<open>The hashers of a built tree are the given one, exactly where some node asks for it.\<close>

definition hashed_by :: "hasher \<Rightarrow> bool \<Rightarrow> hasher option set \<Rightarrow> bool" where
  "hashed_by h needs hs \<longleftrightarrow> hs \<subseteq> {None, Some h} \<and> (needs \<longleftrightarrow> Some h \<in> hs)"

lemma hashed_by_node: "hashed_by h hash {if hash then Some h else None}"
  by (simp add: hashed_by_def)

lemma hashed_by_insert:
  "hashed_by h needs S \<Longrightarrow> hashed_by h (needs \<or> hash) (insert (if hash then Some h else None) S)"
  by (auto simp: hashed_by_def)

lemma buildKeyer_hashers:
  "buildKeyer U h k = Inr (kk, needs) \<Longrightarrow> hashed_by h needs (set (keyer_hashers kk))"
  "buildChildren U h ks = Inr (kks, any) \<Longrightarrow> hashed_by h any (\<Union>k \<in> set kks. set (keyer_hashers k))"
proof (induction U h k and U h ks arbitrary: kk needs and kks any rule: buildKeyer_buildChildren.induct)
  case (1 U h b hs q fs cs sep nrm hash)
  obtain kind where kind: "parseNormaliser nrm = Inr kind" using 1(3) by (auto split: sum.splits)
  consider "b \<noteq> [] \<or> hs \<noteq> [] \<or> q \<noteq> []" | "b = []" "hs = []" "q = []" "fs \<noteq> []" | "b = []" "hs = []" "q = []" "fs = []"
    by blast
  then show ?case
  proof cases
    case 1
    then have "set (keyer_hashers kk) = {if hash then Some h else None}" "needs = hash"
      using \<open>buildKeyer U h (KeySpec b hs q fs cs sep nrm hash) = Inr (kk, needs)\<close> kind
      by (auto simp: Let_def split: if_splits)
    then show ?thesis using hashed_by_node [of h hash] by simp
  next
    case 2
    then obtain parts n where p: "buildChildren U h fs = Inr (parts, n)" "needs = (n \<or> hash)"
      "kk = First parts (norm_fn U kind) (if hash then Some h else None)"
      using 1(3) kind by (auto simp: Let_def split: sum.splits)
    with 1(1) [OF kind refl refl] 2 have "hashed_by h n (\<Union>k \<in> set parts. set (keyer_hashers k))" by simp
    from hashed_by_insert [OF this, of hash] p show ?thesis by simp
  next
    case 3
    then obtain parts n where p: "buildChildren U h cs = Inr (parts, n)" "needs = (n \<or> hash)" "cs \<noteq> []"
      "kk = Composite parts sep (norm_fn U kind) (if hash then Some h else None)"
      using 1(3) kind by (auto simp: Let_def split: sum.splits if_splits)
    with 1(2) [OF kind refl refl] 3 have "hashed_by h n (\<Union>k \<in> set parts. set (keyer_hashers k))" by simp
    from hashed_by_insert [OF this, of hash] p show ?thesis by simp
  qed
next
  case (3 U h s ss)
  from 3(3) obtain k n where k: "buildKeyer U h s = Inr (k, n)" by (auto split: sum.splits)
  with 3(3) obtain ks a where ks: "buildChildren U h ss = Inr (ks, a)" "kks = k # ks" "any = (n \<or> a)"
    by (auto split: sum.splits)
  have "hashed_by h n (set (keyer_hashers k))" "hashed_by h a (\<Union>k \<in> set ks. set (keyer_hashers k))"
    using 3(1) [OF k] 3(2) [OF k refl ks(1)] by simp_all
  with ks show ?case by (auto simp: hashed_by_def)
qed (simp add: hashed_by_def)

lemma one_source:
  assumes "validate_node w (KeySpec b hs q fs cs sep nrm hash) = []"
  shows "(b \<noteq> [] \<or> hs \<noteq> [] \<or> q \<noteq> [] \<longrightarrow> fs = [] \<and> cs = []) \<and> (fs \<noteq> [] \<longrightarrow> cs = []) \<and>
    (b \<noteq> [] \<or> hs \<noteq> [] \<or> q \<noteq> [] \<or> fs \<noteq> [] \<or> cs \<noteq> []) \<and> (\<exists>kind. parseNormaliser nrm = Inr kind)"
  using assms by (auto simp: validate_node_def sources_def split: nat.splits if_splits sum.splits)

lemma validateKey_builds:
  "validateKey w k = [] \<Longrightarrow> \<exists>kk. buildKeyer U h k = Inr (kk, uses_hash k)"
  "validateKeys w kind i ks = [] \<Longrightarrow> \<exists>kks. buildChildren U h ks = Inr (kks, list_ex uses_hash ks)"
proof (induction w k and w kind i ks rule: validateKey_validateKeys.induct)
  case (1 w b hs q fs cs sep nrm hash)
  then have node: "validate_node w (KeySpec b hs q fs cs sep nrm hash) = []"
    and "\<exists>kks. buildChildren U h fs = Inr (kks, list_ex uses_hash fs)"
    "\<exists>kks. buildChildren U h cs = Inr (kks, list_ex uses_hash cs)" by auto
  then show ?case using one_source [OF node] by (auto simp: Let_def)
next
  case (3 w kind i c cs)
  then show ?case by auto
qed auto

subsection \<open>A validated file builds\<close>

definition readable :: "(string \<Rightarrow> goerror option) \<Rightarrow> (string \<Rightarrow> goerror + string) \<Rightarrow> bool" where
  "readable stat readfile \<longleftrightarrow> (\<forall>p. stat p = None \<longrightarrow> (\<exists>c. readfile p = Inr c))"

definition rejecting :: "response \<Rightarrow> bool" where "rejecting r \<longleftrightarrow> 400 \<le> rsp_Status r \<and> rsp_Status r \<le> 599"

lemma resolveResponse_ok:
  assumes "readable stat readfile" "response_ok stat (Some spec)" "rejecting base"
  shows "\<exists>r. resolveResponse readfile spec base = Inr r \<and> rejecting r"
proof -
  have "rs_BodyFile spec \<noteq> [] \<Longrightarrow> \<exists>c. readfile (rs_BodyFile spec) = Inr c"
    using assms(1,2) by (auto simp: readable_def response_ok_def)
  then show ?thesis using assms(2,3)
    by (auto simp: resolveResponse_def response_ok_def rejecting_def Let_def)
qed

text \<open>What every limiter of a built configuration satisfies.\<close>

definition built_limiter :: "lib \<Rightarrow> string \<Rightarrow> limiter \<Rightarrow> bool" where
  "built_limiter L secret l \<longleftrightarrow> Active l \<and> nameRe (lim_Name l) \<and>
     (\<exists>k. lim_Keyer l = keyer_method L k \<and> set (keyer_hashers k) \<subseteq> {None, Some (HMAC secret)} \<and>
        (Some (HMAC secret) \<in> set (keyer_hashers k) \<longrightarrow> secret \<noteq> []))"

definition built_ok :: "lib \<Rightarrow> string \<Rightarrow> built \<Rightarrow> bool" where
  "built_ok L secret b \<longleftrightarrow> list_all (built_limiter L secret) (b_Limiters b) \<and> rejecting (b_Default b) \<and>
     (\<forall>n r. b_Responses b n = Some r \<longrightarrow> rejecting r)"

definition kept :: "string \<Rightarrow> limiter_spec \<Rightarrow> bool" where
  "kept secret s \<longleftrightarrow> secret \<noteq> [] \<or> \<not> uses_hash (the (ls_Key s))"

lemma make_limiter_ok:
  assumes "limiter_ok stat spec" "set (keyer_hashers k) \<subseteq> {None, Some (HMAC secret)}"
    and "Some (HMAC secret) \<in> set (keyer_hashers k) \<longrightarrow> secret \<noteq> []"
  shows "\<exists>l. make_limiter L spec k = Ret l None \<and> built_limiter L secret l \<and> lim_Name l = ls_Name spec"
proof -
  have "nameRe (ls_Name spec)" using assms(1) by (simp add: limiter_ok_def)
  moreover have "(\<exists>w. ls_Window spec = Some w \<and> 1 \<le> ws_Limit w \<and> 0 < ws_Window w \<and> 0 < ws_Block w) \<or>
      (ls_Window spec = None \<and> (\<exists>bk. ls_Bucket spec = Some bk \<and> 1 \<le> bsp_Rate bk \<and> 1 \<le> bsp_Burst bk))"
    using assms(1) by (auto simp: limiter_ok_def spec_bounds duration_units split: option.splits)
  ultimately show ?thesis
    using assms(2,3)
    by (auto simp: make_limiter_def built_limiter_def Active_def Rule_Valid_def Bucket_Valid_def)
qed

lemma build_one_ok:
  assumes "limiter_ok stat spec" "readable stat readfile" "built_ok L secret b"
  shows "\<exists>b'. build_one L readfile secret spec b = Ret b' None \<and> built_ok L secret b' \<and>
    Names b' = Names b @ (if kept secret spec then [ls_Name spec] else []) \<and>
    b_Warnings b' = b_Warnings b @ (if kept secret spec then [] else [hash_warning (ls_Name spec)])"
proof -
  obtain key where key: "ls_Key spec = Some key" "validateKey [] key = []"
    using assms(1) by (auto simp: limiter_ok_def validateKey_iff)
  obtain k where k: "buildKeyer (lib_unicode L) (NewHMAC secret) key = Inr (k, uses_hash key)"
    using validateKey_builds(1) [OF key(2)] by blast
  have hs: "hashed_by (HMAC secret) (uses_hash key) (set (keyer_hashers k))"
    using buildKeyer_hashers(1) [OF k] by (simp add: NewHMAC_def)
  show ?thesis
  proof (cases "kept secret spec")
    case False
    with assms(3) key k show ?thesis by (auto simp: build_one_def kept_def Available_def built_ok_def Names_def)
  next
    case True
    then have "set (keyer_hashers k) \<subseteq> {None, Some (HMAC secret)}"
      "Some (HMAC secret) \<in> set (keyer_hashers k) \<longrightarrow> secret \<noteq> []"
      using hs key by (auto simp: kept_def hashed_by_def)
    then obtain l where l: "make_limiter L spec k = Ret l None" "built_limiter L secret l" "lim_Name l = ls_Name spec"
      using make_limiter_ok [OF assms(1)] by blast
    have resp: "\<exists>r'. resolveResponse readfile r (b_Default b) = Inr r' \<and> rejecting r'" if "ls_Response spec = Some r" for r
      using resolveResponse_ok [OF assms(2)] assms(1,3) that by (auto simp: limiter_ok_def built_ok_def)
    show ?thesis
      using True key k l resp assms(3)
      by (cases "ls_Response spec") (auto simp: build_one_def kept_def Available_def built_ok_def Names_def Let_def)
  qed
qed

lemma build_all_ok:
  "list_all (limiter_ok stat) specs \<Longrightarrow> readable stat readfile \<Longrightarrow> built_ok L secret b \<Longrightarrow>
     \<exists>b'. build_all L readfile secret specs b = Ret b' None \<and> built_ok L secret b' \<and>
       Names b' = Names b @ map ls_Name (filter (kept secret) specs) \<and>
       b_Warnings b' = b_Warnings b @ map (\<lambda>s. hash_warning (ls_Name s)) (filter (\<lambda>s. \<not> kept secret s) specs)"
proof (induction specs arbitrary: b)
  case (Cons s specs)
  from Cons.prems(1) have s: "limiter_ok stat s" by simp
  obtain b1 where b1: "build_one L readfile secret s b = Ret b1 None" "built_ok L secret b1"
    "Names b1 = Names b @ (if kept secret s then [ls_Name s] else [])"
    "b_Warnings b1 = b_Warnings b @ (if kept secret s then [] else [hash_warning (ls_Name s)])"
    using build_one_ok [OF s Cons.prems(2,3)] by blast
  with Cons.IH [OF _ Cons.prems(2) b1(2)] Cons.prems(1) show ?case by auto
qed simp

lemma Build_ok:
  assumes "Validate U stat f = []" "readable stat readfile"
  shows "\<exists>b. Build L readfile secret f = Ret b None \<and> built_ok L secret b \<and>
    Names b = map ls_Name (filter (kept secret) (f_Limiters f)) \<and>
    b_Warnings b = map (\<lambda>s. hash_warning (ls_Name s)) (filter (\<lambda>s. \<not> kept secret s) (f_Limiters f)) @
      (if Names b = [] then [''no limiters are active: every request will be allowed''] else [])"
proof -
  note v = Validate_ok [OF assms(1)]
  have d0: "rejecting DefaultResponse" by (simp add: rejecting_def DefaultResponse_def)
  then obtain d where d: "(case f_Response f of None \<Rightarrow> Inr DefaultResponse
      | Some r \<Rightarrow> resolveResponse readfile r DefaultResponse) = Inr d" "rejecting d"
    using v(4) resolveResponse_ok [OF assms(2) _ d0] by (cases "f_Response f") auto
  have "built_ok L secret (new_built d)" using d(2) by (simp add: built_ok_def new_built_def)
  from build_all_ok [OF v(1) assms(2) this] obtain b where b:
    "build_all L readfile secret (f_Limiters f) (new_built d) = Ret b None" "built_ok L secret b"
    "Names b = map ls_Name (filter (kept secret) (f_Limiters f))"
    "b_Warnings b = map (\<lambda>s. hash_warning (ls_Name s)) (filter (\<lambda>s. \<not> kept secret s) (f_Limiters f))"
    by (auto simp: Names_def new_built_def)
  then have "Build L readfile secret f = Ret (warn_inactive b) None" by (simp add: Build_def d(1))
  moreover have "built_ok L secret (warn_inactive b)" "Names (warn_inactive b) = Names b"
    using b(2) by (simp_all add: warn_inactive_def built_ok_def Names_def)
  moreover have "b_Warnings (warn_inactive b) = b_Warnings b @
      (if Names b = [] then [''no limiters are active: every request will be allowed''] else [])"
    by (simp add: warn_inactive_def Names_def)
  ultimately show ?thesis using b(3,4) by (intro exI [of _ "warn_inactive b"]) simp
qed

lemma built_names:
  assumes "Validate U stat f = []" "Names b = map ls_Name (filter (kept secret) (f_Limiters f))"
  shows "distinct (Names b)" "list_all separable (Names b)"
proof -
  note v = Validate_ok [OF assms(1)]
  show "distinct (Names b)" using v(2) assms(2) by (simp add: distinct_map_filter)
  show "list_all separable (Names b)"
    using v(1) nameRe_separable by (auto simp: assms(2) list_all_iff limiter_ok_def)
qed

subsection \<open>Properties\<close>


text \<open>A file with one limiter on a hashed header and one, in dry run, on a plain one.\<close>

definition demo_spec :: "string \<Rightarrow> string \<Rightarrow> bool \<Rightarrow> limiter_spec" where
  "demo_spec n hdr hash = \<lparr>ls_Name = n, ls_Key = Some (KeySpec [] [hdr] [] [] [] [] ''lower'' hash),
     ls_Window = Some \<lparr>ws_Limit = 5, ws_Window = Minute, ws_Block = Hour\<rparr>, ls_Bucket = None, ls_Paths = [''/login''],
     ls_Methods = [''POST''], ls_DryRun = (\<not> hash), ls_RetryAfter = True, ls_Response = None\<rparr>"

definition demo_file :: limiter_file where
  "demo_file = \<lparr>f_Response = None, f_Limiters = [demo_spec ''token'' ''Authorization'' True, demo_spec ''ip'' ''X-Id'' False]\<rparr>"

lemma demo_file_valid: "Validate (lib_unicode plain_lib) (\<lambda>_. None) demo_file = []"
proof -
  have "parseNormaliser ''lower'' = Inr NormLower" by code_simp
  moreover have "list_all (\<lambda>p. path_problem p = None) [''/login'']" "nameRe ''token''" "nameRe ''ip''" "methodRe ''POST''"
    by code_simp+
  ultimately show ?thesis
    by (simp add: Validate_iff file_ok_def limiter_ok_def methods_ok_def response_ok_def demo_file_def demo_spec_def
        sources_def spec_bounds duration_units)
qed


text \<open>A subnet normaliser that the configuration accepts does group addresses: an IPv4 address is
  never its own bucket but replaced by its network and prefix length.\<close>

lemma subnet_groups_addresses:
  assumes "parseNormaliser name = Inr (NormIPSubnet v4 v6)" "ParseIP (TrimSpace s) = Some x" "To4 x = Some a"
  shows "norm_fn U (NormIPSubnet v4 v6) = Some (IPSubnet v4 v6) \<and>
    IPSubnet v4 v6 s = v4_text (Mask a (CIDRMask (nat v4) 32)) @ ''/'' @ Itoa v4 \<and> 0 \<le> v4 \<and> v4 \<le> 32"
  using parseNormaliser_subnet [OF assms(1)] IPSubnet_v4(1) [OF assms(2,3), of v4 v6]
  by (simp add: norm_fn_def CIDRMask_def)

end
