(* ===== verification/Breaker.thy ===== *)
theory Breaker
  imports Store
begin

text \<open>
  \<open>internal/store/breaker\<close>: the circuit breaker. The breaker's memory is a record beside the
  world of the store it wraps; \<open>allow\<close> and \<open>record_call\<close> are the two critical sections under its
  mutex, and \<open>Breaker_Consume\<close>, \<open>Breaker_Take\<close> run the inner call between them. A panic of the
  inner call leaves the frame before \<open>record_call\<close> is reached. The step relation at the end
  interleaves the critical sections of concurrent calls.
\<close>

subsection \<open>State and operations\<close>

definition ErrOpen :: goerror where
  "ErrOpen = Sentinel ''breaker: circuit open, store calls suppressed''"

record breaker =
  br_threshold :: int
  br_cooldown :: duration
  br_failures :: int
  br_openUntil :: time
  br_probing :: bool

definition Breaker_New :: "int \<Rightarrow> duration \<Rightarrow> breaker" where
  "Breaker_New threshold cooldown =
     \<lparr>br_threshold = threshold, br_cooldown = cooldown, br_failures = 0,
      br_openUntil = zero_time, br_probing = False\<rparr>"

definition isOpenLocked :: "breaker \<Rightarrow> bool" where
  "isOpenLocked b \<longleftrightarrow> br_openUntil b \<noteq> zero_time"

definition Breaker_Open :: "breaker \<Rightarrow> bool" where "Breaker_Open b = isOpenLocked b"

definition allow :: "'w clock \<Rightarrow> breaker \<times> 'w \<Rightarrow> bool \<times> breaker \<times> 'w" where
  "allow now = (\<lambda>(b, w).
     if br_threshold b \<le> 0 then (True, (b, w))
     else if \<not> isOpenLocked b then (True, (b, w))
     else if br_probing b then (False, (b, w))
     else (case now w of (t, w') \<Rightarrow>
            if t < br_openUntil b then (False, (b, w'))
            else (True, (b\<lparr>br_probing := True\<rparr>, w'))))"

definition record_call :: "'w clock \<Rightarrow> bool \<Rightarrow> breaker \<times> 'w \<Rightarrow> breaker \<times> 'w" where
  "record_call now success = (\<lambda>(b, w).
     if br_threshold b \<le> 0 then (b, w)
     else (let b1 = b\<lparr>br_probing := False\<rparr>
           in if success then (b1\<lparr>br_failures := 0, br_openUntil := zero_time\<rparr>, w)
              else (let b2 = b1\<lparr>br_failures := br_failures b1 + 1\<rparr>
                    in if br_failures b2 \<ge> br_threshold b2
                       then (case now w of (t, w') \<Rightarrow> (b2\<lparr>br_openUntil := t + br_cooldown b2\<rparr>, w'))
                       else (b2, w))))"

definition Breaker_Consume ::
  "'w store \<Rightarrow> 'w clock \<Rightarrow> key \<Rightarrow> rule \<Rightarrow> breaker \<times> 'w \<Rightarrow> result ret \<times> breaker \<times> 'w" where
  "Breaker_Consume inner now k r s =
     (case allow now s of
        (False, s1) \<Rightarrow> (Ret zero_result (Some ErrOpen), s1)
      | (True, (b1, w1)) \<Rightarrow>
          (case st_Consume inner k r w1 of
             (Panic m, w2) \<Rightarrow> (Panic m, (b1, w2))
           | (Ret res err, w2) \<Rightarrow> (Ret res err, record_call now (err = None) (b1, w2))))"

definition Breaker_Take ::
  "'w store \<Rightarrow> 'w clock \<Rightarrow> key \<Rightarrow> bucket \<Rightarrow> breaker \<times> 'w \<Rightarrow> take_result ret \<times> breaker \<times> 'w" where
  "Breaker_Take inner now k b s =
     (case allow now s of
        (False, s1) \<Rightarrow> (Ret zero_take_result (Some ErrOpen), s1)
      | (True, (b1, w1)) \<Rightarrow>
          (case st_Take inner k b w1 of
             (Panic m, w2) \<Rightarrow> (Panic m, (b1, w2))
           | (Ret res err, w2) \<Rightarrow> (Ret res err, record_call now (err = None) (b1, w2))))"

definition Breaker_Close :: "'w store \<Rightarrow> breaker \<times> 'w \<Rightarrow> goerror option \<times> breaker \<times> 'w" where
  "Breaker_Close inner = (\<lambda>(b, w). case st_Close inner w of (e, w') \<Rightarrow> (e, (b, w')))"

definition Breaker :: "'w store \<Rightarrow> 'w clock \<Rightarrow> (breaker \<times> 'w) store" where
  "Breaker inner now = \<lparr>st_Consume = Breaker_Consume inner now, st_Take = Breaker_Take inner now,
     st_Close = Breaker_Close inner\<rparr>"

subsection \<open>What the critical sections do\<close>

lemma allow_cases:
  assumes "allow now (b, w) = (ok, s')"
  obtains (closed) "br_threshold b \<le> 0 \<or> \<not> isOpenLocked b" "ok" "s' = (b, w)"
  | (busy) "0 < br_threshold b" "isOpenLocked b" "br_probing b" "\<not> ok" "s' = (b, w)"
  | (cooling) t w' where "0 < br_threshold b" "isOpenLocked b" "\<not> br_probing b" "now w = (t, w')"
      "t < br_openUntil b" "\<not> ok" "s' = (b, w')"
  | (probe) t w' where "0 < br_threshold b" "isOpenLocked b" "\<not> br_probing b" "now w = (t, w')"
      "br_openUntil b \<le> t" "ok" "s' = (b\<lparr>br_probing := True\<rparr>, w')"
  using assms by (fastforce simp: allow_def split: if_splits prod.splits)

lemma record_call_cases:
  assumes "record_call now success (b, w) = s'"
  obtains (disabled) "br_threshold b \<le> 0" "s' = (b, w)"
  | (success) "0 < br_threshold b" "success"
      "s' = (b\<lparr>br_probing := False, br_failures := 0, br_openUntil := zero_time\<rparr>, w)"
  | (below) "0 < br_threshold b" "\<not> success" "br_failures b + 1 < br_threshold b"
      "s' = (b\<lparr>br_probing := False, br_failures := br_failures b + 1\<rparr>, w)"
  | (trip) t w' where "0 < br_threshold b" "\<not> success" "br_threshold b \<le> br_failures b + 1" "now w = (t, w')"
      "s' = (b\<lparr>br_probing := False, br_failures := br_failures b + 1,
               br_openUntil := t + br_cooldown b\<rparr>, w')"
  using assms by (fastforce simp: record_call_def Let_def split: if_splits prod.splits)

lemma record_call_success:
  "0 < br_threshold b \<Longrightarrow> record_call now True (b, w) =
     (b\<lparr>br_probing := False, br_failures := 0, br_openUntil := zero_time\<rparr>, w)"
  by (simp add: record_call_def Let_def)

lemma Breaker_Consume_cases:
  assumes "Breaker_Consume inner now k r (b, w) = (x, s')"
  obtains (open_circuit) s1 where "allow now (b, w) = (False, s1)" "x = Ret zero_result (Some ErrOpen)" "s' = s1"
  | (panic) b1 w1 m w2 where "allow now (b, w) = (True, (b1, w1))" "st_Consume inner k r w1 = (Panic m, w2)"
      "x = Panic m" "s' = (b1, w2)"
  | (ret) b1 w1 res err w2 where "allow now (b, w) = (True, (b1, w1))"
      "st_Consume inner k r w1 = (Ret res err, w2)" "x = Ret res err"
      "s' = record_call now (err = None) (b1, w2)"
  using assms by (fastforce simp: Breaker_Consume_def split: prod.splits bool.splits ret.splits)

lemma Breaker_Take_cases:
  assumes "Breaker_Take inner now k bu (b, w) = (x, s')"
  obtains (open_circuit) s1 where "allow now (b, w) = (False, s1)" "x = Ret zero_take_result (Some ErrOpen)" "s' = s1"
  | (panic) b1 w1 m w2 where "allow now (b, w) = (True, (b1, w1))" "st_Take inner k bu w1 = (Panic m, w2)"
      "x = Panic m" "s' = (b1, w2)"
  | (ret) b1 w1 res err w2 where "allow now (b, w) = (True, (b1, w1))"
      "st_Take inner k bu w1 = (Ret res err, w2)" "x = Ret res err"
      "s' = record_call now (err = None) (b1, w2)"
  using assms by (fastforce simp: Breaker_Take_def split: prod.splits bool.splits ret.splits)

subsection \<open>The invariant\<close>

text \<open>
  The circuit is open exactly when the failures in a row have reached the threshold, and a probe
  is only ever out while it is open.
\<close>

definition breaker_inv :: "breaker \<Rightarrow> bool" where
  "breaker_inv b \<longleftrightarrow> 0 \<le> br_failures b \<and> 0 \<le> br_cooldown b \<and>
     (0 < br_threshold b \<longrightarrow> (isOpenLocked b \<longleftrightarrow> br_threshold b \<le> br_failures b)) \<and>
     (br_probing b \<longrightarrow> 0 < br_threshold b \<and> isOpenLocked b)"

lemma Breaker_New_inv: "0 \<le> cooldown \<Longrightarrow> breaker_inv (Breaker_New threshold cooldown)"
  by (simp add: breaker_inv_def Breaker_New_def isOpenLocked_def)

lemma allow_inv: "allow now (b, w) = (ok, (b', w')) \<Longrightarrow> breaker_inv b \<Longrightarrow> breaker_inv b'"
  by (erule allow_cases) (auto simp: breaker_inv_def isOpenLocked_def)

lemma record_call_inv:
  assumes "record_call now success (b, w) = (b', w')" "breaker_inv b" "\<And>t w1. now w = (t, w1) \<Longrightarrow> 0 < t"
  shows "breaker_inv b'"
  using assms(1)
proof (cases rule: record_call_cases)
  case (trip t w1)
  with assms(2) assms(3) [OF trip(4)] show ?thesis by (auto simp: breaker_inv_def isOpenLocked_def)
qed (use assms(2) in \<open>auto simp: breaker_inv_def isOpenLocked_def\<close>)

subsection \<open>The breaker keeps the contract of the store it wraps\<close>

locale breaker_over = inner: blocking_store now time_of S wait inv held slack
  for now :: "'w clock" and time_of :: "'w \<Rightarrow> time" and S :: "'w store"
    and wait :: "nat \<Rightarrow> 'w \<Rightarrow> 'w" and inv :: "'w \<Rightarrow> bool"
    and held :: "'w \<Rightarrow> key \<Rightarrow> time \<Rightarrow> bool" and slack :: duration
begin

lemma allow_world: "allow now (b, w) = (ok, (b', w')) \<Longrightarrow> w' = w \<or> (\<exists>t. now w = (t, w'))"
  by (erule allow_cases) auto

lemma record_world: "record_call now ok (b, w) = (b', w') \<Longrightarrow> w' = w \<or> (\<exists>t. now w = (t, w'))"
  by (erule record_call_cases) auto

lemma allow_time: "allow now (b, w) = (ok, (b', w')) \<Longrightarrow> time_of w \<le> time_of w'"
  using allow_world inner.now_mono by fastforce

lemma record_time: "record_call now ok (b, w) = (b', w') \<Longrightarrow> time_of w \<le> time_of w'"
  using record_world inner.now_mono by fastforce

lemma allow_held: "allow now (b, w) = (ok, (b', w')) \<Longrightarrow> held w k u \<Longrightarrow> held w' k u"
  using allow_world inner.now_held by fastforce

lemma record_held: "record_call now ok (b, w) = (b', w') \<Longrightarrow> held w k u \<Longrightarrow> held w' k u"
  using record_world inner.now_held by fastforce

lemma allow_keeps_inv: "allow now (b, w) = (ok, (b', w')) \<Longrightarrow> inv w \<Longrightarrow> inv w'"
  using allow_world inner.now_inv by fastforce

lemma record_keeps_inv: "record_call now ok (b, w) = (b', w') \<Longrightarrow> inv w \<Longrightarrow> inv w'"
  using record_world inner.now_inv by fastforce

lemma record_success_world: "record_call now True (b, w) = (b', w') \<Longrightarrow> w' = w"
  by (erule record_call_cases) auto

lemma breaker_consume_time:
  "Breaker_Consume S now k r (b, w) = (x, (b', w')) \<Longrightarrow> time_of w \<le> time_of w'"
  by (erule Breaker_Consume_cases)
    (auto dest!: allow_time record_time [OF sym] inner.consume_time)

lemma breaker_take_time:
  "Breaker_Take S now k bu (b, w) = (x, (b', w')) \<Longrightarrow> time_of w \<le> time_of w'"
  by (erule Breaker_Take_cases)
    (auto dest!: allow_time record_time [OF sym] inner.take_time)

lemma breaker_consume_inv:
  assumes "Breaker_Consume S now k r (b, w) = (x, (b', w'))" "good_key k" "inv w" shows "inv w'"
  using assms(1)
proof (cases rule: Breaker_Consume_cases)
  case (ret b1 w1 res err w2)
  then have "inv w2" using assms(2,3) allow_keeps_inv inner.consume_inv by blast
  with ret(4) [symmetric] record_keeps_inv show ?thesis by blast
qed (use assms allow_keeps_inv inner.consume_inv in blast)+

lemma breaker_take_inv:
  assumes "Breaker_Take S now k bu (b, w) = (x, (b', w'))" "good_key k" "inv w" shows "inv w'"
  using assms(1)
proof (cases rule: Breaker_Take_cases)
  case (ret b1 w1 res err w2)
  then have "inv w2" using assms(2,3) allow_keeps_inv inner.take_inv by blast
  with ret(4) [symmetric] record_keeps_inv show ?thesis by blast
qed (use assms allow_keeps_inv inner.take_inv in blast)+

lemma breaker_consume_reports:
  assumes "Breaker_Consume S now k r (b, w) = (Ret res None, (b', w'))" "good_key k" "inv w" "res_Blocked res"
  shows "held w' k (time_of w' + res_RetryAfter res - slack) \<or> res_RetryAfter res \<le> slack"
  using assms(1)
proof (cases rule: Breaker_Consume_cases)
  case (ret b1 w1 res' err w2)
  then have "w' = w2" using record_success_world [of b1 w2 b' w'] by auto
  moreover have "inv w1" using ret(1) assms(3) by (rule allow_keeps_inv)
  ultimately show ?thesis using ret assms(2,4) inner.consume_reports [of k r w1 res w2] by simp
qed simp_all

lemma breaker_consume_keeps:
  assumes "Breaker_Consume S now k r (b, w) = (x, (b', w'))" "good_key k" "good_key k'" "inv w" "held w k' u"
  shows "held w' k' u \<or> u \<le> time_of w'"
  using assms(1)
proof (cases rule: Breaker_Consume_cases)
  case (open_circuit s1)
  with assms(5) allow_held show ?thesis by auto
next
  case (panic b1 w1 m w2)
  with assms(2-5) allow_held allow_keeps_inv inner.consume_keeps show ?thesis by blast
next
  case (ret b1 w1 res err w2)
  then have "held w2 k' u \<or> u \<le> time_of w2"
    using assms(2-5) allow_held allow_keeps_inv inner.consume_keeps by blast
  with ret(4) [symmetric] record_held record_time show ?thesis by fastforce
qed

lemma breaker_take_keeps:
  assumes "Breaker_Take S now k bu (b, w) = (x, (b', w'))" "good_key k" "good_key k'" "inv w" "held w k' u"
  shows "held w' k' u \<or> u \<le> time_of w'"
  using assms(1)
proof (cases rule: Breaker_Take_cases)
  case (open_circuit s1)
  with assms(5) allow_held show ?thesis by auto
next
  case (panic b1 w1 m w2)
  with assms(2-5) allow_held allow_keeps_inv inner.take_keeps show ?thesis by blast
next
  case (ret b1 w1 res err w2)
  then have "held w2 k' u \<or> u \<le> time_of w2"
    using assms(2-5) allow_held allow_keeps_inv inner.take_keeps by blast
  with ret(4) [symmetric] record_held record_time show ?thesis by fastforce
qed

lemma breaker_consume_refuses:
  assumes "Breaker_Consume S now k r (b, w) = (Ret res None, (b', w'))" "good_key k" "inv w" "held w k u"
    "time_of w' < u"
  shows "res_Blocked res"
  using assms(1)
proof (cases rule: Breaker_Consume_cases)
  case (ret b1 w1 res' err w2)
  then have "w' = w2" using record_success_world [of b1 w2 b' w'] by auto
  with ret assms(2-5) allow_held allow_keeps_inv inner.consume_refuses show ?thesis by blast
qed simp_all

end

sublocale breaker_over \<subseteq> outer: blocking_store "lift_clock now" "\<lambda>x. time_of (snd x)"
  "Breaker S now" "lift_wait wait" "\<lambda>x. inv (snd x)" "\<lambda>x. held (snd x)" slack
proof -
  have clock: "monotone_clock (lift_clock now) (\<lambda>x :: breaker \<times> 'w. time_of (snd x))"
    by (rule lift_clock_monotone) (rule inner.monotone_clock_axioms)
  show "blocking_store (lift_clock now) (\<lambda>x. time_of (snd x)) (Breaker S now) (lift_wait wait)
      (\<lambda>x. inv (snd x)) (\<lambda>x. held (snd x)) slack"
    by (intro blocking_store.intro timed_store.intro clock; unfold_locales)
      (auto simp: Breaker_def lift_clock_eq inner.slack_nonneg inner.wait_time
        dest: inner.wait_inv inner.wait_held inner.now_held inner.now_inv inner.held_antimono breaker_consume_time breaker_take_time breaker_consume_inv
          breaker_take_inv breaker_consume_keeps breaker_take_keeps breaker_consume_refuses
          breaker_consume_reports)
qed

subsection \<open>Calls one after another\<close>

text \<open>A run of calls against a store, and the answers they get.\<close>

fun consume_all :: "'w store \<Rightarrow> (key \<times> rule) list \<Rightarrow> 'w \<Rightarrow> result ret list \<times> 'w" where
  "consume_all S [] w = ([], w)"
| "consume_all S ((k, r) # cs) w =
     (case st_Consume S k r w of (x, w1) \<Rightarrow> case consume_all S cs w1 of (xs, w2) \<Rightarrow> (x # xs, w2))"

lemma Breaker_Consume_closed:
  assumes "\<not> isOpenLocked b" "st_Consume inner k r w = (Ret res err, w1)"
  shows "Breaker_Consume inner now k r (b, w) = (Ret res err, record_call now (err = None) (b, w1))"
  using assms by (simp add: Breaker_Consume_def allow_def)

lemma Breaker_Consume_cooling:
  assumes "0 < br_threshold b" "isOpenLocked b" "\<not> br_probing b" "now w = (t, w')" "t < br_openUntil b"
  shows "Breaker_Consume inner now k r (b, w) = (Ret zero_result (Some ErrOpen), (b, w'))"
  using assms by (simp add: Breaker_Consume_def allow_def)

lemma failing_calls:
  fixes inner :: "'w store"
  assumes fails: "\<And>k r w. \<exists>res e w'. st_Consume inner k r w = (Ret res (Some e), w')"
    and pos: "\<And>w. 0 < fst (now w)"
    and "\<not> isOpenLocked b" "0 < br_threshold b" "0 \<le> br_cooldown b" "0 \<le> br_failures b"
    and "br_failures b + int (length cs) \<le> br_threshold b" "br_failures b < br_threshold b"
  shows "\<exists>b' w'. snd (consume_all (Breaker inner now) cs (b, w)) = (b', w') \<and>
     br_failures b' = br_failures b + int (length cs) \<and> br_threshold b' = br_threshold b \<and>
     (isOpenLocked b' \<longleftrightarrow> br_threshold b \<le> br_failures b + int (length cs))"
  using assms(3-)
proof (induction cs arbitrary: b w)
  case Nil
  then show ?case by simp
next
  case (Cons c cs)
  obtain k r where c: "c = (k, r)" by (cases c)
  obtain res e w1 where inner: "st_Consume inner k r w = (Ret res (Some e), w1)" using fails by blast
  obtain b1 w2 where rec: "record_call now False (b, w1) = (b1, w2)"
    by (cases "record_call now False (b, w1)")
  have call: "st_Consume (Breaker inner now) k r (b, w) = (Ret res (Some e), (b1, w2))"
    using Breaker_Consume_closed [OF Cons.prems(1) inner, of now] rec by (simp add: Breaker_def)
  show ?case
  proof (cases "br_failures b + 1 < br_threshold b")
    case True
    then have b1: "b1 = b\<lparr>br_probing := False, br_failures := br_failures b + 1\<rparr>"
      using rec Cons.prems by (simp add: record_call_def Let_def split: if_splits)
    have "\<not> isOpenLocked b1" using Cons.prems(1) b1 by (simp add: isOpenLocked_def)
    with Cons.IH [of b1 w2] Cons.prems True b1 show ?thesis
      by (auto simp: c call split: prod.splits)
  next
    case False
    obtain t w3 where now: "now w1 = (t, w3)" by (cases "now w1")
    have "0 < t" using pos [of w1] now by simp
    moreover have b1: "b1 = b\<lparr>br_probing := False, br_failures := br_failures b + 1,
        br_openUntil := t + br_cooldown b\<rparr>"
      using rec Cons.prems False now by (simp add: record_call_def Let_def split: if_splits)
    moreover have "cs = []" using Cons.prems(5) False by (cases cs) auto
    ultimately show ?thesis using Cons.prems False by (simp add: c call isOpenLocked_def)
  qed
qed

subsection \<open>Interleaved calls\<close>

text \<open>
  Calls run concurrently: each passes \<open>allow\<close> (one critical section), is in flight while the inner
  store works, and ends with \<open>record_call\<close> (another). \<open>sys_calls\<close> are the calls in flight,
  \<open>sys_probes\<close> those among them that were admitted to an open circuit. The flag says whether an
  inner call may panic: then it leaves without recording.
\<close>

record brsys =
  sys_b :: breaker
  sys_time :: time
  sys_calls :: "nat set"
  sys_probes :: "nat set"

definition init_sys :: "int \<Rightarrow> duration \<Rightarrow> time \<Rightarrow> brsys" where
  "init_sys threshold cooldown t =
     \<lparr>sys_b = Breaker_New threshold cooldown, sys_time = t, sys_calls = {}, sys_probes = {}\<rparr>"

inductive br_step :: "bool \<Rightarrow> brsys \<Rightarrow> brsys \<Rightarrow> bool" for panics where
  tick: "sys_time s \<le> t \<Longrightarrow> br_step panics s (s\<lparr>sys_time := t\<rparr>)"
| admit: "i \<notin> sys_calls s \<Longrightarrow> allow stopped (sys_b s, sys_time s) = (True, (b', t')) \<Longrightarrow>
     br_step panics s (s\<lparr>sys_b := b', sys_calls := insert i (sys_calls s),
       sys_probes := (if isOpenLocked (sys_b s) then insert i (sys_probes s) else sys_probes s)\<rparr>)"
| refuse: "allow stopped (sys_b s, sys_time s) = (False, (b', t')) \<Longrightarrow>
     br_step panics s (s\<lparr>sys_b := b'\<rparr>)"
| finish: "i \<in> sys_calls s \<Longrightarrow> record_call stopped ok (sys_b s, sys_time s) = (b', t') \<Longrightarrow>
     br_step panics s (s\<lparr>sys_b := b', sys_calls := sys_calls s - {i}, sys_probes := sys_probes s - {i}\<rparr>)"
| crash: "panics \<Longrightarrow> i \<in> sys_calls s \<Longrightarrow>
     br_step panics s (s\<lparr>sys_calls := sys_calls s - {i}, sys_probes := sys_probes s - {i}\<rparr>)"

inductive br_reach :: "bool \<Rightarrow> brsys \<Rightarrow> brsys \<Rightarrow> bool" for panics s0 where
  start: "br_reach panics s0 s0"
| step: "br_reach panics s0 s \<Longrightarrow> br_step panics s s' \<Longrightarrow> br_reach panics s0 s'"

inductive_cases br_stepE: "br_step panics s s'"

definition sys_inv :: "brsys \<Rightarrow> bool" where
  "sys_inv s \<longleftrightarrow> breaker_inv (sys_b s) \<and> 0 < sys_time s \<and> sys_probes s \<subseteq> sys_calls s"

lemma init_sys_inv: "0 \<le> cooldown \<Longrightarrow> 0 < t \<Longrightarrow> sys_inv (init_sys threshold cooldown t)"
  by (simp add: sys_inv_def init_sys_def Breaker_New_inv)

lemma br_step_inv:
  assumes "br_step panics s s'" "sys_inv s" shows "sys_inv s'"
  using assms
proof (induction rule: br_step.induct)
  case (admit i s b' t')
  then show ?case by (auto simp: sys_inv_def dest: allow_inv)
next
  case (refuse s b' t')
  then show ?case by (auto simp: sys_inv_def dest: allow_inv)
next
  case (finish i s ok b' t')
  then have "breaker_inv b'"
    by (auto simp: sys_inv_def stopped_def intro: record_call_inv)
  with finish show ?case by (auto simp: sys_inv_def)
qed (auto simp: sys_inv_def)

lemma br_reach_inv: "br_reach panics s0 s \<Longrightarrow> sys_inv s0 \<Longrightarrow> sys_inv s"
  by (induction rule: br_reach.induct) (auto intro: br_step_inv)

text \<open>Without panics a probe that is out is also in flight, so its end will clear the flag.\<close>

definition probe_tracked :: "brsys \<Rightarrow> bool" where
  "probe_tracked s \<longleftrightarrow> (br_probing (sys_b s) \<longrightarrow> sys_probes s \<noteq> {})"

lemma allow_probing:
  "allow now (b, w) = (True, (b', w')) \<Longrightarrow> br_probing b' \<Longrightarrow> breaker_inv b \<Longrightarrow> isOpenLocked b"
  by (erule allow_cases) (auto simp: breaker_inv_def)

lemma allow_refused_same: "allow now (b, w) = (False, (b', w')) \<Longrightarrow> b' = b"
  by (erule allow_cases) auto

lemma record_call_not_probing:
  "record_call now ok (b, w) = (b', w') \<Longrightarrow> breaker_inv b \<Longrightarrow> \<not> br_probing b'"
  by (erule record_call_cases) (auto simp: breaker_inv_def)

lemma br_step_tracked:
  assumes "br_step False s s'" "sys_inv s" "probe_tracked s" shows "probe_tracked s'"
  using assms
proof (induction rule: br_step.induct)
  case (admit i s b' t')
  then show ?case by (auto simp: probe_tracked_def sys_inv_def dest: allow_probing)
next
  case (refuse s b' t')
  then show ?case by (auto simp: probe_tracked_def dest: allow_refused_same)
next
  case (finish i s ok b' t')
  then show ?case by (auto simp: probe_tracked_def sys_inv_def dest: record_call_not_probing)
qed (auto simp: probe_tracked_def)

lemma br_reach_tracked:
  "br_reach False s0 s \<Longrightarrow> sys_inv s0 \<Longrightarrow> probe_tracked s0 \<Longrightarrow> probe_tracked s"
  by (induction rule: br_reach.induct) (auto intro: br_step_tracked br_reach_inv)

text \<open>A probe flag nobody is left to clear stays set, and every later call is refused.\<close>

definition wedged :: "brsys \<Rightarrow> bool" where
  "wedged s \<longleftrightarrow> 0 < br_threshold (sys_b s) \<and> isOpenLocked (sys_b s) \<and> br_probing (sys_b s) \<and> sys_calls s = {}"

lemma wedged_refuses: "wedged s \<Longrightarrow> allow now (sys_b s, w) = (False, (sys_b s, w))"
  by (simp add: wedged_def allow_def)

lemma br_step_wedged: "br_step panics s s' \<Longrightarrow> wedged s \<Longrightarrow> wedged s'"
  by (erule br_stepE) (auto simp: wedged_refuses, auto simp: wedged_def)

lemma br_reach_wedged: "br_reach panics s s' \<Longrightarrow> wedged s \<Longrightarrow> wedged s'"
  by (induction rule: br_reach.induct) (auto intro: br_step_wedged)

subsection \<open>Traces\<close>

text \<open>An executable scheduler: which step is taken next. A move that is not enabled is \<open>None\<close>.\<close>

datatype br_event = Tick time | Call nat | Finish nat bool | Crash nat

fun br_do :: "br_event \<Rightarrow> brsys \<Rightarrow> brsys option" where
  "br_do (Tick t) s = (if sys_time s \<le> t then Some (s\<lparr>sys_time := t\<rparr>) else None)"
| "br_do (Call i) s =
     (if i \<in> sys_calls s then None
      else (case allow stopped (sys_b s, sys_time s) of (ok, (b', t')) \<Rightarrow>
              if ok
              then Some (s\<lparr>sys_b := b', sys_calls := insert i (sys_calls s),
                 sys_probes := (if isOpenLocked (sys_b s) then insert i (sys_probes s) else sys_probes s)\<rparr>)
              else Some (s\<lparr>sys_b := b'\<rparr>)))"
| "br_do (Finish i ok) s =
     (if i \<in> sys_calls s
      then (case record_call stopped ok (sys_b s, sys_time s) of (b', t') \<Rightarrow>
              Some (s\<lparr>sys_b := b', sys_calls := sys_calls s - {i}, sys_probes := sys_probes s - {i}\<rparr>))
      else None)"
| "br_do (Crash i) s =
     (if i \<in> sys_calls s
      then Some (s\<lparr>sys_calls := sys_calls s - {i}, sys_probes := sys_probes s - {i}\<rparr>) else None)"

fun br_exec :: "br_event list \<Rightarrow> brsys \<Rightarrow> brsys option" where
  "br_exec [] s = Some s"
| "br_exec (e # es) s = Option.bind (br_do e s) (br_exec es)"

fun crashes :: "br_event \<Rightarrow> bool" where
  "crashes (Crash i) = True"
| "crashes _ = False"

lemma br_do_step:
  assumes "br_do e s = Some s'" "crashes e \<longrightarrow> panics" shows "br_step panics s s'"
proof (cases e)
  case (Call i)
  obtain ok b' t' where a: "allow stopped (sys_b s, sys_time s) = (ok, (b', t'))" by (metis prod_cases3)
  show ?thesis
  proof (cases ok)
    case True
    with a have a': "allow stopped (sys_b s, sys_time s) = (True, (b', t'))" by simp
    have "i \<notin> sys_calls s" using Call assms(1) by (simp split: if_splits)
    from br_step.admit [OF this a', of panics] this Call assms(1) a' show ?thesis by simp
  next
    case False
    with Call assms a show ?thesis by (auto intro: br_step.refuse split: if_splits)
  qed
next
  case (Finish i ok)
  with assms show ?thesis by (auto intro: br_step.finish split: if_splits prod.splits)
qed (use assms in \<open>auto intro: br_step.tick br_step.crash split: if_splits\<close>)

lemma br_exec_reach:
  "br_exec es s = Some s' \<Longrightarrow> br_reach panics s0 s \<Longrightarrow> list_all (\<lambda>e. crashes e \<longrightarrow> panics) es \<Longrightarrow>
     br_reach panics s0 s'"
proof (induction es arbitrary: s)
  case (Cons e es)
  then obtain s1 where "br_do e s = Some s1" "br_exec es s1 = Some s'" by (auto simp: bind_eq_Some_conv)
  with Cons br_do_step [of e s s1 panics] show ?case by (auto intro: br_reach.step)
qed simp

text \<open>Failing calls one after another bring a fresh breaker to its threshold.\<close>

definition tripping :: "int \<Rightarrow> duration \<Rightarrow> time \<Rightarrow> nat \<Rightarrow> brsys" where
  "tripping threshold cooldown t k =
     \<lparr>sys_b = \<lparr>br_threshold = threshold, br_cooldown = cooldown, br_failures = int k,
        br_openUntil = (if threshold \<le> int k then t + cooldown else zero_time), br_probing = False\<rparr>,
      sys_time = t, sys_calls = {}, sys_probes = {}\<rparr>"

lemma tripping_reach:
  assumes "0 < threshold" "int k \<le> threshold"
  shows "br_reach panics (init_sys threshold cooldown t) (tripping threshold cooldown t k)"
  using assms(2)
proof (induction k)
  case 0
  have "tripping threshold cooldown t 0 = init_sys threshold cooldown t"
    using assms(1) by (simp add: tripping_def init_sys_def Breaker_New_def)
  then show ?case by (simp add: br_reach.start)
next
  case (Suc k)
  have "br_exec [Call 0, Finish 0 False] (tripping threshold cooldown t k) = Some (tripping threshold cooldown t (Suc k))"
    using Suc.prems
    by (simp add: tripping_def allow_def record_call_def isOpenLocked_def stopped_def Let_def)
  from br_exec_reach [OF this] Suc show ?case by simp
qed

subsection \<open>Properties\<close>

text \<open>C16. Over a store whose every call fails, a new breaker opens with exactly the failure that
  brings the failures in a row to its threshold, neither before nor later.\<close>

theorem breaker_trips:
  fixes inner :: "'w store"
  assumes fails: "\<And>k r w. \<exists>res e w'. st_Consume inner k r w = (Ret res (Some e), w')"
    and pos: "\<And>w. 0 < fst (now w)"
    and "0 < threshold" "0 \<le> cooldown" "int (length cs) \<le> threshold"
  shows "Breaker_Open (fst (snd (consume_all (Breaker inner now) cs (Breaker_New threshold cooldown, w))))
    \<longleftrightarrow> int (length cs) = threshold"
proof -
  let ?b = "Breaker_New threshold cooldown"
  have b: "\<not> isOpenLocked ?b" "br_threshold ?b = threshold" "br_cooldown ?b = cooldown" "br_failures ?b = 0"
    by (simp_all add: Breaker_New_def isOpenLocked_def)
  obtain b' w' where "snd (consume_all (Breaker inner now) cs (?b, w)) = (b', w')"
    "isOpenLocked b' \<longleftrightarrow> threshold \<le> int (length cs)"
    using failing_calls [where now = now and inner = inner and b = ?b and cs = cs and w = w, OF fails pos b(1)]
      assms(3-5) b by auto
  then show ?thesis using assms(5) by (auto simp: Breaker_Open_def)
qed

definition dead_store :: "'w store" where
  "dead_store = \<lparr>st_Consume = (\<lambda>k r w. (Ret zero_result (Some ErrDisabled), w)),
     st_Take = (\<lambda>k b w. (Ret zero_take_result (Some ErrDisabled), w)), st_Close = Pair None\<rparr>"

theorem breaker_trips_witness:
  "let c = (\<lparr>key_Limiter = ''login'', key_Bucket = ''alice''\<rparr>, zero_rule); now = (\<lambda>w. (7, w));
       after = (\<lambda>n. fst (snd (consume_all (Breaker dead_store now) (replicate n c) (Breaker_New 3 (5 * Second), ()))))
   in \<not> Breaker_Open (after 2) \<and> Breaker_Open (after 3)"
proof -
  have f: "\<exists>res e w'. st_Consume dead_store k r w = (Ret res (Some e), w')" for k r and w :: unit
    by (simp add: dead_store_def)
  show ?thesis
    using breaker_trips [OF f, where threshold = 3 and cooldown = "5 * Second" and now = "\<lambda>w. (7, w)"
        and cs = "replicate 2 (\<lparr>key_Limiter = ''login'', key_Bucket = ''alice''\<rparr>, zero_rule)" and w = "()"]
      breaker_trips [OF f, where threshold = 3 and cooldown = "5 * Second" and now = "\<lambda>w. (7, w)"
        and cs = "replicate 3 (\<lparr>key_Limiter = ''login'', key_Bucket = ''alice''\<rparr>, zero_rule)" and w = "()"]
    by (simp only: Let_def) (simp add: Second_def)
qed

text \<open>C17. While the circuit is open and no probe is due, a call is refused at once with \<open>ErrOpen\<close>:
  whatever the inner store is, it is not called, and the breaker's memory stays as it was.\<close>

theorem breaker_suppresses:
  assumes "0 < br_threshold b" "Breaker_Open b" "br_probing b \<or> fst (now w) < br_openUntil b"
  shows "st_Consume (Breaker inner now) k r (b, w) =
      (Ret zero_result (Some ErrOpen), (b, if br_probing b then w else snd (now w))) \<and>
    st_Take (Breaker inner now) k bu (b, w) =
      (Ret zero_take_result (Some ErrOpen), (b, if br_probing b then w else snd (now w)))"
  using assms
  by (cases "now w") (auto simp: Breaker_def Breaker_Consume_def Breaker_Take_def allow_def Breaker_Open_def)

theorem breaker_suppresses_witness:
  "st_Consume (Breaker Noop stopped) \<lparr>key_Limiter = ''login'', key_Bucket = ''alice''\<rparr> zero_rule
     (sys_b (tripping 3 (5 * Second) Second 3), 2 * Second) =
   (Ret zero_result (Some ErrOpen), (sys_b (tripping 3 (5 * Second) Second 3), 2 * Second))"
  using breaker_suppresses [of "sys_b (tripping 3 (5 * Second) Second 3)" stopped "2 * Second" Noop
      "\<lparr>key_Limiter = ''login'', key_Bucket = ''alice''\<rparr>" zero_rule zero_bucket]
  by (simp add: tripping_def stopped_def Breaker_Open_def isOpenLocked_def Second_def)

text \<open>C19. However the calls of many goroutines interleave, and even when inner calls panic, the
  circuit of an enabled breaker is open exactly when the failures in a row have reached the
  threshold, and a probe is only out while it is open.\<close>

theorem breaker_invariant:
  assumes "br_reach panics (init_sys threshold cooldown t) s" "0 \<le> cooldown" "0 < t"
  shows "breaker_inv (sys_b s) \<and> sys_probes s \<subseteq> sys_calls s"
  using br_reach_inv [OF assms(1) init_sys_inv [OF assms(2,3)]] by (simp add: sys_inv_def)

theorem breaker_invariant_witness:
  "breaker_inv (sys_b (tripping 3 (5 * Second) 1 3)) \<and> sys_probes (tripping 3 (5 * Second) 1 3) \<subseteq> sys_calls (tripping 3 (5 * Second) 1 3)"
  using breaker_invariant [OF tripping_reach [of 3 3 False "5 * Second" 1]] by (simp add: Second_def)

text \<open>C18. Without panics the breaker recovers by itself: in every reachable state with no call in
  flight, once the cooldown is over the next call is admitted, and its success closes the circuit.\<close>

theorem breaker_recovers:
  assumes "br_reach False (init_sys threshold cooldown t0) s" "0 \<le> cooldown" "0 < t0"
    and "sys_calls s = {}" "br_openUntil (sys_b s) \<le> t"
  shows "\<exists>b. allow stopped (sys_b s, t) = (True, (b, t)) \<and>
    (0 < br_threshold b \<longrightarrow> \<not> Breaker_Open (fst (record_call stopped True (b, t))))"
proof -
  have init: "sys_inv (init_sys threshold cooldown t0)" by (rule init_sys_inv [OF assms(2,3)])
  have "sys_inv s" by (rule br_reach_inv [OF assms(1) init])
  moreover have "probe_tracked s"
    by (rule br_reach_tracked [OF assms(1) init])
      (simp add: probe_tracked_def init_sys_def Breaker_New_def)
  ultimately have "\<not> br_probing (sys_b s)" using assms(4) by (auto simp: sys_inv_def probe_tracked_def)
  with assms(5) show ?thesis
    by (auto simp: allow_def stopped_def record_call_def Breaker_Open_def isOpenLocked_def)
qed

theorem breaker_recovers_witness:
  "\<exists>b. allow stopped (sys_b (tripping 3 (5 * Second) 1 3), 6 * Second) = (True, (b, 6 * Second)) \<and>
    (0 < br_threshold b \<longrightarrow> \<not> Breaker_Open (fst (record_call stopped True (b, 6 * Second))))"
  by (rule breaker_recovers [OF tripping_reach [of 3 3 False "5 * Second" 1]])
    (simp_all add: tripping_def Second_def)




end
