(* ===== verification/BlockCache.thy ===== *)
theory BlockCache
  imports Breaker "HOL-Library.AList_Mapping"
begin

text \<open>
  \<open>internal/store/blockcache\<close>: the bounded cache of buckets known to be blocked. Its memory is a
  record beside the world of the store it wraps. \<open>lookup\<close>, \<open>remember\<close> and \<open>sweep\<close> are the critical
  sections under its mutex (the sweeper is a goroutine of its own, so a sweep may come between any
  two of them); \<open>BlockCache_Consume\<close> composes them as the code does. Every reading of the clock is
  explicit, because two readings of one call may differ.
\<close>

subsection \<open>State and operations\<close>

record blockcache =
  bc_maxLen :: int
  bc_maxTTL :: duration
  bc_entries :: "(string, time) mapping"
  bc_hits :: int
  bc_stopped :: bool

definition BlockCache_New :: "int \<Rightarrow> duration \<Rightarrow> blockcache" where
  "BlockCache_New maxEntries maxTTL =
     \<lparr>bc_maxLen = maxEntries, bc_maxTTL = maxTTL, bc_entries = Mapping.empty, bc_hits = 0,
      bc_stopped = False\<rparr>"

definition sweep_interval :: "duration \<Rightarrow> duration" where
  "sweep_interval d = (if d \<le> 0 then 10 * Second else d)"

definition lookup :: "'w clock \<Rightarrow> string \<Rightarrow> blockcache \<times> 'w \<Rightarrow> time option \<times> blockcache \<times> 'w" where
  "lookup now k = (\<lambda>(c, w).
     case Mapping.lookup (bc_entries c) k of
       None \<Rightarrow> (None, (c, w))
     | Some until \<Rightarrow> (case now w of (t, w') \<Rightarrow> (if t < until then Some until else None, (c, w'))))"

definition remember :: "'w clock \<Rightarrow> string \<Rightarrow> duration \<Rightarrow> blockcache \<times> 'w \<Rightarrow> blockcache \<times> 'w" where
  "remember now k ttl0 = (\<lambda>(c, w).
     (let ttl = (if bc_maxTTL c > 0 \<and> ttl0 > bc_maxTTL c then bc_maxTTL c else ttl0)
      in if Mapping.lookup (bc_entries c) k = None \<and> bc_maxLen c > 0
            \<and> int (Mapping.size (bc_entries c)) \<ge> bc_maxLen c
         then (c, w)
         else (case now w of (t, w') \<Rightarrow> (c\<lparr>bc_entries := Mapping.update k (t + ttl) (bc_entries c)\<rparr>, w'))))"

definition sweep :: "'w clock \<Rightarrow> blockcache \<times> 'w \<Rightarrow> blockcache \<times> 'w" where
  "sweep now = (\<lambda>(c, w). case now w of (t, w') \<Rightarrow>
     (c\<lparr>bc_entries := Mapping.filter (\<lambda>k until. t < until) (bc_entries c)\<rparr>, w'))"

definition BlockCache_Consume ::
  "'w store \<Rightarrow> 'w clock \<Rightarrow> key \<Rightarrow> rule \<Rightarrow> blockcache \<times> 'w \<Rightarrow> result ret \<times> blockcache \<times> 'w" where
  "BlockCache_Consume inner now key r s =
     (let k = Key_String key
      in case lookup now k s of
           (Some until, (c, w)) \<Rightarrow>
             (case now w of (t, w') \<Rightarrow>
               (Ret \<lparr>res_Blocked = True, res_Count = -1, res_RetryAfter = sat64 (until - t)\<rparr> None,
                (c\<lparr>bc_hits := bc_hits c + 1\<rparr>, w')))
         | (None, (c, w)) \<Rightarrow>
             (case st_Consume inner key r w of
                (Panic m, w') \<Rightarrow> (Panic m, (c, w'))
              | (Ret res (Some e), w') \<Rightarrow> (Ret res (Some e), (c, w'))
              | (Ret res None, w') \<Rightarrow>
                  (Ret res None,
                   (if res_Blocked res \<and> res_RetryAfter res > 0
                    then remember now k (res_RetryAfter res) (c, w') else (c, w')))))"

definition BlockCache_Take ::
  "'w store \<Rightarrow> key \<Rightarrow> bucket \<Rightarrow> blockcache \<times> 'w \<Rightarrow> take_result ret \<times> blockcache \<times> 'w" where
  "BlockCache_Take inner key b = (\<lambda>(c, w). case st_Take inner key b w of (x, w') \<Rightarrow> (x, (c, w')))"

definition BlockCache_Close :: "'w store \<Rightarrow> blockcache \<times> 'w \<Rightarrow> goerror option \<times> blockcache \<times> 'w" where
  "BlockCache_Close inner = (\<lambda>(c, w).
     case st_Close inner w of (e, w') \<Rightarrow> (e, (c\<lparr>bc_stopped := True\<rparr>, w')))"

definition BlockCache_Hits :: "blockcache \<Rightarrow> int" where "BlockCache_Hits c = bc_hits c"

definition BlockCache_Len :: "blockcache \<Rightarrow> int" where "BlockCache_Len c = int (Mapping.size (bc_entries c))"

definition BlockCache :: "'w store \<Rightarrow> 'w clock \<Rightarrow> (blockcache \<times> 'w) store" where
  "BlockCache inner now = \<lparr>st_Consume = BlockCache_Consume inner now, st_Take = BlockCache_Take inner,
     st_Close = BlockCache_Close inner\<rparr>"

text \<open>
  One turn of the sweeper's loop: it ends when the \<open>select\<close> takes the stop channel, which it can
  once that is closed, and otherwise sweeps when the ticker fires. Between two ready channels Go
  chooses freely: \<open>prefer_stop\<close> is that choice.
\<close>

definition sweepLoop_turn :: "bool \<Rightarrow> 'w clock \<Rightarrow> blockcache \<times> 'w \<Rightarrow> (blockcache \<times> 'w) option" where
  "sweepLoop_turn prefer_stop now s = (if bc_stopped (fst s) \<and> prefer_stop then None else Some (sweep now s))"

subsection \<open>What the critical sections do\<close>

lemma lookup_cases:
  assumes "lookup now k (c, w) = (x, s')"
  obtains (absent) "Mapping.lookup (bc_entries c) k = None" "x = None" "s' = (c, w)"
  | (expired) u t w' where "Mapping.lookup (bc_entries c) k = Some u" "now w = (t, w')" "u \<le> t" "x = None" "s' = (c, w')"
  | (live) u t w' where "Mapping.lookup (bc_entries c) k = Some u" "now w = (t, w')" "t < u" "x = Some u" "s' = (c, w')"
  using assms by (fastforce simp: lookup_def split: option.splits prod.splits if_splits)

lemma remember_cases:
  assumes "remember now k ttl (c, w) = s'"
  obtains (full) "Mapping.lookup (bc_entries c) k = None" "0 < bc_maxLen c"
      "bc_maxLen c \<le> int (Mapping.size (bc_entries c))" "s' = (c, w)"
  | (stored) t w' d where "now w = (t, w')" "d \<le> ttl" "0 < bc_maxTTL c \<longrightarrow> d \<le> bc_maxTTL c"
      "Mapping.lookup (bc_entries c) k = None \<longrightarrow> 0 < bc_maxLen c \<longrightarrow> int (Mapping.size (bc_entries c)) < bc_maxLen c"
      "s' = (c\<lparr>bc_entries := Mapping.update k (t + d) (bc_entries c)\<rparr>, w')"
proof (cases "Mapping.lookup (bc_entries c) k = None \<and> bc_maxLen c > 0 \<and> int (Mapping.size (bc_entries c)) \<ge> bc_maxLen c")
  case True
  with assms show thesis by (intro full) (auto simp: remember_def Let_def)
next
  case False
  obtain t w' where t: "now w = (t, w')" by (cases "now w")
  let ?d = "if bc_maxTTL c > 0 \<and> ttl > bc_maxTTL c then bc_maxTTL c else ttl"
  have "s' = (c\<lparr>bc_entries := Mapping.update k (t + ?d) (bc_entries c)\<rparr>, w')"
    using assms False t by (simp add: remember_def Let_def)
  with t False show thesis by (intro stored [of t w' ?d]) auto
qed

lemma BlockCache_Consume_cases:
  assumes "BlockCache_Consume inner now key r (c, w) = (x, s')"
  obtains (hit) u t1 w1 t2 w2 where "Mapping.lookup (bc_entries c) (Key_String key) = Some u"
      "now w = (t1, w1)" "t1 < u" "now w1 = (t2, w2)"
      "x = Ret \<lparr>res_Blocked = True, res_Count = -1, res_RetryAfter = sat64 (u - t2)\<rparr> None"
      "s' = (c\<lparr>bc_hits := bc_hits c + 1\<rparr>, w2)"
  | (panic) w1 m w2 where "lookup now (Key_String key) (c, w) = (None, (c, w1))"
      "st_Consume inner key r w1 = (Panic m, w2)" "x = Panic m" "s' = (c, w2)"
  | (err) w1 res e w2 where "lookup now (Key_String key) (c, w) = (None, (c, w1))"
      "st_Consume inner key r w1 = (Ret res (Some e), w2)" "x = Ret res (Some e)" "s' = (c, w2)"
  | (plain) w1 res w2 where "lookup now (Key_String key) (c, w) = (None, (c, w1))"
      "st_Consume inner key r w1 = (Ret res None, w2)" "x = Ret res None" "s' = (c, w2)"
      "\<not> (res_Blocked res \<and> res_RetryAfter res > 0)"
  | (block) w1 res w2 where "lookup now (Key_String key) (c, w) = (None, (c, w1))"
      "st_Consume inner key r w1 = (Ret res None, w2)" "x = Ret res None" "res_Blocked res" "res_RetryAfter res > 0"
      "s' = remember now (Key_String key) (res_RetryAfter res) (c, w2)"
proof -
  obtain o1 c1 w1 where l: "lookup now (Key_String key) (c, w) = (o1, (c1, w1))"
    by (cases "lookup now (Key_String key) (c, w)") auto
  then have c1: "c1 = c" by (elim lookup_cases) auto
  show thesis
  proof (cases o1)
    case (Some u)
    obtain t2 w2 where "now w1 = (t2, w2)" by (cases "now w1")
    moreover from l Some obtain t1 where "Mapping.lookup (bc_entries c) (Key_String key) = Some u"
        "now w = (t1, w1)" "t1 < u"
      by (elim lookup_cases) auto
    ultimately show thesis
      using Some l c1 assms by (intro hit [of u t1 w1 t2 w2]) (auto simp: BlockCache_Consume_def)
  next
    case None
    obtain y w2 where i: "st_Consume inner key r w1 = (y, w2)" by (cases "st_Consume inner key r w1")
    show thesis
    proof (cases y)
      case (Panic m)
      with None l c1 i assms show thesis by (intro panic) (auto simp: BlockCache_Consume_def)
    next
      case (Ret res e)
      with None l c1 i assms show thesis
        by (cases e; cases "res_Blocked res \<and> res_RetryAfter res > 0")
          (auto simp: BlockCache_Consume_def intro: err plain block)
    qed
  qed
qed

subsection \<open>Bounds: capacity and time to live\<close>

definition cache_inv :: "time \<Rightarrow> blockcache \<Rightarrow> bool" where
  "cache_inv t c \<longleftrightarrow> finite (Mapping.keys (bc_entries c)) \<and>
     (0 < bc_maxLen c \<longrightarrow> int (Mapping.size (bc_entries c)) \<le> bc_maxLen c) \<and>
     (0 < bc_maxTTL c \<longrightarrow>
        (\<forall>k u. Mapping.lookup (bc_entries c) k = Some u \<longrightarrow> u \<le> t + bc_maxTTL c))"

lemma keys_lookup: "k \<in> Mapping.keys m \<longleftrightarrow> Mapping.lookup m k \<noteq> None"
  by (simp add: keys_dom_lookup domIff)

lemma size_filter_le:
  "finite (Mapping.keys m) \<Longrightarrow> Mapping.size (Mapping.filter P m) \<le> Mapping.size m"
  by (auto simp: Mapping.size_def intro: card_mono finite_subset [OF keys_filter] subsetD [OF keys_filter])

lemma cache_inv_mono: "cache_inv t c \<Longrightarrow> t \<le> t' \<Longrightarrow> cache_inv t' c"
  by (fastforce simp: cache_inv_def)

lemma BlockCache_New_inv: "cache_inv t (BlockCache_New maxEntries maxTTL)"
  by (simp add: cache_inv_def BlockCache_New_def)

lemma remember_inv:
  assumes "remember stopped k ttl (c, t) = (c', t')" "cache_inv t c" shows "cache_inv t' c'"
  using assms(1)
proof (cases rule: remember_cases)
  case (stored t1 t2 d)
  then have [simp]: "t1 = t" "t2 = t" by (auto simp: stopped_def)
  show ?thesis
    using assms(2) stored
    by (auto simp: cache_inv_def size_update keys_lookup lookup_update' split: if_splits)
qed (use assms(2) in simp)

lemma sweep_inv:
  assumes "sweep stopped (c, t0) = (c', t1)" "cache_inv t c" shows "cache_inv t c'"
proof -
  let ?m = "Mapping.filter (\<lambda>k until. t0 < until) (bc_entries c)"
  have c': "c' = c\<lparr>bc_entries := ?m\<rparr>" using assms(1) by (auto simp: sweep_def stopped_def)
  have "finite (Mapping.keys ?m)" "Mapping.size ?m \<le> Mapping.size (bc_entries c)"
    using assms(2) size_filter_le by (auto simp: cache_inv_def intro: finite_subset [OF keys_filter])
  moreover have "Mapping.lookup ?m k = Some u \<Longrightarrow> Mapping.lookup (bc_entries c) k = Some u" for k u
    by (auto simp: lookup_filter split: option.splits if_splits)
  ultimately show ?thesis using assms(2) unfolding cache_inv_def c' by fastforce
qed

text \<open>
  The critical sections of concurrent calls and of the sweeper, in any order, while time passes:
  a hit counted by some call, a block remembered for some key, a sweep. The sweeper reads the clock
  before it takes the lock, so a sweep may run with an earlier reading.
\<close>

inductive bc_step :: "blockcache \<times> time \<Rightarrow> blockcache \<times> time \<Rightarrow> bool" where
  tick: "t \<le> t' \<Longrightarrow> bc_step (c, t) (c, t')"
| hit: "bc_step (c, t) (c\<lparr>bc_hits := bc_hits c + 1\<rparr>, t)"
| remember: "bc_step s (remember stopped k ttl s)"
| sweep: "t0 \<le> t \<Longrightarrow> sweepLoop_turn b stopped (c, t0) = Some (c', t0) \<Longrightarrow> bc_step (c, t) (c', t)"
| stop: "bc_step (c, t) (c\<lparr>bc_stopped := True\<rparr>, t)"

inductive bc_reach :: "blockcache \<times> time \<Rightarrow> blockcache \<times> time \<Rightarrow> bool" for s0 where
  start: "bc_reach s0 s0"
| step: "bc_reach s0 s \<Longrightarrow> bc_step s s' \<Longrightarrow> bc_reach s0 s'"

lemma bc_step_inv:
  assumes "bc_step s s'" "cache_inv (snd s) (fst s)" shows "cache_inv (snd s') (fst s')"
  using assms
proof (induction rule: bc_step.induct)
  case (tick t t' c)
  then show ?case by (auto intro: cache_inv_mono)
next
  case (remember s k ttl)
  then show ?case
    using remember_inv [of k ttl "fst s" "snd s"] by (cases "remember stopped k ttl s") auto
next
  case (sweep t0 t b c c')
  then show ?case using sweep_inv [of c t0 c' t0 t] by (auto simp: sweepLoop_turn_def split: if_splits)
qed (auto simp: cache_inv_def)

lemma bc_step_config:
  "bc_step s s' \<Longrightarrow> bc_maxLen (fst s') = bc_maxLen (fst s) \<and> bc_maxTTL (fst s') = bc_maxTTL (fst s)"
  by (induction rule: bc_step.induct)
    (auto simp: remember_def sweepLoop_turn_def sweep_def stopped_def Let_def split: if_splits)

lemma bc_reach_inv:
  "bc_reach s0 s \<Longrightarrow> cache_inv (snd s0) (fst s0) \<Longrightarrow>
     cache_inv (snd s) (fst s) \<and> bc_maxLen (fst s) = bc_maxLen (fst s0) \<and> bc_maxTTL (fst s) = bc_maxTTL (fst s0)"
  by (induction rule: bc_reach.induct) (auto simp: bc_step_config intro: bc_step_inv)

subsection \<open>The cache in front of a store that keeps its blocks\<close>

text \<open>
  The entry of a block is stamped with a clock reading taken after the inner call returned, so it
  may overrun the block by the time between the two: \<open>lag\<close> bounds how far one reading is from the
  last.
\<close>

locale cache_over = inner: blocking_store now time_of S wait inv held slack
  for now :: "'w clock" and time_of :: "'w \<Rightarrow> time" and S :: "'w store"
    and wait :: "nat \<Rightarrow> 'w \<Rightarrow> 'w" and inv :: "'w \<Rightarrow> bool"
    and held :: "'w \<Rightarrow> key \<Rightarrow> time \<Rightarrow> bool" and slack :: duration +
  fixes lag :: duration
  assumes now_lag: "now w = (t, w') \<Longrightarrow> t \<le> time_of w + lag"
begin

definition sound :: "blockcache \<times> 'w \<Rightarrow> bool" where
  "sound = (\<lambda>(c, w). inv w \<and> (\<forall>k u. good_key k \<longrightarrow>
     Mapping.lookup (bc_entries c) (Key_String k) = Some u \<longrightarrow> inner.remembered w k (u - (slack + lag))))"

lemma lag_nonneg: "0 \<le> lag"
proof -
  obtain t w' where "now undefined = (t, w')" by (cases "now undefined")
  then show ?thesis using now_lag inner.now_ge by fastforce
qed

lemma sound_now: "now w = (t, w') \<Longrightarrow> sound (c, w) \<Longrightarrow> sound (c, w')"
  unfolding sound_def using inner.now_inv inner.remembered_now by fastforce

lemma sound_wait: "sound (c, w) \<Longrightarrow> sound (c, wait n w)"
  unfolding sound_def using inner.wait_inv inner.remembered_wait by fastforce

lemma sound_lookup: "lookup now k (c, w) = (x, (c', w')) \<Longrightarrow> sound (c, w) \<Longrightarrow> sound (c', w')"
  by (erule lookup_cases) (auto dest: sound_now)

lemma sound_consume:
  "st_Consume S k r w = (x, w') \<Longrightarrow> good_key k \<Longrightarrow> sound (c, w) \<Longrightarrow> sound (c, w')"
  unfolding sound_def using inner.consume_inv inner.remembered_consume by fastforce

lemma sound_take:
  "st_Take S k b w = (x, w') \<Longrightarrow> good_key k \<Longrightarrow> sound (c, w) \<Longrightarrow> sound (c, w')"
  unfolding sound_def using inner.take_inv inner.remembered_take by fastforce

lemma sound_remember:
  assumes "remember now (Key_String k) d (c, w) = (c', w')" "good_key k" "sound (c, w)"
    and "held w k (time_of w + d - slack) \<or> d \<le> slack"
  shows "sound (c', w')"
  using assms(1)
proof (cases rule: remember_cases)
  case full
  with assms(3) show ?thesis by simp
next
  case (stored t w1 d')
  have "t + d' - (slack + lag) \<le> time_of w + d - slack"
    using now_lag [OF stored(1)] stored(2) by simp
  moreover have "inner.remembered w1 k (time_of w + d - slack)"
    using assms(4) inner.remembered_now [OF stored(1)] by (simp add: inner.remembered_def)
  ultimately have own: "inner.remembered w1 k (t + d' - (slack + lag))"
    by (rule inner.remembered_antimono)
  have "sound (c, w1)" using stored(1) assms(3) by (rule sound_now)
  with own stored(5) assms(2) show ?thesis
    by (auto simp: sound_def lookup_update' good_key_inject split: if_splits)
qed

lemma cache_consume_sound:
  assumes "BlockCache_Consume S now k r (c, w) = (x, (c', w'))" "good_key k" "sound (c, w)"
  shows "sound (c', w')"
  using assms(1)
proof (cases rule: BlockCache_Consume_cases)
  case (hit u t1 w1 t2 w2)
  with assms(3) have "sound (c, w2)" by (blast dest: sound_now)
  with hit(6) show ?thesis by (simp add: sound_def)
next
  case (block w1 res w2)
  have s1: "sound (c, w1)" using block(1) assms(3) by (rule sound_lookup)
  then have "inv w1" by (simp add: sound_def)
  from block(2) assms(2) this block(4)
  have "held w2 k (time_of w2 + res_RetryAfter res - slack) \<or> res_RetryAfter res \<le> slack"
    by (rule inner.consume_reports)
  with block(6) [symmetric] assms(2) sound_consume [OF block(2) assms(2) s1] show ?thesis
    by (blast intro: sound_remember)
qed (use assms sound_lookup sound_consume in blast)+

lemma cache_consume_time:
  "BlockCache_Consume S now k r (c, w) = (x, (c', w')) \<Longrightarrow> time_of w \<le> time_of w'"
  by (erule BlockCache_Consume_cases)
    (auto elim!: lookup_cases remember_cases [OF sym] dest!: inner.now_mono inner.consume_time)

lemma cache_consume_keeps:
  assumes "BlockCache_Consume S now k r (c, w) = (x, (c', w'))" "good_key k" "good_key k'" "inv w"
    "held w k' u"
  shows "held w' k' u \<or> u \<le> time_of w'"
proof -
  have look: "held w1 k' u \<and> inv w1" if "lookup now s (c, w) = (y, (c, w1))" for s y w1
    using that assms(4,5) by (elim lookup_cases) (auto dest: inner.now_held inner.now_inv)
  have call: "held w2 k' u \<or> u \<le> time_of w2"
    if "lookup now s (c, w) = (y, (c, w1))" "st_Consume S k r w1 = (z, w2)" for s y z w1 w2
    using inner.consume_keeps [OF that(2) assms(2,3)] look [OF that(1)] by blast
  from assms(1) show ?thesis
  proof (cases rule: BlockCache_Consume_cases)
    case (hit u t1 w1 t2 w2)
    with assms(5) show ?thesis by (blast dest: inner.now_held)
  next
    case (block w1 res w2)
    from call [OF block(1,2)] block(6) [symmetric] show ?thesis
      by (elim remember_cases) (auto dest: inner.now_held inner.now_mono)
  qed (use call in blast)+
qed

lemma sat64_neg: "n < 0 \<Longrightarrow> sat64 n \<le> 0"
  by (auto simp: int64_defs)

lemma cache_consume_reports:
  assumes "BlockCache_Consume S now k r (c, w) = (Ret res None, (c', w'))" "good_key k" "sound (c, w)"
    "res_Blocked res"
  shows "held w' k (time_of w' + res_RetryAfter res - (slack + lag)) \<or> res_RetryAfter res \<le> slack + lag"
  using assms(1)
proof (cases rule: BlockCache_Consume_cases)
  case (hit u t1 w1 t2 w2)
  have w': "w' = w2" "time_of w' = t2" and ra: "res_RetryAfter res = sat64 (u - t2)"
    using hit inner.now_time by auto
  have "inner.remembered w k (u - (slack + lag))"
    using assms(2,3) hit(1) by (auto simp: sound_def)
  then have rem: "inner.remembered w' k (u - (slack + lag))"
    using hit w' inner.remembered_now by blast
  show ?thesis
  proof (cases "u < t2")
    case True
    then have "res_RetryAfter res \<le> 0" using sat64_neg [of "u - t2"] ra by simp
    then show ?thesis using lag_nonneg inner.slack_nonneg by linarith
  next
    case False
    then have "t2 + res_RetryAfter res \<le> u" using sat64_le [of "u - t2"] ra by simp
    then have "time_of w' + res_RetryAfter res - (slack + lag) \<le> u - (slack + lag)" using w' by simp
    from inner.remembered_antimono [OF this rem] show ?thesis by (auto simp: inner.remembered_def)
  qed
next
  case (plain w1 res' w2)
  with assms(4) lag_nonneg inner.slack_nonneg show ?thesis by auto
next
  case (block w1 res' w2)
  have s1: "sound (c, w1)" using block(1) assms(3) by (rule sound_lookup)
  then have "inner.remembered w2 k (time_of w2 + res_RetryAfter res - slack)"
    using block assms(2,4) inner.consume_reports [of k r w1 res w2]
    by (auto simp: sound_def inner.remembered_def)
  then have "inner.remembered w' k (time_of w2 + res_RetryAfter res - slack)"
    using block(6) [symmetric] by (elim remember_cases) (auto dest: inner.remembered_now)
  moreover have "time_of w' \<le> time_of w2 + lag"
    using block(6) [symmetric] lag_nonneg
    by (elim remember_cases) (auto dest: now_lag inner.now_time)
  ultimately have "inner.remembered w' k (time_of w' + res_RetryAfter res - (slack + lag))"
    by (elim inner.remembered_antimono [rotated]) simp
  then show ?thesis by (auto simp: inner.remembered_def)
qed simp_all

lemma cache_consume_refuses:
  assumes "BlockCache_Consume S now k r (c, w) = (Ret res None, (c', w'))" "good_key k" "sound (c, w)"
    "held w k u" "time_of w' < u"
  shows "res_Blocked res"
proof -
  have look: "held w1 k u \<and> inv w1" if "lookup now s (c, w) = (y, (c, w1))" for s y w1
    using that assms(3,4) by (elim lookup_cases) (auto simp: sound_def dest: inner.now_held inner.now_inv)
  from assms(1) show ?thesis
  proof (cases rule: BlockCache_Consume_cases)
    case (plain w1 res' w2)
    with look [OF plain(1)] assms(2,5) inner.consume_refuses [OF plain(2) assms(2)] show ?thesis by auto
  qed simp_all
qed

end

sublocale cache_over \<subseteq> outer: blocking_store "lift_clock now" "\<lambda>x. time_of (snd x)"
  "BlockCache S now" "lift_wait wait" sound "\<lambda>x. held (snd x)" "slack + lag"
proof -
  have clock: "monotone_clock (lift_clock now) (\<lambda>x :: blockcache \<times> 'w. time_of (snd x))"
    by (rule lift_clock_monotone) (rule inner.monotone_clock_axioms)
  have inv: "sound (c, w) \<Longrightarrow> inv w" for c w by (simp add: sound_def)
  have nonneg: "0 \<le> slack + lag" using inner.slack_nonneg lag_nonneg by simp
  show "blocking_store (lift_clock now) (\<lambda>x. time_of (snd x)) (BlockCache S now)
      (lift_wait wait) sound (\<lambda>x. held (snd x)) (slack + lag)"
    by (intro blocking_store.intro timed_store.intro clock; unfold_locales)
      (auto simp: BlockCache_def BlockCache_Take_def lift_clock_eq nonneg inv inner.wait_time split: prod.splits
        dest: inner.wait_held sound_wait inner.now_held sound_now sound_take inner.held_antimono inner.take_keeps inner.take_time
          cache_consume_time cache_consume_sound cache_consume_keeps cache_consume_refuses
          cache_consume_reports)
qed

subsection \<open>Properties\<close>

text \<open>C20. The cache is bounded whatever calls, sweeps and pauses are interleaved: a positive
  \<open>MaxEntries\<close> is never exceeded, and with a positive \<open>MaxTTL\<close> no entry is ever trusted beyond
  \<open>MaxTTL\<close> from the present.\<close>

theorem cache_bounded:
  assumes "bc_reach (BlockCache_New maxEntries maxTTL, t0) (c, t)"
  shows "(0 < maxEntries \<longrightarrow> BlockCache_Len c \<le> maxEntries) \<and>
    (0 < maxTTL \<longrightarrow> (\<forall>k u. Mapping.lookup (bc_entries c) k = Some u \<longrightarrow> u \<le> t + maxTTL))"
  using bc_reach_inv [OF assms] BlockCache_New_inv [of t0 maxEntries maxTTL]
  by (auto simp: cache_inv_def BlockCache_Len_def BlockCache_New_def)

theorem cache_bounded_witness:
  "let s = remember stopped ''b'' Hour (remember stopped ''a'' Hour (BlockCache_New 1 Minute, 0)) in
   BlockCache_Len (fst s) \<le> 1 \<and> Mapping.lookup (bc_entries (fst s)) ''a'' = Some Minute"
proof -
  let ?new = "(BlockCache_New 1 Minute, 0)"
  let ?s = "remember stopped ''b'' Hour (remember stopped ''a'' Hour ?new)"
  have "bc_reach ?new (remember stopped ''a'' Hour ?new)" by (rule bc_reach.step [OF bc_reach.start bc_step.remember])
  then have "bc_reach ?new ?s" by (rule bc_reach.step [OF _ bc_step.remember])
  then have "BlockCache_Len (fst ?s) \<le> 1" using cache_bounded [of 1 Minute 0 "fst ?s" "snd ?s"] by simp
  moreover have "Mapping.lookup (bc_entries (fst ?s)) ''a'' = Some Minute" by code_simp
  ultimately show ?thesis unfolding Let_def by blast
qed

text \<open>A bucket the cache knows to be blocked costs the store nothing: the call is answered from
  memory with what remains of the block and counted as a hit, and the inner store, whichever it is,
  is not called.\<close>

lemma cache_hit_skips_store:
  assumes "Mapping.lookup (bc_entries c) (Key_String k) = Some u" "now w = (t1, w1)" "t1 < u" "now w1 = (t2, w2)"
  shows "st_Consume (BlockCache inner now) k r (c, w) =
    (Ret \<lparr>res_Blocked = True, res_Count = -1, res_RetryAfter = sat64 (u - t2)\<rparr> None, (c\<lparr>bc_hits := bc_hits c + 1\<rparr>, w2))"
  using assms by (simp add: BlockCache_def BlockCache_Consume_def lookup_def)

end
