(* ===== verification/RedisStore.thy ===== *)
theory RedisStore
  imports Store Float64
begin

text \<open>
  \<open>internal/store/redisstore\<close>: the two Lua scripts, command by command, the Go operations around
  them, the storage keys, and the construction of the client. Redis is a service outside the
  repository: its commands are the argument \<open>R\<close> of type \<open>redis\<close>, state-passing operations on a
  world \<open>'w\<close> that may fail, and what the scripts rely on of them is the locale \<open>redis_server\<close> of
  \<open>RedisLaws\<close>. Numbers of the scripts are Lua numbers, that is doubles.
\<close>

subsection \<open>Durations in whole seconds\<close>

definition seconds :: "duration \<Rightarrow> int" where
  "seconds d = (if d \<le> 0 then 1 else \<lceil>Seconds d\<rceil>)"

subsection \<open>Commands and scripts\<close>

type_synonym ('w, 'a) cmd = "'w \<Rightarrow> (goerror + 'a) \<times> 'w"

text \<open>
  \<open>redis.call\<close> raises on an error reply, which ends the script; otherwise the script goes on with
  the reply.
\<close>

definition call :: "('w, 'a) cmd \<Rightarrow> ('a \<Rightarrow> ('w, 'b) cmd) \<Rightarrow> ('w, 'b) cmd" where
  "call m f w = (case m w of (Inl e, w') \<Rightarrow> (Inl e, w') | (Inr x, w') \<Rightarrow> f x w')"

definition reply :: "'a \<Rightarrow> ('w, 'a) cmd" where "reply x w = (Inr x, w)"

text \<open>
  The commands the scripts use, and the two ends of a round trip: \<open>rd_send\<close> may fail before the
  script runs, \<open>rd_recv\<close> after it has. \<open>rd_HMGET\<close> gives the fields \<open>n\<close> and \<open>t\<close> as \<open>tonumber\<close> reads
  them (nil for an absent field); a double written by \<open>HSET\<close> with 17 significant digits is read
  back unchanged.
\<close>

record 'w redis =
  rd_TTL :: "string \<Rightarrow> ('w, int) cmd"
  rd_INCR :: "string \<Rightarrow> ('w, int) cmd"
  rd_EXPIRE :: "string \<Rightarrow> int \<Rightarrow> ('w, unit) cmd"
  rd_SET_EX :: "string \<Rightarrow> string \<Rightarrow> int \<Rightarrow> ('w, unit) cmd"
  rd_DEL :: "string \<Rightarrow> ('w, unit) cmd"
  rd_TIME :: "('w, int \<times> int) cmd"
  rd_HMGET :: "string \<Rightarrow> ('w, rat option \<times> rat option) cmd"
  rd_HSET :: "string \<Rightarrow> rat \<Rightarrow> rat \<Rightarrow> ('w, unit) cmd"
  rd_PEXPIRE :: "string \<Rightarrow> int \<Rightarrow> ('w, unit) cmd"
  rd_send :: "('w, unit) cmd"
  rd_recv :: "('w, unit) cmd"
  rd_PING :: "('w, unit) cmd"
  rd_close :: "'w \<Rightarrow> goerror option \<times> 'w"

text \<open>The window script: its last lines, its counting part, and the whole.\<close>

definition decide_block :: "'w redis \<Rightarrow> string \<Rightarrow> string \<Rightarrow> int \<Rightarrow> int \<Rightarrow> ('w, int list) cmd" where
  "decide_block R k1 k2 block count =
     call (rd_SET_EX R k2 ''1'' block) (\<lambda>_.
     call (rd_DEL R k1) (\<lambda>_.
       reply [1, trunc (float count), trunc (float block)]))"

definition decide_count :: "'w redis \<Rightarrow> string \<Rightarrow> string \<Rightarrow> int \<Rightarrow> int \<Rightarrow> int \<Rightarrow> ('w, int list) cmd" where
  "decide_count R k1 k2 limit window block =
     call (rd_INCR R k1) (\<lambda>count.
     call (if count = 1 then rd_EXPIRE R k1 window else reply ()) (\<lambda>_.
       if float count > float limit then decide_block R k1 k2 block count
       else reply [0, trunc (float count), 0]))"

definition decide :: "'w redis \<Rightarrow> string \<Rightarrow> string \<Rightarrow> int \<Rightarrow> int \<Rightarrow> int \<Rightarrow> ('w, int list) cmd" where
  "decide R k1 k2 limit window block =
     call (rd_TTL R k2) (\<lambda>blockTTL.
       if blockTTL > 0 then reply [1, -1, blockTTL]
       else decide_count R k1 k2 limit window block)"

text \<open>
  The arithmetic of the token bucket, over a rounding of exact results: \<open>f64\<close> in the script,
  the identity for the bucket it approximates.
\<close>

definition bucket_refill :: "(rat \<Rightarrow> rat) \<Rightarrow> rat \<Rightarrow> rat \<Rightarrow> rat \<Rightarrow> rat \<Rightarrow> rat" where
  "bucket_refill rnd rate burst tokens elapsed =
     min burst (rnd (tokens + rnd (rnd (elapsed * rate) / 1000)))"

definition bucket_elapsed :: "(rat \<Rightarrow> rat) \<Rightarrow> rat \<Rightarrow> rat \<Rightarrow> rat" where
  "bucket_elapsed rnd now ts = (let e = rnd (now - ts) in if e < 0 then 0 else e)"

definition bucket_start :: "rat \<Rightarrow> rat \<Rightarrow> rat option \<times> rat option \<Rightarrow> rat \<times> rat" where
  "bucket_start burst now st = (case st of (Some tokens, Some ts) \<Rightarrow> (tokens, ts) | _ \<Rightarrow> (burst, now))"

text \<open>Allowed or not, the tokens left, and the milliseconds to wait.\<close>

definition bucket_take :: "(rat \<Rightarrow> rat) \<Rightarrow> rat \<Rightarrow> rat \<Rightarrow> int \<times> rat \<times> int" where
  "bucket_take rnd rate tokens =
     (if tokens \<ge> 1 then (1, rnd (tokens - 1), 0)
      else (0, tokens, \<lceil>rnd (rnd (rnd (1 - tokens) * 1000) / rate)\<rceil>))"

definition bucket_step ::
  "(rat \<Rightarrow> rat) \<Rightarrow> rat \<Rightarrow> rat \<Rightarrow> rat \<Rightarrow> rat option \<times> rat option \<Rightarrow> int \<times> rat \<times> int" where
  "bucket_step rnd rate burst now st =
     (case bucket_start burst now st of (tokens, ts) \<Rightarrow>
        bucket_take rnd rate (bucket_refill rnd rate burst tokens (bucket_elapsed rnd now ts)))"

definition bucket_ttl :: "(rat \<Rightarrow> rat) \<Rightarrow> rat \<Rightarrow> rat \<Rightarrow> int" where
  "bucket_ttl rnd rate burst = \<lceil>rnd (rnd (burst * 1000) / rate)\<rceil> + 10000"

definition script_now :: "int \<times> int \<Rightarrow> rat" where
  "script_now t = f64 (f64 (float (fst t) * 1000) + of_int \<lfloor>f64 (float (snd t) / 1000)\<rfloor>)"

definition take_script :: "'w redis \<Rightarrow> string \<Rightarrow> int \<Rightarrow> int \<Rightarrow> ('w, int list) cmd" where
  "take_script R k rate burst =
     call (rd_TIME R) (\<lambda>t.
     call (rd_HMGET R k) (\<lambda>st.
       (case bucket_step f64 (float rate) (float burst) (script_now t) st of
          (allowed, tokens, retry_ms) \<Rightarrow>
            call (rd_HSET R k tokens (script_now t)) (\<lambda>_.
            call (rd_PEXPIRE R k (bucket_ttl f64 (float rate) (float burst))) (\<lambda>_.
              reply [allowed, \<lfloor>tokens\<rfloor>, retry_ms])))))"

text \<open>\<open>Script.Run(...).Int64Slice()\<close>: one round trip.\<close>

definition run_script :: "'w redis \<Rightarrow> ('w, int list) cmd \<Rightarrow> ('w, int list) cmd" where
  "run_script R script =
     call (rd_send R) (\<lambda>_. call script (\<lambda>raw. call (rd_recv R) (\<lambda>_. reply raw)))"

subsection \<open>The store\<close>

definition base_key :: "string \<Rightarrow> key \<Rightarrow> string" where
  "base_key pre key = pre @ key_Limiter key @ '':{'' @ SanitizeBucket (key_Bucket key) @ ''}''"

definition counter_key :: "string \<Rightarrow> key \<Rightarrow> string" where "counter_key pre key = base_key pre key @ '':c''"
definition block_key :: "string \<Rightarrow> key \<Rightarrow> string" where "block_key pre key = base_key pre key @ '':b''"
definition tb_key :: "string \<Rightarrow> key \<Rightarrow> string" where "tb_key pre key = base_key pre key @ '':tb''"

lemmas redis_keys = counter_key_def block_key_def tb_key_def

definition Redis_Consume :: "'w redis \<Rightarrow> string \<Rightarrow> key \<Rightarrow> rule \<Rightarrow> 'w \<Rightarrow> result ret \<times> 'w" where
  "Redis_Consume R pre key r w =
     (if \<not> Rule_Valid r then (Ret zero_result (Some (Errorf ''redisstore: invalid rule'')), w)
      else (case run_script R (decide R (counter_key pre key) (block_key pre key)
                   (rule_Limit r) (seconds (rule_Window r)) (seconds (rule_Block r))) w of
              (Inl e, w') \<Rightarrow> (Ret zero_result (Some (Wrapf (''redisstore: consume '' @ Key_String key) e)), w')
            | (Inr raw, w') \<Rightarrow>
                if length raw \<noteq> 3
                then (Ret zero_result (Some (Errorf ''redisstore: unexpected script result length'')), w')
                else (Ret \<lparr>res_Blocked = (raw ! 0 = 1), res_Count = raw ! 1,
                           res_RetryAfter = wrap64 (raw ! 2 * Second)\<rparr> None, w')))"

definition Redis_Take :: "'w redis \<Rightarrow> string \<Rightarrow> key \<Rightarrow> bucket \<Rightarrow> 'w \<Rightarrow> take_result ret \<times> 'w" where
  "Redis_Take R pre key b w =
     (if \<not> Bucket_Valid b then (Ret zero_take_result (Some (Errorf ''redisstore: invalid bucket'')), w)
      else (case run_script R (take_script R (tb_key pre key) (tb_Rate b) (tb_Burst b)) w of
              (Inl e, w') \<Rightarrow> (Ret zero_take_result (Some (Wrapf (''redisstore: take '' @ Key_String key) e)), w')
            | (Inr raw, w') \<Rightarrow>
                if length raw \<noteq> 3
                then (Ret zero_take_result (Some (Errorf ''redisstore: unexpected script result length'')), w')
                else (Ret \<lparr>tr_Allowed = (raw ! 0 = 1), tr_Remaining = raw ! 1,
                           tr_RetryAfter = wrap64 (raw ! 2 * Millisecond)\<rparr> None, w')))"

definition Redis_Ping :: "'w redis \<Rightarrow> 'w \<Rightarrow> goerror option \<times> 'w" where
  "Redis_Ping R w = (case rd_PING R w of (Inl e, w') \<Rightarrow> (Some e, w') | (Inr _, w') \<Rightarrow> (None, w'))"

definition Redis_Close :: "'w redis \<Rightarrow> 'w \<Rightarrow> goerror option \<times> 'w" where
  "Redis_Close R w = rd_close R w"

definition RedisStore :: "'w redis \<Rightarrow> string \<Rightarrow> 'w store" where
  "RedisStore R pre = \<lparr>st_Consume = Redis_Consume R pre, st_Take = Redis_Take R pre, st_Close = Redis_Close R\<rparr>"

end
