(* ===== verification/RedisLaws.thy ===== *)
theory RedisLaws
  imports RedisStore
begin

text \<open>
  What the store relies on of Redis, as a locale: the documented behaviour of \<open>TTL\<close>, \<open>SET EX\<close> and
  of commands on other keys, and that a command is answered within \<open>trip\<close>. From it the Redis store
  is a blocking store in the sense of \<open>Store\<close>, so that the decorators' results hold over it.
\<close>

subsection \<open>Storage keys\<close>

lemma base_key_inject:
  assumes "good_key k" "good_key k'"
  shows "base_key pre k = base_key pre k' \<longleftrightarrow>
    key_Limiter k = key_Limiter k' \<and> SanitizeBucket (key_Bucket k) = SanitizeBucket (key_Bucket k')"
proof -
  have "key_Limiter k @ CHR '':'' # (CHR ''{'' # SanitizeBucket (key_Bucket k) @ ''}'') =
      key_Limiter k' @ CHR '':'' # (CHR ''{'' # SanitizeBucket (key_Bucket k') @ ''}'') \<longleftrightarrow>
    key_Limiter k = key_Limiter k' \<and> SanitizeBucket (key_Bucket k) = SanitizeBucket (key_Bucket k')"
    using append_sep_inject [OF assms] by simp
  then show ?thesis by (simp add: base_key_def)
qed

lemma last_two: "(a @ [c, d] = b @ [c', d']) \<longleftrightarrow> a = b \<and> c = c' \<and> d = d'"
  by (metis (no_types, lifting) append_eq_append_conv list.inject list.size(3) list.size(4))

lemma storage_key_kinds [simp]:
  "counter_key pre k \<noteq> block_key pre k'" "tb_key pre k \<noteq> block_key pre k'" "tb_key pre k \<noteq> counter_key pre k'"
  "block_key pre k \<noteq> counter_key pre k'" "block_key pre k \<noteq> tb_key pre k'" "counter_key pre k \<noteq> tb_key pre k'"
proof -
  have tb: "base_key pre k @ '':tb'' = (base_key pre k @ '':'') @ ''tb''" for k by simp
  show "counter_key pre k \<noteq> block_key pre k'" "block_key pre k \<noteq> counter_key pre k'"
    by (simp_all add: redis_keys last_two)
  show "tb_key pre k \<noteq> block_key pre k'" "tb_key pre k \<noteq> counter_key pre k'"
    "block_key pre k \<noteq> tb_key pre k'" "counter_key pre k \<noteq> tb_key pre k'"
    unfolding redis_keys tb last_two by simp_all
qed

text \<open>
  The part of a key a Redis cluster hashes to find its slot: what stands between the first opening
  brace and the next closing one, or the whole key when there is nothing there.
\<close>

definition hash_tag :: "string \<Rightarrow> string" where
  "hash_tag s =
     (case dropWhile (\<lambda>c. c \<noteq> CHR ''{'') s of
        [] \<Rightarrow> s
      | _ # r \<Rightarrow> (let tag = takeWhile (\<lambda>c. c \<noteq> CHR ''}'') r
                  in if CHR ''}'' \<notin> set r \<or> tag = [] then s else tag))"

lemma hash_tag_base:
  assumes "CHR ''{'' \<notin> set pre" "CHR ''{'' \<notin> set (key_Limiter k)"
  shows "hash_tag (base_key pre k @ s) =
    (if SanitizeBucket (key_Bucket k) = [] then base_key pre k @ s else SanitizeBucket (key_Bucket k))"
proof -
  let ?b = "SanitizeBucket (key_Bucket k)"
  have head: "\<forall>c \<in> set (pre @ key_Limiter k @ '':''). c \<noteq> CHR ''{''" using assms by auto
  have "dropWhile (\<lambda>c. c \<noteq> CHR ''{'') (base_key pre k @ s) = CHR ''{'' # ?b @ CHR ''}'' # s"
    using dropWhile_append2 [of "pre @ key_Limiter k @ '':''" "\<lambda>c. c \<noteq> CHR ''{''" "CHR ''{'' # ?b @ CHR ''}'' # s"] head
    by (simp add: base_key_def)
  moreover have "takeWhile (\<lambda>c. c \<noteq> CHR ''}'') (?b @ CHR ''}'' # s) = ?b"
    using SanitizeBucket_no_brace(2) [of "key_Bucket k"] by (subst takeWhile_append2) auto
  ultimately show ?thesis by (simp add: hash_tag_def Let_def)
qed

subsection \<open>The contract\<close>

locale redis_server = clk: passing_clock now time_of wait
  for now :: "'w clock" and time_of :: "'w \<Rightarrow> time" and wait :: "nat \<Rightarrow> 'w \<Rightarrow> 'w" +
  fixes R :: "'w redis" and expiry :: "'w \<Rightarrow> string \<Rightarrow> time option" and trip :: duration
  assumes trip_nonneg: "0 \<le> trip"
    and now_expiry: "now w = (t, w') \<Longrightarrow> expiry w' = expiry w"
    and wait_expiry: "expiry (wait d w) = expiry w"
    and ttl_reads: "rd_TTL R k w = (x, w') \<Longrightarrow> time_of w \<le> time_of w' \<and> expiry w' = expiry w"
    and ttl_reports: "rd_TTL R k w = (Inr n, w') \<Longrightarrow> 0 < n \<Longrightarrow>
      \<exists>e. expiry w' k = Some e \<and> time_of w' + n * Second \<le> e + Second"
    and ttl_live: "rd_TTL R k w = (Inr n, w') \<Longrightarrow> expiry w k = Some e \<Longrightarrow> time_of w' < e - Second \<Longrightarrow> 0 < n"
    and incr_other: "rd_INCR R k w = (y, w') \<Longrightarrow> time_of w \<le> time_of w' \<and> (k' \<noteq> k \<longrightarrow> expiry w' k' = expiry w k')"
    and expire_other: "rd_EXPIRE R k n w = (u, w') \<Longrightarrow> time_of w \<le> time_of w' \<and> (k' \<noteq> k \<longrightarrow> expiry w' k' = expiry w k')"
    and set_other: "rd_SET_EX R k v n w = (u, w') \<Longrightarrow> time_of w \<le> time_of w' \<and> (k' \<noteq> k \<longrightarrow> expiry w' k' = expiry w k')"
    and set_lives: "rd_SET_EX R k v n w = (Inr (), w') \<Longrightarrow>
      time_of w' \<le> time_of w + trip \<and> (\<exists>e. expiry w' k = Some e \<and> time_of w + n * Second \<le> e)"
    and del_other: "rd_DEL R k w = (u, w') \<Longrightarrow>
      time_of w \<le> time_of w' \<and> time_of w' \<le> time_of w + trip \<and> (k' \<noteq> k \<longrightarrow> expiry w' k' = expiry w k')"
    and time_reads: "rd_TIME R w = (tv, w') \<Longrightarrow> time_of w \<le> time_of w' \<and> expiry w' = expiry w"
    and hmget_reads: "rd_HMGET R k w = (st, w') \<Longrightarrow> time_of w \<le> time_of w' \<and> expiry w' = expiry w"
    and hset_other: "rd_HSET R k a b w = (u, w') \<Longrightarrow> time_of w \<le> time_of w' \<and> (k' \<noteq> k \<longrightarrow> expiry w' k' = expiry w k')"
    and pexpire_other: "rd_PEXPIRE R k n w = (u, w') \<Longrightarrow> time_of w \<le> time_of w' \<and> (k' \<noteq> k \<longrightarrow> expiry w' k' = expiry w k')"
    and send_reads: "rd_send R w = (u, w') \<Longrightarrow> time_of w \<le> time_of w' \<and> expiry w' = expiry w"
    and recv_reads: "rd_recv R w = (u, w') \<Longrightarrow>
      time_of w \<le> time_of w' \<and> time_of w' \<le> time_of w + trip \<and> expiry w' = expiry w"
begin

text \<open>Commands that leave a key's expiry alone, and that only let time go forward.\<close>

definition quiet :: "string \<Rightarrow> ('w, 'a) cmd \<Rightarrow> bool" where
  "quiet k m \<longleftrightarrow> (\<forall>w. time_of w \<le> time_of (snd (m w)) \<and> expiry (snd (m w)) k = expiry w k)"

definition forward :: "('w, 'a) cmd \<Rightarrow> bool" where
  "forward m \<longleftrightarrow> (\<forall>w. time_of w \<le> time_of (snd (m w)))"

lemma quietI: "(\<And>w x w'. m w = (x, w') \<Longrightarrow> time_of w \<le> time_of w' \<and> expiry w' k = expiry w k) \<Longrightarrow> quiet k m"
  unfolding quiet_def by (metis surjective_pairing)

lemma forwardI: "(\<And>w x w'. m w = (x, w') \<Longrightarrow> time_of w \<le> time_of w') \<Longrightarrow> forward m"
  unfolding forward_def by (metis surjective_pairing)

lemma quiet_call: "quiet k m \<Longrightarrow> (\<And>x. quiet k (f x)) \<Longrightarrow> quiet k (call m f)"
  unfolding quiet_def call_def
  by (auto split: prod.splits sum.splits) (metis order_trans snd_conv)+

lemma forward_call: "forward m \<Longrightarrow> (\<And>x. forward (f x)) \<Longrightarrow> forward (call m f)"
  unfolding forward_def call_def
  by (auto split: prod.splits sum.splits) (metis order_trans snd_conv)+

lemma quiet_reply: "quiet k (reply x)" and forward_reply: "forward (reply x)"
  by (simp_all add: quiet_def forward_def reply_def)

lemma quiet_reads:
  "quiet k' (rd_TTL R k)" "quiet k' (rd_TIME R)" "quiet k' (rd_HMGET R k)" "quiet k' (rd_send R)" "quiet k' (rd_recv R)"
  by (rule quietI, drule ttl_reads time_reads hmget_reads send_reads recv_reads, simp)+

lemma quiet_writes:
  "k' \<noteq> k \<Longrightarrow> quiet k' (rd_INCR R k)" "k' \<noteq> k \<Longrightarrow> quiet k' (rd_EXPIRE R k n)" "k' \<noteq> k \<Longrightarrow> quiet k' (rd_SET_EX R k v n)"
  "k' \<noteq> k \<Longrightarrow> quiet k' (rd_DEL R k)" "k' \<noteq> k \<Longrightarrow> quiet k' (rd_HSET R k a b)" "k' \<noteq> k \<Longrightarrow> quiet k' (rd_PEXPIRE R k n)"
proof -
  show "k' \<noteq> k \<Longrightarrow> quiet k' (rd_INCR R k)" by (rule quietI) (use incr_other in blast)
  show "k' \<noteq> k \<Longrightarrow> quiet k' (rd_EXPIRE R k n)" by (rule quietI) (use expire_other in blast)
  show "k' \<noteq> k \<Longrightarrow> quiet k' (rd_SET_EX R k v n)" by (rule quietI) (use set_other in blast)
  show "k' \<noteq> k \<Longrightarrow> quiet k' (rd_DEL R k)" by (rule quietI) (use del_other in blast)
  show "k' \<noteq> k \<Longrightarrow> quiet k' (rd_HSET R k a b)" by (rule quietI) (use hset_other in blast)
  show "k' \<noteq> k \<Longrightarrow> quiet k' (rd_PEXPIRE R k n)" by (rule quietI) (use pexpire_other in blast)
qed

lemma forward_reads:
  "forward (rd_TTL R k)" "forward (rd_TIME R)" "forward (rd_HMGET R k)" "forward (rd_send R)" "forward (rd_recv R)"
  by (rule forwardI, drule ttl_reads time_reads hmget_reads send_reads recv_reads, simp)+

lemma forward_writes:
  "forward (rd_INCR R k)" "forward (rd_EXPIRE R k n)" "forward (rd_SET_EX R k v n)" "forward (rd_DEL R k)"
  "forward (rd_HSET R k a b)" "forward (rd_PEXPIRE R k n)"
proof -
  show "forward (rd_INCR R k)" by (rule forwardI) (use incr_other in blast)
  show "forward (rd_EXPIRE R k n)" by (rule forwardI) (use expire_other in blast)
  show "forward (rd_SET_EX R k v n)" by (rule forwardI) (use set_other in blast)
  show "forward (rd_DEL R k)" by (rule forwardI) (use del_other in blast)
  show "forward (rd_HSET R k a b)" by (rule forwardI) (use hset_other in blast)
  show "forward (rd_PEXPIRE R k n)" by (rule forwardI) (use pexpire_other in blast)
qed

lemmas quiet_rules = quiet_call quiet_reply quiet_reads quiet_writes
lemmas forward_rules = forward_call forward_reply forward_reads forward_writes

lemma decide_count_quiet: "k' \<noteq> k1 \<Longrightarrow> k' \<noteq> k2 \<Longrightarrow> quiet k' (decide_count R k1 k2 limit window block)"
  unfolding decide_count_def decide_block_def by (auto intro!: quiet_rules)

lemma decide_quiet: "k' \<noteq> k1 \<Longrightarrow> k' \<noteq> k2 \<Longrightarrow> quiet k' (decide R k1 k2 limit window block)"
  unfolding decide_def by (auto intro!: quiet_rules decide_count_quiet)

lemma decide_count_forward: "forward (decide_count R k1 k2 limit window block)"
  unfolding decide_count_def decide_block_def by (auto intro!: forward_rules)

lemma decide_forward: "forward (decide R k1 k2 limit window block)"
  unfolding decide_def by (auto intro!: forward_rules decide_count_forward)

lemma take_quiet: "k' \<noteq> k \<Longrightarrow> quiet k' (take_script R k rate burst)"
  unfolding take_script_def by (auto intro!: quiet_rules split: prod.split)

lemma run_script_quiet: "quiet k m \<Longrightarrow> quiet k (run_script R m)"
  unfolding run_script_def by (intro quiet_rules)

lemma run_script_forward: "forward m \<Longrightarrow> forward (run_script R m)"
  unfolding run_script_def by (intro forward_rules)

end

subsection \<open>The store over it\<close>

lemma call_Inr: "call m f w = (Inr x, w') \<longleftrightarrow> (\<exists>y w1. m w = (Inr y, w1) \<and> f y w1 = (Inr x, w'))"
  by (auto simp: call_def split: prod.splits sum.splits)

lemma reply_Inr [simp]: "reply x w = (y, w') \<longleftrightarrow> y = Inr x \<and> w' = w"
  by (auto simp: reply_def)

lemma run_script_Inr:
  "run_script R m w = (Inr raw, w') \<longleftrightarrow>
     (\<exists>w1 w2. rd_send R w = (Inr (), w1) \<and> m w1 = (Inr raw, w2) \<and> rd_recv R w2 = (Inr (), w'))"
  by (auto simp: run_script_def call_Inr)

lemma wrap64_le: "0 \<le> n \<Longrightarrow> wrap64 n \<le> n"
proof -
  assume "0 \<le> n"
  then have "(n + 2 ^ 63) mod 2 ^ 64 \<le> n + 2 ^ 63" by (intro zmod_le_nonneg_dividend) simp
  then show ?thesis by (simp add: wrap64_def)
qed

lemma seconds_pos: "1 \<le> seconds d"
  using Seconds_pos [of d] by (auto simp: seconds_def)

lemma reported_seconds: "0 \<le> n \<Longrightarrow> wrap64 (trunc (float n) * Second) \<le> n * Second"
proof (cases "n \<le> 2 ^ 53")
  case True
  assume "0 \<le> n"
  with True have "trunc (float n) = n" by (simp add: float_int trunc_def)
  with \<open>0 \<le> n\<close> show ?thesis using wrap64_le [of "n * Second"] by (simp add: duration_units)
next
  case False
  then have "max_int64 \<le> n * Second" by (simp add: int64_defs duration_units)
  then show ?thesis using wrap64_range order_trans by blast
qed

locale redis_store = redis_server now time_of wait R expiry trip
  for now :: "'w clock" and time_of :: "'w \<Rightarrow> time" and wait :: "nat \<Rightarrow> 'w \<Rightarrow> 'w"
    and R :: "'w redis" and expiry :: "'w \<Rightarrow> string \<Rightarrow> time option" and trip :: duration +
  fixes pre :: string
begin

definition marked :: "'w \<Rightarrow> key \<Rightarrow> time \<Rightarrow> bool" where
  "marked w k u \<longleftrightarrow> (case expiry w (block_key pre k) of Some e \<Rightarrow> u \<le> e - Second | None \<Rightarrow> False)"

lemma marked_iff: "marked w k u \<longleftrightarrow> (\<exists>e. expiry w (block_key pre k) = Some e \<and> u \<le> e - Second)"
  by (simp add: marked_def split: option.splits)

lemma run_forward:
  "forward (run_script R (decide R (counter_key pre k) (block_key pre k) limit window block))"
  by (rule run_script_forward) (rule decide_forward)

lemma Consume_world:
  "st_Consume (RedisStore R pre) k r w = (x, w') \<Longrightarrow>
     w' = w \<or> w' = snd (run_script R (decide R (counter_key pre k) (block_key pre k)
       (rule_Limit r) (seconds (rule_Window r)) (seconds (rule_Block r))) w)"
  by (auto simp: RedisStore_def Redis_Consume_def split: if_splits prod.splits sum.splits)

lemma Take_world:
  "st_Take (RedisStore R pre) k b w = (x, w') \<Longrightarrow>
     w' = w \<or> w' = snd (run_script R (take_script R (tb_key pre k) (tb_Rate b) (tb_Burst b)) w)"
  by (auto simp: RedisStore_def Redis_Take_def split: if_splits prod.splits sum.splits)

lemma redis_consume_time: "st_Consume (RedisStore R pre) k r w = (x, w') \<Longrightarrow> time_of w \<le> time_of w'"
  using Consume_world run_forward unfolding forward_def by fastforce

lemma redis_take_quiet:
  assumes "st_Take (RedisStore R pre) k b w = (y, w')"
  shows "time_of w \<le> time_of w' \<and> expiry w' (block_key pre k') = expiry w (block_key pre k')"
proof -
  have "quiet (block_key pre k') (run_script R (take_script R (tb_key pre k) (tb_Rate b) (tb_Burst b)))"
    by (intro run_script_quiet take_quiet) simp
  with Take_world [OF assms] show ?thesis by (auto simp: quiet_def)
qed

text \<open>The script on a key whose marker is still live leaves the marker or outlasts it.\<close>

lemma decide_keeps:
  assumes "decide R k1 k2 limit window block w = (x, w')" "k2 \<noteq> k1" "expiry w k2 = Some e"
  shows "expiry w' k2 = Some e \<or> e - Second \<le> time_of w'"
proof -
  obtain a w1 where ttl: "rd_TTL R k2 w = (a, w1)" by (cases "rd_TTL R k2 w")
  have e1: "expiry w1 k2 = Some e" using ttl_reads [OF ttl] assms(3) by simp
  show ?thesis
  proof (cases "a \<in> Inr ` {n. n \<le> 0}")
    case True
    then obtain n where n: "a = Inr n" "n \<le> 0" by auto
    have "e - Second \<le> time_of w1" using ttl_live [of k2 w n w1 e] ttl n assms(3) by force
    moreover have "decide_count R k1 k2 limit window block w1 = (x, w')"
      using assms(1) ttl n by (simp add: decide_def call_def)
    then have "time_of w1 \<le> time_of w'"
      using decide_count_forward [of k1 k2 limit window block] unfolding forward_def by (metis snd_conv)
    ultimately show ?thesis by simp
  next
    case False
    then have "w' = w1"
      using assms(1) ttl by (auto simp: decide_def call_def split: sum.splits if_splits)
    with e1 show ?thesis by simp
  qed
qed

lemma redis_consume_keeps:
  assumes "st_Consume (RedisStore R pre) k r w = (x, w')" "marked w k' u"
  shows "marked w' k' u \<or> u \<le> time_of w'"
proof (cases "w' = w")
  case True
  with assms(2) show ?thesis by simp
next
  case False
  let ?d = "decide R (counter_key pre k) (block_key pre k) (rule_Limit r) (seconds (rule_Window r)) (seconds (rule_Block r))"
  have w': "w' = snd (run_script R ?d w)" using Consume_world [OF assms(1)] False by simp
  obtain e where e: "expiry w (block_key pre k') = Some e" "u \<le> e - Second" using assms(2) by (auto simp: marked_iff)
  show ?thesis
  proof (cases "block_key pre k' = block_key pre k")
    case False
    then have "quiet (block_key pre k') (run_script R ?d)" by (intro run_script_quiet decide_quiet) simp_all
    with w' e show ?thesis by (auto simp: quiet_def marked_iff)
  next
    case True
    obtain a w1 where s: "rd_send R w = (a, w1)" by (cases "rd_send R w")
    obtain b w2 where d: "?d w1 = (b, w2)" by (cases "?d w1")
    obtain c w3 where v: "rd_recv R w2 = (c, w3)" by (cases "rd_recv R w2")
    have e1: "expiry w1 (block_key pre k) = Some e" using send_reads [OF s] e True by simp
    have e2: "expiry w2 (block_key pre k) = Some e \<or> e - Second \<le> time_of w2"
      by (rule decide_keeps [OF d _ e1]) simp
    have "w' = w1 \<or> w' = w2 \<or> w' = w3"
      using w' s d v by (auto simp: run_script_def call_def reply_def split: sum.splits)
    then show ?thesis using e1 e2 recv_reads [OF v] e True by (auto simp: marked_iff)
  qed
qed

text \<open>What a successful run of the script replied, and how.\<close>

lemma decide_replies:
  assumes "decide R k1 k2 limit window block w = (Inr raw, w')"
  obtains (known) n where "rd_TTL R k2 w = (Inr n, w')" "0 < n" "raw = [1, -1, n]"
  | (fresh) c w2 w3 where "rd_SET_EX R k2 ''1'' block w2 = (Inr (), w3)" "rd_DEL R k1 w3 = (Inr (), w')"
      "raw = [1, trunc (float c), trunc (float block)]"
  | (below) c where "raw = [0, trunc (float c), 0]"
proof -
  obtain n w1 where ttl: "rd_TTL R k2 w = (Inr n, w1)"
    and rest: "(if n > 0 then reply [1, -1, n] else decide_count R k1 k2 limit window block) w1 = (Inr raw, w')"
    using assms by (auto simp: decide_def call_Inr)
  show thesis
  proof (cases "n > 0")
    case True
    with ttl rest show ?thesis using known [of n] by simp
  next
    case False
    with rest obtain c v where "(if float c > float limit then decide_block R k1 k2 block c
        else reply [0, trunc (float c), 0]) v = (Inr raw, w')"
      by (auto simp: decide_count_def call_Inr)
    then show ?thesis
      using fresh below by (auto simp: decide_block_def call_Inr split: if_splits)
  qed
qed

lemma Consume_replies:
  assumes "st_Consume (RedisStore R pre) k r w = (Ret res None, w')"
  obtains raw w1 w2 where "rd_send R w = (Inr (), w1)"
    "decide R (counter_key pre k) (block_key pre k) (rule_Limit r) (seconds (rule_Window r)) (seconds (rule_Block r)) w1
       = (Inr raw, w2)" "rd_recv R w2 = (Inr (), w')"
    "res_Blocked res \<longleftrightarrow> raw ! 0 = 1" "res_RetryAfter res = wrap64 (raw ! 2 * Second)"
  using assms
  by (auto simp: RedisStore_def Redis_Consume_def run_script_Inr split: if_splits prod.splits sum.splits)

lemma redis_consume_reports:
  assumes "st_Consume (RedisStore R pre) k r w = (Ret res None, w')" "res_Blocked res"
  shows "marked w' k (time_of w' + res_RetryAfter res - (2 * Second + 3 * trip))"
  using assms(1)
proof (rule Consume_replies)
  fix raw w1 w2
  assume d: "decide R (counter_key pre k) (block_key pre k) (rule_Limit r) (seconds (rule_Window r))
      (seconds (rule_Block r)) w1 = (Inr raw, w2)"
    and v: "rd_recv R w2 = (Inr (), w')" and blk: "res_Blocked res \<longleftrightarrow> raw ! 0 = 1"
    and ra: "res_RetryAfter res = wrap64 (raw ! 2 * Second)"
  have w': "time_of w' \<le> time_of w2 + trip" "expiry w' = expiry w2" using recv_reads [OF v] by simp_all
  from d show ?thesis
  proof (cases rule: decide_replies)
    case (known n)
    have "res_RetryAfter res \<le> n * Second"
      using ra known wrap64_le [of "n * Second"] by (simp add: duration_units)
    moreover obtain e where "expiry w2 (block_key pre k) = Some e" "time_of w2 + n * Second \<le> e + Second"
      using ttl_reports [OF known(1,2)] by blast
    ultimately show ?thesis using w' trip_nonneg by (auto simp: marked_iff)
  next
    case (fresh c v2 w3)
    have "res_RetryAfter res \<le> seconds (rule_Block r) * Second"
      using ra fresh reported_seconds [of "seconds (rule_Block r)"] seconds_pos [of "rule_Block r"] by simp
    moreover obtain e where e: "expiry w3 (block_key pre k) = Some e" "time_of v2 + seconds (rule_Block r) * Second \<le> e"
      and t3: "time_of w3 \<le> time_of v2 + trip" using set_lives [OF fresh(1)] by blast
    moreover have "expiry w2 (block_key pre k) = expiry w3 (block_key pre k)" "time_of w2 \<le> time_of w3 + trip"
      using del_other [OF fresh(2), of "block_key pre k"] by auto
    ultimately show ?thesis using w' by (auto simp: marked_iff duration_units)
  next
    case (below c)
    with blk assms(2) show ?thesis by simp
  qed
qed

lemma redis_consume_refuses:
  assumes "st_Consume (RedisStore R pre) k r w = (Ret res None, w')" "marked w k u" "time_of w' < u"
  shows "res_Blocked res"
  using assms(1)
proof (rule Consume_replies)
  fix raw w1 w2
  assume s: "rd_send R w = (Inr (), w1)"
    and d: "decide R (counter_key pre k) (block_key pre k) (rule_Limit r) (seconds (rule_Window r))
      (seconds (rule_Block r)) w1 = (Inr raw, w2)"
    and v: "rd_recv R w2 = (Inr (), w')" and blk: "res_Blocked res \<longleftrightarrow> raw ! 0 = 1"
  obtain e where e: "expiry w1 (block_key pre k) = Some e" "u \<le> e - Second"
    using assms(2) send_reads [OF s] by (auto simp: marked_iff)
  obtain n w3 where ttl: "rd_TTL R (block_key pre k) w1 = (Inr n, w3)"
    and rest: "(if n > 0 then reply [1, -1, n] else decide_count R (counter_key pre k) (block_key pre k)
       (rule_Limit r) (seconds (rule_Window r)) (seconds (rule_Block r))) w3 = (Inr raw, w2)"
    using d by (auto simp: decide_def call_Inr)
  have "time_of w3 \<le> time_of w2"
    using rest decide_count_forward unfolding forward_def by (auto split: if_splits) (metis snd_conv)
  then have "time_of w3 < e - Second" using recv_reads [OF v] assms(3) e(2) by auto
  then have "n > 0" using ttl_live [OF ttl e(1)] by simp
  with rest blk show ?thesis by auto
qed

end

sublocale redis_store \<subseteq> rs: blocking_store now time_of "RedisStore R pre" wait "\<lambda>_. True" marked "2 * Second + 3 * trip"
proof
  fix w w' k k' and u u' :: time and t :: time and r :: rule and b :: bucket and n :: nat
    and x :: "result ret" and y :: "take_result ret"
  show "0 \<le> 2 * Second + 3 * trip" using trip_nonneg by (simp add: duration_units)
  show "time_of w \<le> time_of (wait n w)" by (rule clk.wait_time)
  show "marked w k u \<Longrightarrow> marked (wait n w) k u" by (simp add: marked_iff wait_expiry)
  show "marked w k u \<Longrightarrow> u' \<le> u \<Longrightarrow> marked w k u'" by (auto simp: marked_iff)
  show "now w = (t, w') \<Longrightarrow> marked w k u \<Longrightarrow> marked w' k u" by (simp add: marked_iff now_expiry)
  show "st_Consume (RedisStore R pre) k r w = (x, w') \<Longrightarrow> time_of w \<le> time_of w'" by (rule redis_consume_time)
  show "st_Take (RedisStore R pre) k b w = (y, w') \<Longrightarrow> time_of w \<le> time_of w'" using redis_take_quiet by blast
  show "st_Take (RedisStore R pre) k b w = (y, w') \<Longrightarrow> good_key k \<Longrightarrow> good_key k' \<Longrightarrow> True \<Longrightarrow> marked w k' u \<Longrightarrow>
      marked w' k' u \<or> u \<le> time_of w'"
    using redis_take_quiet by (simp add: marked_iff)
  show "st_Consume (RedisStore R pre) k r w = (x, w') \<Longrightarrow> good_key k \<Longrightarrow> good_key k' \<Longrightarrow> True \<Longrightarrow> marked w k' u \<Longrightarrow>
      marked w' k' u \<or> u \<le> time_of w'"
    by (rule redis_consume_keeps)
qed (auto intro: redis_consume_refuses redis_consume_reports)

subsection \<open>Properties\<close>

text \<open>C29. Storage keys separate buckets: two keys whose limiter or sanitised bucket differ share none
  of their storage keys, and the counter, the block marker and the token bucket of one key are
  three different keys.\<close>

theorem storage_keys_separate:
  assumes "separable (key_Limiter k)" "separable (key_Limiter k')"
    and "key_Limiter k \<noteq> key_Limiter k' \<or> SanitizeBucket (key_Bucket k) \<noteq> SanitizeBucket (key_Bucket k')"
  shows "distinct [counter_key pre k, block_key pre k, tb_key pre k, counter_key pre k', block_key pre k', tb_key pre k']"
proof -
  have "base_key pre k \<noteq> base_key pre k'" using assms base_key_inject [of k k' pre] by blast
  then have "counter_key pre k \<noteq> counter_key pre k'" "block_key pre k \<noteq> block_key pre k'" "tb_key pre k \<noteq> tb_key pre k'"
    by (simp_all add: redis_keys)
  then show ?thesis by simp
qed

theorem storage_keys_separate_witness:
  "let k = \<lparr>key_Limiter = ''login'', key_Bucket = ''a:b''\<rparr>; k' = \<lparr>key_Limiter = ''login-a'', key_Bucket = ''b''\<rparr>
   in distinct [counter_key ''f:'' k, block_key ''f:'' k, tb_key ''f:'' k, counter_key ''f:'' k', block_key ''f:'' k', tb_key ''f:'' k']"
  unfolding Let_def by (rule storage_keys_separate) simp_all



end
