(* ===== verification/RedisRef.thy ===== *)
theory RedisRef
  imports RedisLaws
begin

text \<open>
  A reference keyspace: the documented semantics of the commands the scripts use, on a map of keys
  to values with an optional expiry. It discharges \<open>redis_store\<close>, so the laws can hold together,
  and it is what the properties over Redis are evaluated on. Commands answer at once; a keyspace
  that is down refuses every round trip.
\<close>

datatype redis_value = RText string | RHash "rat option \<times> rat option"

record keyspace =
  ks_data :: "string \<rightharpoonup> redis_value \<times> time option"
  ks_down :: "goerror option"

type_synonym ks_world = "keyspace \<times> schedule"

definition ks_empty :: keyspace where "ks_empty = \<lparr>ks_data = Map.empty, ks_down = None\<rparr>"

abbreviation ks_time :: "ks_world \<Rightarrow> time" where "ks_time w \<equiv> fst (snd w)"

definition ks_expiry :: "ks_world \<Rightarrow> string \<Rightarrow> time option" where
  "ks_expiry w k = (case ks_data (fst w) k of Some (_, e) \<Rightarrow> e | None \<Rightarrow> None)"

text \<open>A key as a command sees it: absent once its expiry has come.\<close>

definition ks_get :: "string \<Rightarrow> ks_world \<Rightarrow> (redis_value \<times> time option) option" where
  "ks_get k w = (case ks_data (fst w) k of
     Some (v, Some e) \<Rightarrow> if ks_time w < e then Some (v, Some e) else None
   | Some (v, None) \<Rightarrow> Some (v, None)
   | None \<Rightarrow> None)"

definition ks_put :: "string \<Rightarrow> (redis_value \<times> time option) option \<Rightarrow> ks_world \<Rightarrow> ks_world" where
  "ks_put k v = (\<lambda>(ks, s). (ks\<lparr>ks_data := (ks_data ks)(k := v)\<rparr>, s))"

definition ks_TTL :: "string \<Rightarrow> (ks_world, int) cmd" where
  "ks_TTL k w = (Inr (case ks_get k w of
     None \<Rightarrow> -2
   | Some (_, None) \<Rightarrow> -1
   | Some (_, Some e) \<Rightarrow> (e - ks_time w + Second div 2) div Second), w)"

definition ks_INCR :: "string \<Rightarrow> (ks_world, int) cmd" where
  "ks_INCR k w = (case ks_get k w of
     None \<Rightarrow> (Inr 1, ks_put k (Some (RText (Itoa 1), None)) w)
   | Some (RText s, e) \<Rightarrow>
       (case ParseInt s of
          None \<Rightarrow> (Inl (Errorf ''ERR value is not an integer or out of range''), w)
        | Some n \<Rightarrow> if n = max_int64 then (Inl (Errorf ''ERR increment or decrement would overflow''), w)
                    else (Inr (n + 1), ks_put k (Some (RText (Itoa (n + 1)), e)) w))
   | Some (RHash _, _) \<Rightarrow> (Inl (Errorf ''WRONGTYPE''), w))"

definition ks_expire_at :: "string \<Rightarrow> time \<Rightarrow> ks_world \<Rightarrow> ks_world" where
  "ks_expire_at k e w = (case ks_get k w of
     None \<Rightarrow> w
   | Some (v, _) \<Rightarrow> ks_put k (if e \<le> ks_time w then None else Some (v, Some e)) w)"

definition ks_EXPIRE :: "string \<Rightarrow> int \<Rightarrow> (ks_world, unit) cmd" where
  "ks_EXPIRE k n w = (Inr (), ks_expire_at k (ks_time w + n * Second) w)"

definition ks_PEXPIRE :: "string \<Rightarrow> int \<Rightarrow> (ks_world, unit) cmd" where
  "ks_PEXPIRE k n w = (Inr (), ks_expire_at k (ks_time w + n * Millisecond) w)"

definition ks_SET_EX :: "string \<Rightarrow> string \<Rightarrow> int \<Rightarrow> (ks_world, unit) cmd" where
  "ks_SET_EX k v n w =
     (if n \<le> 0 then (Inl (Errorf ''ERR invalid expire time in 'set' command''), w)
      else (Inr (), ks_put k (Some (RText v, Some (ks_time w + n * Second))) w))"

definition ks_DEL :: "string \<Rightarrow> (ks_world, unit) cmd" where "ks_DEL k w = (Inr (), ks_put k None w)"

definition ks_TIME :: "(ks_world, int \<times> int) cmd" where
  "ks_TIME w = (Inr (ks_time w div Second, ks_time w mod Second div Microsecond), w)"

definition ks_HMGET :: "string \<Rightarrow> (ks_world, rat option \<times> rat option) cmd" where
  "ks_HMGET k w = (case ks_get k w of
     None \<Rightarrow> (Inr (None, None), w)
   | Some (RHash st, _) \<Rightarrow> (Inr st, w)
   | Some (RText _, _) \<Rightarrow> (Inl (Errorf ''WRONGTYPE''), w))"

definition ks_HSET :: "string \<Rightarrow> rat \<Rightarrow> rat \<Rightarrow> (ks_world, unit) cmd" where
  "ks_HSET k n t w = (case ks_get k w of
     None \<Rightarrow> (Inr (), ks_put k (Some (RHash (Some n, Some t), None)) w)
   | Some (RHash _, e) \<Rightarrow> (Inr (), ks_put k (Some (RHash (Some n, Some t), e)) w)
   | Some (RText _, _) \<Rightarrow> (Inl (Errorf ''WRONGTYPE''), w))"

definition ks_send :: "(ks_world, unit) cmd" where
  "ks_send w = (case ks_down (fst w) of Some e \<Rightarrow> (Inl e, w) | None \<Rightarrow> (Inr (), w))"

definition Keyspace :: "ks_world redis" where
  "Keyspace = \<lparr>rd_TTL = ks_TTL, rd_INCR = ks_INCR, rd_EXPIRE = ks_EXPIRE, rd_SET_EX = ks_SET_EX, rd_DEL = ks_DEL,
     rd_TIME = ks_TIME, rd_HMGET = ks_HMGET, rd_HSET = ks_HSET, rd_PEXPIRE = ks_PEXPIRE, rd_send = ks_send,
     rd_recv = ks_send, rd_PING = ks_send, rd_close = (\<lambda>w. (None, w))\<rparr>"

lemmas ks_cmds = ks_TTL_def ks_INCR_def ks_EXPIRE_def ks_PEXPIRE_def ks_SET_EX_def ks_DEL_def ks_TIME_def
  ks_HMGET_def ks_HSET_def ks_send_def

lemma ks_put_simps [simp]:
  "snd (ks_put k v w) = snd w" "ks_data (fst (ks_put k v w)) = (ks_data (fst w))(k := v)"
  "ks_down (fst (ks_put k v w)) = ks_down (fst w)"
  by (simp_all add: ks_put_def split: prod.split)

lemma ks_expiry_put: "ks_expiry (ks_put k v w) k' = (if k' = k then Option.bind v snd else ks_expiry w k')"
  by (auto simp: ks_expiry_def split: option.splits)

lemma ks_expire_at_other: "snd (ks_expire_at k e w) = snd w" "k' \<noteq> k \<Longrightarrow> ks_expiry (ks_expire_at k e w) k' = ks_expiry w k'"
  by (auto simp: ks_expire_at_def ks_expiry_put split: option.splits)

lemma ks_get_expiry: "ks_expiry w k = Some e \<Longrightarrow> ks_time w < e \<Longrightarrow> \<exists>v. ks_get k w = Some (v, Some e)"
  by (auto simp: ks_expiry_def ks_get_def split: option.splits prod.splits)

lemma ks_get_SomeD: "ks_get k w = Some (v, e) \<Longrightarrow> ks_expiry w k = e"
  by (auto simp: ks_expiry_def ks_get_def split: option.splits prod.splits if_splits)

lemma ks_TTL_reports:
  assumes "ks_TTL k w = (Inr n, w')" "0 < n"
  shows "\<exists>e. ks_expiry w' k = Some e \<and> ks_time w' + n * Second \<le> e + Second"
proof -
  obtain v e where e: "ks_get k w = Some (v, Some e)" "n = (e - ks_time w + Second div 2) div Second"
    using assms by (auto simp: ks_TTL_def split: option.splits)
  then have "n * Second \<le> e - ks_time w + Second div 2"
    by (simp add: duration_units) 
  moreover have "w' = w" using assms by (simp add: ks_TTL_def)
  ultimately show ?thesis using ks_get_SomeD [OF e(1)] by (auto simp: duration_units)
qed

lemma ks_TTL_live:
  assumes "ks_TTL k w = (Inr n, w')" "ks_expiry w k = Some e" "ks_time w' < e - Second"
  shows "0 < n"
proof -
  have w: "w' = w" using assms by (simp add: ks_TTL_def)
  with assms(3) have "ks_time w < e" by (simp add: duration_units)
  then obtain v where "ks_get k w = Some (v, Some e)" using ks_get_expiry [OF assms(2)] by blast
  then have "n = (e - ks_time w + Second div 2) div Second" using assms(1) w by (auto simp: ks_TTL_def)
  with assms(3) w show ?thesis by (simp add: duration_units pos_imp_zdiv_pos_iff)
qed

interpretation keyspace: redis_store "lift_clock (Prompt lag)" "\<lambda>w. ks_time w" "lift_wait Waiting" Keyspace ks_expiry 0 pre
  for lag pre
proof -
  have clock: "passing_clock (lift_clock (Prompt lag)) (\<lambda>w :: ks_world. ks_time w) (lift_wait Waiting)"
    by (intro passing_clock.intro passing_clock_axioms.intro lift_clock_monotone
        prompt_passing.monotone_clock_axioms) (simp add: prompt_passing.wait_time)
  show "redis_store (lift_clock (Prompt lag)) (\<lambda>w. ks_time w) (lift_wait Waiting) Keyspace ks_expiry 0"
    unfolding redis_store_def
  proof (intro redis_server.intro redis_server_axioms.intro clock)
    fix w w' :: ks_world and t :: time and d :: nat and k k' :: string and n e :: int
    show "lift_clock (Prompt lag) w = (t, w') \<Longrightarrow> ks_expiry w' = ks_expiry w"
      by (cases w) (auto simp: lift_clock_eq ks_expiry_def)
    show "ks_expiry (lift_wait Waiting d w) = ks_expiry w"
      by (simp add: ks_expiry_def fun_eq_iff)
    show "rd_TTL Keyspace k w = (Inr n, w') \<Longrightarrow> 0 < n \<Longrightarrow>
        \<exists>e. ks_expiry w' k = Some e \<and> ks_time w' + n * Second \<le> e + Second"
      using ks_TTL_reports by (simp add: Keyspace_def)
    show "rd_TTL Keyspace k w = (Inr n, w') \<Longrightarrow> ks_expiry w k = Some e \<Longrightarrow> ks_time w' < e - Second \<Longrightarrow> 0 < n"
      using ks_TTL_live by (simp add: Keyspace_def)
    fix v
    show "rd_SET_EX Keyspace k v n w = (Inr (), w') \<Longrightarrow> ks_time w' \<le> ks_time w + 0 \<and>
        (\<exists>e. ks_expiry w' k = Some e \<and> ks_time w + n * Second \<le> e)"
      by (auto simp: Keyspace_def ks_SET_EX_def ks_expiry_put split: if_splits simp del: split_paired_All)
  qed (auto simp: Keyspace_def ks_cmds ks_expiry_put ks_expire_at_other
      split: option.splits prod.splits redis_value.splits if_splits)
qed

end
