(* ===== verification/Stack.thy ===== *)
theory Stack
  imports Fake BlockCache RedisRef
begin

text \<open>
  The chain of stores a request goes through, outermost first: block cache, circuit breaker,
  Redis (\<open>buildStore\<close> in \<open>cmd/forwardlimit/main.go\<close>). Each decorator keeps the contract
  \<open>blocking_store\<close> of the store below it, so the whole chain has it. A layer the configuration
  leaves out is a \<open>Bypass\<close>, which keeps the worlds of all chains of one type.
\<close>

definition Bypass :: "'w store \<Rightarrow> ('m \<times> 'w) store" where
  "Bypass S = \<lparr>st_Consume = (\<lambda>k r (m, w). case st_Consume S k r w of (x, w') \<Rightarrow> (x, (m, w'))),
     st_Take = (\<lambda>k b (m, w). case st_Take S k b w of (x, w') \<Rightarrow> (x, (m, w'))),
     st_Close = (\<lambda>(m, w). case st_Close S w of (x, w') \<Rightarrow> (x, (m, w')))\<rparr>"

type_synonym 'w chain = "blockcache \<times> breaker \<times> 'w"

definition store_chain :: "bool \<Rightarrow> bool \<Rightarrow> 'w clock \<Rightarrow> 'w store \<Rightarrow> 'w chain store" where
  "store_chain breaking caching now S =
     (let st = (if breaking then Breaker S now else Bypass S)
      in if caching then BlockCache st (lift_clock now) else Bypass st)"

abbreviation chain_time :: "('w \<Rightarrow> time) \<Rightarrow> 'w chain \<Rightarrow> time" where "chain_time time_of x \<equiv> time_of (snd (snd x))"

subsection \<open>Every layer keeps the contract\<close>

lemma Bypass_blocking:
  assumes "blocking_store now time_of S wait I held slack"
  shows "blocking_store (lift_clock now) (\<lambda>x. time_of (snd x)) (Bypass S) (lift_wait wait)
    (\<lambda>x. I (snd x)) (\<lambda>x. held (snd x)) slack"
proof -
  note B = assms
  note T = blocking_store.axioms(1) [OF B]
  note M = timed_store.axioms(1) [OF T]
  show ?thesis
  proof (intro blocking_store.intro timed_store.intro lift_clock_monotone [OF M]; unfold_locales)
    show "0 \<le> slack" by (rule blocking_store.slack_nonneg [OF B])
  qed (auto simp: Bypass_def lift_clock_eq blocking_store.wait_time [OF B] split: prod.splits
      dest: timed_store.consume_time [OF T] timed_store.take_time [OF T] blocking_store.wait_inv [OF B]
        blocking_store.wait_held [OF B] blocking_store.now_inv [OF B] blocking_store.consume_inv [OF B]
        blocking_store.take_inv [OF B] blocking_store.held_antimono [OF B] blocking_store.now_held [OF B]
        blocking_store.consume_reports [OF B] blocking_store.consume_keeps [OF B]
        blocking_store.take_keeps [OF B] blocking_store.consume_refuses [OF B])
qed

context redis_store
begin

lemma rs_blocking: "blocking_store now time_of (RedisStore R pre) wait (\<lambda>_. True) marked (2 * Second + 3 * trip)"
  by (rule rs.blocking_store_axioms)

end

context breaker_over
begin

lemma breaker_blocking:
  "blocking_store (lift_clock now) (\<lambda>x. time_of (snd x)) (Breaker S now) (lift_wait wait)
     (\<lambda>x. inv (snd x)) (\<lambda>x. held (snd x)) slack"
  by (rule outer.blocking_store_axioms)

end

context cache_over
begin

lemma cache_blocking:
  "blocking_store (lift_clock now) (\<lambda>x. time_of (snd x)) (BlockCache S now) (lift_wait wait)
     sound (\<lambda>x. held (snd x)) (slack + lag)"
  by (rule outer.blocking_store_axioms)

lemma sound_fresh: "inv w \<Longrightarrow> sound (BlockCache_New maxEntries maxTTL, w)"
  by (simp add: sound_def BlockCache_New_def)

end

context blocking_store
begin

lemma reports_weaken:
  assumes "slack \<le> slack'" "st_Consume S k r w = (Ret res None, w')" "good_key k" "inv w" "res_Blocked res"
  shows "held w' k (time_of w' + res_RetryAfter res - slack') \<or> res_RetryAfter res \<le> slack'"
  using consume_reports [OF assms(2-5)] assms(1)
    held_antimono [of w' k "time_of w' + res_RetryAfter res - slack" "time_of w' + res_RetryAfter res - slack'"]
  by auto

lemma blocking_weaken: "slack \<le> slack' \<Longrightarrow> blocking_store now time_of S wait inv held slack'"
  by unfold_locales
    (use slack_nonneg in \<open>auto intro: wait_time wait_inv wait_held now_inv consume_inv take_inv held_antimono now_held
      consume_refuses dest: consume_keeps take_keeps reports_weaken\<close>)

lemma block_lasts_from:
  assumes "inv w0" "list_all op_good ps" "list_all op_good qs" "good_key k"
    and "st_Consume S k r (run_ops S wait ps w0) = (Ret res None, w1)" "res_Blocked res"
    and "st_Consume S k r' (run_ops S wait qs w1) = (Ret res' None, w2)"
    and "time_of w2 < time_of w1 + res_RetryAfter res - slack"
  shows "res_Blocked res'"
  using block_lasts [OF assms(5,6) inv_ops [OF assms(2,1)] assms(4,3,7,8)] .

end

lemma chain_contract:
  assumes S: "blocking_store now time_of S wait I held slack"
    and lag: "\<And>w t w'. now w = (t, w') \<Longrightarrow> t \<le> time_of w + lag"
  shows "\<exists>J. blocking_store (lift_clock (lift_clock now)) (chain_time time_of) (store_chain b c now S)
      (lift_wait (lift_wait wait)) J (\<lambda>x. held (snd (snd x))) (slack + lag) \<and>
    (\<forall>n ttl br w. I w \<longrightarrow> J (BlockCache_New n ttl, br, w))"
proof -
  let ?st = "if b then Breaker S now else Bypass S"
  have st: "blocking_store (lift_clock now) (\<lambda>x. time_of (snd x)) ?st (lift_wait wait)
      (\<lambda>x. I (snd x)) (\<lambda>x. held (snd x)) slack"
    by (cases b) (simp_all add: Bypass_blocking [OF S] breaker_over.breaker_blocking [OF breaker_over.intro [OF S]])
  have lag': "lift_clock now w = (t, w') \<Longrightarrow> t \<le> time_of (snd w) + lag" for w w' :: "breaker \<times> _" and t
    using lag by (cases w) (auto simp: lift_clock_eq)
  have cache: "cache_over (lift_clock now) (\<lambda>x. time_of (snd x)) ?st (lift_wait wait)
      (\<lambda>x. I (snd x)) (\<lambda>x. held (snd x)) slack lag"
    by (intro cache_over.intro st cache_over_axioms.intro lag')
  show ?thesis
  proof (cases c)
    case True
    then have "store_chain b c now S = BlockCache ?st (lift_clock now)" by (simp add: store_chain_def)
    then show ?thesis using cache_over.cache_blocking [OF cache] cache_over.sound_fresh [OF cache] by force
  next
    case False
    have "0 \<le> lag" by (rule cache_over.lag_nonneg [OF cache])
    then have "slack \<le> slack + lag" by simp
    from False have "store_chain b c now S = Bypass ?st" by (simp add: store_chain_def)
    moreover have "blocking_store (lift_clock (lift_clock now)) (chain_time time_of) (Bypass ?st :: 'a chain store)
        (lift_wait (lift_wait wait)) (\<lambda>x. I (snd (snd x))) (\<lambda>x. held (snd (snd x))) (slack + lag)"
      by (rule blocking_store.blocking_weaken [OF Bypass_blocking [OF st] \<open>slack \<le> slack + lag\<close>])
    ultimately show ?thesis by force
  qed
qed

text \<open>The decorators over the Redis store on the reference keyspace.\<close>

interpretation keyspace_breaker: breaker_over "lift_clock (Prompt lag)" "\<lambda>w. ks_time w" "RedisStore Keyspace pre"
  "lift_wait Waiting" "\<lambda>_. True" "keyspace.marked pre" "2 * Second + 3 * 0" for lag pre
  by (rule breaker_over.intro) (rule keyspace.rs.blocking_store_axioms)

interpretation keyspace_cache: cache_over "lift_clock (lift_clock (Prompt lag))" "\<lambda>x. ks_time (snd x)"
  "Breaker (RedisStore Keyspace pre) (lift_clock (Prompt lag))" "lift_wait (lift_wait Waiting)" "\<lambda>_. True"
  "\<lambda>x. keyspace.marked pre (snd x)" "2 * Second + 3 * 0" "int lag" for lag pre
proof (intro cache_over.intro cache_over_axioms.intro)
  show "blocking_store (lift_clock (lift_clock (Prompt lag))) (\<lambda>x. ks_time (snd x))
      (Breaker (RedisStore Keyspace pre) (lift_clock (Prompt lag))) (lift_wait (lift_wait Waiting)) (\<lambda>_. True)
      (\<lambda>x. keyspace.marked pre (snd x)) (2 * Second + 3 * 0)"
    by (rule keyspace_breaker.breaker_blocking)
  fix w w' :: "breaker \<times> ks_world" and t :: time
  assume "lift_clock (lift_clock (Prompt lag)) w = (t, w')"
  then show "t \<le> ks_time (snd w) + int lag" by (cases w, cases "snd w") (auto simp: lift_clock_eq dest: Prompt_lag)
qed

end
