(* ===== verification/Wiring.thy ===== *)
theory Wiring
  imports Build Stack
begin

text \<open>
  \<open>cmd/forwardlimit/main.go\<close> and the construction of the Redis client (\<open>New\<close> and \<open>buildTLS\<close> of
  \<open>redisstore.go\<close>): command line, start-up, the chain of stores, the report of \<open>-validate\<close>, the
  address of the health probe and the publication of store state. Reading files, certificates, the
  client library and the network are arguments; the process's exit is the value \<open>run\<close> gives.
\<close>

subsection \<open>The Redis client\<close>

record tls_host =
  th_ReadFile :: "string \<Rightarrow> goerror + string"
  th_AppendCertsFromPEM :: "string \<Rightarrow> bool"
  th_LoadX509KeyPair :: "string \<Rightarrow> string \<Rightarrow> goerror + string"

record tls_config =
  tls_MinVersion :: string
  tls_InsecureSkipVerify :: bool
  tls_RootCAs :: "string option"
  tls_Certificates :: "string list"

definition tls_roots :: "tls_host \<Rightarrow> string \<Rightarrow> tls_config \<Rightarrow> goerror + tls_config" where
  "tls_roots H ca out =
     (if ca = [] then Inr out
      else (case th_ReadFile H ca of
              Inl e \<Rightarrow> Inl (Wrapf ''redisstore: reading REDIS_TLS_CA_FILE'' e)
            | Inr pem \<Rightarrow>
                if \<not> th_AppendCertsFromPEM H pem then Inl (Errorf (''redisstore: '' @ ca @ '' contains no PEM certificate''))
                else Inr (out\<lparr>tls_RootCAs := Some pem\<rparr>)))"

definition tls_pair :: "tls_host \<Rightarrow> string \<Rightarrow> string \<Rightarrow> tls_config \<Rightarrow> goerror + tls_config" where
  "tls_pair H cert key out =
     (if cert \<noteq> [] \<and> key \<noteq> []
      then (case th_LoadX509KeyPair H cert key of
              Inl e \<Rightarrow> Inl (Wrapf ''redisstore: loading client certificate'' e)
            | Inr pair \<Rightarrow> Inr (out\<lparr>tls_Certificates := [pair]\<rparr>))
      else if cert \<noteq> [] \<or> key \<noteq> []
      then Inl (Errorf ''redisstore: REDIS_TLS_CERT_FILE and REDIS_TLS_KEY_FILE must be set together'')
      else Inr out)"

text \<open>\<open>redisstore.Config\<close>: what the store is told of the settings.\<close>

record store_config =
  sc_Addrs :: "string list"
  sc_Mode :: redis_mode
  sc_TLSEnabled :: bool
  sc_TLSSkipVerify :: bool
  sc_TLSCAFile :: string
  sc_TLSCertFile :: string
  sc_TLSKeyFile :: string
  sc_PoolSize :: int
  sc_MaxRetries :: int
  sc_DialTimeout :: duration
  sc_ReadTimeout :: duration
  sc_WriteTimeout :: duration
  sc_KeyPrefix :: string

definition buildTLS :: "tls_host \<Rightarrow> store_config \<Rightarrow> goerror + tls_config option" where
  "buildTLS H c =
     (if \<not> sc_TLSEnabled c then Inr None
      else (case tls_roots H (sc_TLSCAFile c)
                  \<lparr>tls_MinVersion = ''TLS 1.2'', tls_InsecureSkipVerify = sc_TLSSkipVerify c, tls_RootCAs = None,
                   tls_Certificates = []\<rparr> of
              Inl e \<Rightarrow> Inl e
            | Inr out \<Rightarrow>
                (case tls_pair H (sc_TLSCertFile c) (sc_TLSKeyFile c) out of
                   Inl e \<Rightarrow> Inl e
                 | Inr out' \<Rightarrow> Inr (Some out'))))"

record client_options =
  co_TLSConfig :: "tls_config option"
  co_PoolSize :: int
  co_MaxRetries :: int
  co_DialTimeout :: duration
  co_ReadTimeout :: duration
  co_WriteTimeout :: duration

datatype client = ClusterClient "string list" client_options | SingleClient string client_options

definition Redis_New :: "tls_host \<Rightarrow> store_config \<Rightarrow> goerror + client \<times> string" where
  "Redis_New H c =
     (if sc_Addrs c = [] then Inl (Errorf ''redisstore: no addresses configured'')
      else (case buildTLS H c of
              Inl e \<Rightarrow> Inl e
            | Inr tls \<Rightarrow>
                (let opts = \<lparr>co_TLSConfig = tls, co_PoolSize = sc_PoolSize c, co_MaxRetries = sc_MaxRetries c,
                       co_DialTimeout = sc_DialTimeout c, co_ReadTimeout = sc_ReadTimeout c,
                       co_WriteTimeout = sc_WriteTimeout c\<rparr>
                 in case sc_Mode c of
                      ModeCluster \<Rightarrow> Inr (ClusterClient (sc_Addrs c) opts, sc_KeyPrefix c)
                    | ModeSingle \<Rightarrow> Inr (SingleClient (sc_Addrs c ! 0) opts, sc_KeyPrefix c)
                    | ModeOther m \<Rightarrow> Inl (Errorf (''redisstore: unknown mode '' @ m)))))"

subsection \<open>The chain of stores\<close>

datatype start_log = StoreDisabled | StoreUnbuildable goerror | StoreUnreachable goerror | StoreConnected

text \<open>\<open>dial\<close> is the client library: the commands a client issues. The flags tell which layers exist.\<close>

record 'w built_store =
  bs_store :: "'w chain store"
  bs_cache :: bool
  bs_breaker :: bool
  bs_log :: "start_log list"

definition no_store :: "start_log \<Rightarrow> 'w built_store" where
  "no_store e = \<lparr>bs_store = Noop, bs_cache = False, bs_breaker = False, bs_log = [e]\<rparr>"

definition store_config_of :: "redis_config \<Rightarrow> store_config" where
  "store_config_of r = \<lparr>sc_Addrs = rc_Addrs r, sc_Mode = rc_Mode r, sc_TLSEnabled = rc_TLSEnabled r,
     sc_TLSSkipVerify = rc_TLSSkipVerify r, sc_TLSCAFile = rc_TLSCAFile r, sc_TLSCertFile = rc_TLSCertFile r,
     sc_TLSKeyFile = rc_TLSKeyFile r, sc_PoolSize = rc_PoolSize r, sc_MaxRetries = rc_MaxRetries r,
     sc_DialTimeout = rc_DialTimeout r, sc_ReadTimeout = rc_ReadTimeout r, sc_WriteTimeout = rc_WriteTimeout r,
     sc_KeyPrefix = rc_KeyPrefix r\<rparr>"

definition buildStore ::
  "tls_host \<Rightarrow> (client \<Rightarrow> 'w redis) \<Rightarrow> 'w clock \<Rightarrow> config \<Rightarrow> 'w \<Rightarrow> 'w built_store \<times> 'w" where
  "buildStore H dial now c w =
     (if \<not> rc_Enabled (cfg_Redis c) then (no_store StoreDisabled, w)
      else (case Redis_New H (store_config_of (cfg_Redis c)) of
              Inl e \<Rightarrow> (no_store (StoreUnbuildable e), w)
            | Inr (client, pre) \<Rightarrow>
                (case Redis_Ping (dial client) w of (perr, w') \<Rightarrow>
                   let breaking = bk_Threshold (cfg_Breaker c) > 0; caching = cc_Enabled (cfg_BlockCache c)
                   in (\<lparr>bs_store = store_chain breaking caching now (RedisStore (dial client) pre),
                        bs_cache = caching, bs_breaker = breaking,
                        bs_log = [case perr of Some e \<Rightarrow> StoreUnreachable e | None \<Rightarrow> StoreConnected]\<rparr>, w'))))"

text \<open>The memory the decorators start with.\<close>

definition fresh_chain :: "config \<Rightarrow> 'w \<Rightarrow> 'w chain" where
  "fresh_chain c w = (BlockCache_New (cc_MaxEntries (cfg_BlockCache c)) (cc_MaxTTL (cfg_BlockCache c)),
     Breaker_New (bk_Threshold (cfg_Breaker c)) (bk_Cooldown (cfg_Breaker c)), w)"

definition publish :: "'w built_store \<Rightarrow> 'w chain \<Rightarrow> metrics \<Rightarrow> metrics" where
  "publish bs x m0 =
     (let m1 = (if bs_cache bs then SetBlockCacheHits (BlockCache_Hits (fst x)) m0 else m0)
      in if bs_breaker bs then SetBreakerOpen (Breaker_Open (fst (snd x))) m1 else m1)"

subsection \<open>The command line\<close>

record flags =
  fl_configPath :: string
  fl_showVersion :: bool
  fl_healthcheck :: bool
  fl_validate :: bool

definition set_bool_flag :: "string \<Rightarrow> bool \<Rightarrow> flags \<Rightarrow> flags option" where
  "set_bool_flag n v f =
     (if n = ''version'' then Some (f\<lparr>fl_showVersion := v\<rparr>)
      else if n = ''healthcheck'' then Some (f\<lparr>fl_healthcheck := v\<rparr>)
      else if n = ''validate'' then Some (f\<lparr>fl_validate := v\<rparr>) else None)"

definition undefined_flag :: "string \<Rightarrow> goerror" where
  "undefined_flag n = (if n = ''help'' \<or> n = ''h'' then Sentinel ''flag: help requested''
     else Errorf (''flag provided but not defined: -'' @ n))"

definition flag_name :: "string \<Rightarrow> string" where
  "flag_name s = (if take 2 s = ''--'' then drop 2 s else drop 1 s)"

text \<open>\<open>FlagSet.Parse\<close>: flags until the first argument that is none, or after a bare \<open>--\<close>.\<close>

fun parse_args :: "string list \<Rightarrow> flags \<Rightarrow> goerror + flags" where
  "parse_args [] f = Inr f"
| "parse_args (s # args) f =
     (if length s < 2 \<or> hd s \<noteq> CHR ''-'' then Inr f
      else if s = ''--'' then Inr f
      else
        (let nm = flag_name s
         in if nm = [] \<or> hd nm = CHR ''-'' \<or> hd nm = CHR ''='' then Inl (Errorf (''bad flag syntax: '' @ s))
            else (case Cut nm (CHR ''='') of (n, v, hasValue) \<Rightarrow>
                    if n = ''config''
                    then (if hasValue then parse_args args (f\<lparr>fl_configPath := v\<rparr>)
                          else (case args of
                                  [] \<Rightarrow> Inl (Errorf ''flag needs an argument: -config'')
                                | a # rest \<Rightarrow> parse_args rest (f\<lparr>fl_configPath := a\<rparr>)))
                    else (case (if hasValue then ParseBool v else Some True) of
                            None \<Rightarrow> if set_bool_flag n True f = None then Inl (undefined_flag n)
                                    else Inl (Errorf (''invalid boolean value for -'' @ n))
                          | Some b \<Rightarrow> (case set_bool_flag n b f of
                                         None \<Rightarrow> Inl (undefined_flag n)
                                       | Some f' \<Rightarrow> parse_args args f')))))"

definition parseFlags :: "string list \<Rightarrow> string \<Rightarrow> goerror + flags" where
  "parseFlags argv defaultConfig = parse_args argv
     \<lparr>fl_configPath = defaultConfig, fl_showVersion = False, fl_healthcheck = False, fl_validate = False\<rparr>"

subsection \<open>The health probe\<close>

definition last_index :: "char \<Rightarrow> string \<Rightarrow> nat option" where
  "last_index c s = (if c \<in> set s then Some (length s - 1 - length (takeWhile (\<lambda>x. x \<noteq> c) (rev s))) else None)"

definition SplitHostPort :: "string \<Rightarrow> goerror + string \<times> string" where
  "SplitHostPort hp =
     (case last_index (CHR '':'') hp of
        None \<Rightarrow> Inl (Errorf ''missing port in address'')
      | Some i \<Rightarrow>
          (let checked = (\<lambda>host j k.
                 if CHR ''['' \<in> set (drop j hp) then Inl (Errorf ''unexpected [ in address'')
                 else if CHR '']'' \<in> set (drop k hp) then Inl (Errorf ''unexpected ] in address'')
                 else Inr (host, drop (i + 1) hp))
           in if hd hp = CHR ''[''
              then (if CHR '']'' \<notin> set hp then Inl (Errorf ''missing ] in address'')
                    else (let e = length (takeWhile (\<lambda>x. x \<noteq> CHR '']'') hp)
                          in if e + 1 = length hp then Inl (Errorf ''missing port in address'')
                             else if e + 1 = i then checked (take (e - 1) (drop 1 hp)) 1 (e + 1)
                             else if hp ! (e + 1) = CHR '':'' then Inl (Errorf ''too many colons in address'')
                             else Inl (Errorf ''missing port in address'')))
              else if CHR '':'' \<in> set (take i hp) then Inl (Errorf ''too many colons in address'')
              else checked (take i hp) 0 0))"

definition JoinHostPort :: "string \<Rightarrow> string \<Rightarrow> string" where
  "JoinHostPort host port = (if CHR '':'' \<in> set host then ''['' @ host @ '']:'' @ port else host @ '':'' @ port)"

definition probe_host :: "string \<Rightarrow> string" where
  "probe_host host = (if host = [] \<or> host = ''0.0.0.0'' \<or> host = ''::'' then ''127.0.0.1'' else host)"

definition probe_url :: "string \<Rightarrow> goerror + string" where
  "probe_url addr = (case SplitHostPort addr of
     Inl e \<Rightarrow> Inl (Wrapf (''healthcheck: cannot parse LISTEN_ADDR '' @ addr) e)
   | Inr (host, port) \<Rightarrow> Inr (''http://'' @ JoinHostPort (probe_host host) port @ ''/healthz''))"

text \<open>\<open>get\<close> performs the request: an error, or a status.\<close>

definition probeHealth :: "(string \<Rightarrow> goerror + int) \<Rightarrow> string \<Rightarrow> goerror option" where
  "probeHealth get addr = (case probe_url addr of
     Inl e \<Rightarrow> Some e
   | Inr url \<Rightarrow> (case get url of
       Inl e \<Rightarrow> Some (Wrapf ''healthcheck'' e)
     | Inr status \<Rightarrow> if status \<noteq> 200 then Some (Errorf (''healthcheck: '' @ url @ '' returned '' @ Itoa status)) else None))"

subsection \<open>Start-up\<close>

definition report_lines :: "config \<Rightarrow> built \<Rightarrow> string list \<times> string list" where
  "report_lines c b =
     ([''config:  '' @ cfg_ConfigPath c, ''valid:   yes''] @
      (if b_Limiters b = [] then [''active:  none''] else [''active:  '' @ Join (Names b) '', '']) @
      (if DryRunNames b \<noteq> [] then [''dry run: '' @ Join (DryRunNames b) '', ''] else []),
      map (\<lambda>w. ''warning: '' @ w) (Config_Warnings c @ b_Warnings b))"

record world_host =
  wh_env :: env
  wh_stat :: "string \<Rightarrow> goerror option"
  wh_read :: "string \<Rightarrow> goerror + string"
  wh_yaml :: "string \<Rightarrow> goerror + limiter_file"
  wh_get :: "string \<Rightarrow> goerror + int"
  wh_lib :: lib

datatype start =
  Exits "goerror option"
| PrintsVersion
| Reports "string list" "string list"
| Serves config built "level \<times> log_format"
| Crashes string

definition config_error :: "string list \<Rightarrow> goerror" where
  "config_error errs = Errorf (''invalid configuration: '' @ Join errs [CHR 0x0A])"

definition run_file :: "world_host \<Rightarrow> flags \<Rightarrow> config \<Rightarrow> start" where
  "run_file W f c =
     (case LoadFile (lib_unicode (wh_lib W)) (wh_stat W) (wh_read W) (wh_yaml W) (cfg_ConfigPath c) of
        Inl e \<Rightarrow> Exits (Some e)
      | Inr lf \<Rightarrow>
          (case Build (wh_lib W) (wh_read W) (cfg_HashSecret c) lf of
             Panic m \<Rightarrow> Crashes m
           | Ret b (Some e) \<Rightarrow> Exits (Some (Wrapf (cfg_ConfigPath c) e))
           | Ret b None \<Rightarrow>
               if fl_validate f then (case report_lines c b of (out, err) \<Rightarrow> Reports out err)
               else (case NewLogger (lib_unicode (wh_lib W)) (cfg_LogLevel c) (cfg_LogFormat c) of
                       Inl e \<Rightarrow> Exits (Some e)
                     | Inr lg \<Rightarrow> Serves c b lg)))"

definition run :: "world_host \<Rightarrow> string list \<Rightarrow> start" where
  "run W argv =
     (case Load (lib_unicode (wh_lib W)) (wh_stat W) (wh_env W) of
        Inl errs \<Rightarrow> Exits (Some (config_error errs))
      | Inr c \<Rightarrow>
          (case parseFlags argv (cfg_ConfigPath c) of
             Inl e \<Rightarrow> Exits (Some e)
           | Inr f \<Rightarrow>
               if fl_showVersion f then PrintsVersion
               else if fl_healthcheck f then Exits (probeHealth (wh_get W) (cfg_ListenAddr c))
               else run_file W f (c\<lparr>cfg_ConfigPath := fl_configPath f\<rparr>)))"

definition make_handler :: "config \<Rightarrow> built \<Rightarrow> 'w store \<Rightarrow> 'w handler" where
  "make_handler c b S = Http_New \<lparr>o_Engine = NewEngine S (b_Limiters b), o_Response = b_Default b,
     o_Responses = b_Responses b, o_MaxBodyBytes = cfg_MaxBodyBytes c\<rparr>"

subsection \<open>What a start guarantees\<close>

text \<open>A built configuration whose limiters the store keeps apart.\<close>

definition servable :: "lib \<Rightarrow> string \<Rightarrow> built \<Rightarrow> bool" where
  "servable L secret b \<longleftrightarrow> built_ok L secret b \<and> distinct (Names b) \<and> list_all separable (Names b)"

lemma LoadFile_valid: "LoadFile U stat rd yaml path = Inr f \<Longrightarrow> Validate U stat f = []"
  by (auto simp: LoadFile_def split: sum.splits list.splits)

lemma Build_servable:
  assumes "Validate U stat f = []" "readable stat readfile"
  obtains b where "Build L readfile secret f = Ret b None" "servable L secret b"
  using Build_ok [OF assms, of L secret] built_names [OF assms(1)] that unfolding servable_def by blast

lemma run_file_cases:
  assumes "readable (wh_stat W) (wh_read W)"
  shows "case run_file W f c of
      Crashes m \<Rightarrow> False
    | Serves c' b lg \<Rightarrow> c' = c \<and> servable (wh_lib W) (cfg_HashSecret c) b
    | _ \<Rightarrow> True"
proof (cases "LoadFile (lib_unicode (wh_lib W)) (wh_stat W) (wh_read W) (wh_yaml W) (cfg_ConfigPath c)")
  case (Inl e)
  then show ?thesis by (simp add: run_file_def)
next
  case (Inr lf)
  from Build_servable [OF LoadFile_valid [OF Inr] assms]
  obtain b where "Build (wh_lib W) (wh_read W) (cfg_HashSecret c) lf = Ret b None"
    "servable (wh_lib W) (cfg_HashSecret c) b" by blast
  with Inr show ?thesis by (auto simp: run_file_def split: prod.splits sum.splits)
qed

lemma run_cases:
  assumes "readable (wh_stat W) (wh_read W)"
  shows "case run W argv of
      Crashes m \<Rightarrow> False
    | Serves c b lg \<Rightarrow> servable (wh_lib W) (cfg_HashSecret c) b \<and>
        (\<exists>c0 path. Load (lib_unicode (wh_lib W)) (wh_stat W) (wh_env W) = Inr c0 \<and> config_ok c0 \<and>
          c = c0\<lparr>cfg_ConfigPath := path\<rparr>)
    | _ \<Rightarrow> True"
proof (cases "Load (lib_unicode (wh_lib W)) (wh_stat W) (wh_env W)")
  case (Inl e)
  then show ?thesis by (simp add: run_def)
next
  case c0: (Inr c0)
  have ok: "config_ok c0" using c0 validate_config_ok by (auto simp: Load_Inr)
  show ?thesis
  proof (cases "parseFlags argv (cfg_ConfigPath c0)")
    case (Inl e)
    with c0 show ?thesis by (simp add: run_def)
  next
    case (Inr f)
    let ?c = "c0\<lparr>cfg_ConfigPath := fl_configPath f\<rparr>"
    from run_file_cases [OF assms, where f = f and c = ?c] c0 Inr ok show ?thesis
      by (cases "run_file W f ?c") (auto simp: run_def)
  qed
qed

lemma make_handler_response:
  assumes "built_ok L secret b"
  shows "rejecting (chosen_response (make_handler c b S) d)"
proof -
  have "rejecting (h_response (make_handler c b S))"
    using assms by (simp add: make_handler_def Http_New_def Let_def built_ok_def rejecting_def)
  moreover have "h_responses (make_handler c b S) = b_Responses b" by (simp add: make_handler_def Http_New_def Let_def)
  ultimately show ?thesis using assms by (auto simp: chosen_response_def built_ok_def split: option.splits)
qed

end
