(* ===== verification/Serving.thy ===== *)
theory Serving
  imports Wiring "HOL-Library.Multiset"
begin

text \<open>
  The life of a serving process: the second half of \<open>run\<close>, \<open>serve\<close>, \<open>publishStoreMetrics\<close> and \<open>main\<close> of
  \<open>cmd/forwardlimit/main.go\<close>. Its goroutines (the main one, the listener with its handlers, the
  publisher, the cache's sweeper) take turns in any order; a turn is a partial function of the state,
  undefined while the goroutine has nothing to do. A handler's turn is its whole run. Time passes
  between turns, never past a point at which the main goroutine has to wake up.
\<close>

subsection \<open>The state\<close>

record server =
  srv_Addr :: string
  srv_ReadHeaderTimeout :: duration
  srv_IdleTimeout :: duration

definition new_server :: "config \<Rightarrow> server" where
  "new_server c = \<lparr>srv_Addr = cfg_ListenAddr c, srv_ReadHeaderTimeout = 5 * Second, srv_IdleTimeout = 60 * Second\<rparr>"

datatype life_log =
  StoreLog start_log
| Starting string string "string list" "string list" bool bool int
| ConfigWarning string
| RequestLog http_log
| ShutdownReceived duration
| StoppedServing
| CloseFailed goerror

text \<open>
  Where the main goroutine is: in the \<open>select\<close> of \<open>serve\<close>, in \<open>Shutdown\<close> with a deadline, back in \<open>run\<close>
  with the deferred calls ahead, or out, with the error \<open>main\<close> got.
\<close>

datatype phase = Selecting | Draining time | Returning "goerror option" | Exited "goerror option"

text \<open>The publisher before its first publication, waiting for a tick, and ended.\<close>

datatype publisher = PubStart | PubWaiting time | PubEnded

record 'w life =
  lf_phase :: phase
  lf_time :: time
  lf_done :: bool
  lf_errCh :: "goerror option"
  lf_listening :: bool
  lf_accepted :: "http_request list"
  lf_inflight :: "http_request list"
  lf_answers :: "(http_request \<times> int) list"
  lf_chain :: "'w chain"
  lf_metrics :: metrics
  lf_log :: "life_log list"
  lf_publisher :: publisher
  lf_sweeper :: "time option"
  lf_closed :: nat

record 'w service =
  su_config :: config
  su_store :: "'w built_store"
  su_handler :: "'w chain handler"
  su_server :: server
  su_clock :: "'w clock"
  su_wait :: "nat \<Rightarrow> 'w \<Rightarrow> 'w"
  su_unicode :: unicode
  su_exposition :: "metrics \<Rightarrow> string"

definition start_life ::
  "tls_host \<Rightarrow> (client \<Rightarrow> 'w redis) \<Rightarrow> 'w clock \<Rightarrow> (nat \<Rightarrow> 'w \<Rightarrow> 'w) \<Rightarrow> unicode \<Rightarrow> (metrics \<Rightarrow> string) \<Rightarrow>
     config \<Rightarrow> built \<Rightarrow> time \<Rightarrow> 'w \<Rightarrow> 'w service \<times> 'w life" where
  "start_life H dial now wait U exposition c b t w =
     (case buildStore H dial now c w of (bs, w') \<Rightarrow>
        (\<lparr>su_config = c, su_store = bs, su_handler = make_handler c b (bs_store bs), su_server = new_server c,
          su_clock = now, su_wait = wait, su_unicode = U, su_exposition = exposition\<rparr>,
         \<lparr>lf_phase = Selecting, lf_time = t, lf_done = False, lf_errCh = None, lf_listening = True,
          lf_accepted = [], lf_inflight = [], lf_answers = [],
          lf_chain = fresh_chain c w', lf_metrics = NewMetrics (cfg_MetricsNamespace c),
          lf_log = map StoreLog (bs_log bs) @
            [Starting (cfg_ListenAddr c) (cfg_ConfigPath c) (Names b) (DryRunNames b) (rc_Enabled (cfg_Redis c))
               (cc_Enabled (cfg_BlockCache c)) (cfg_MaxBodyBytes c)] @
            map ConfigWarning (Config_Warnings c @ b_Warnings b),
          lf_publisher = PubStart,
          lf_sweeper = (if bs_cache bs then Some (t + sweep_interval 0) else None), lf_closed = 0\<rparr>))"

subsection \<open>Turns\<close>

definition life_note :: "life_log \<Rightarrow> 'w life \<Rightarrow> 'w life" where
  "life_note e p = p\<lparr>lf_log := lf_log p @ [e]\<rparr>"

text \<open>A ticker that fires late skips the ticks it missed.\<close>

definition next_tick :: "time \<Rightarrow> duration \<Rightarrow> time \<Rightarrow> time" where
  "next_tick due period t = due + period * (1 + (t - due) div period)"

datatype life_event =
  Signal
| ListenFails goerror
| Accepts http_request
| Answers nat duration
| PublisherTurn bool
| SweeperTurn bool
| TakesError
| TakesSignal
| Drained "goerror option"
| TimesOut
| Leaves
| TimePasses nat

text \<open>The \<open>select\<close> and the shutdown of \<open>serve\<close>; \<open>lnerr\<close> is what closing the listeners gave.\<close>

definition serve_select :: "'w service \<Rightarrow> bool \<Rightarrow> 'w life \<Rightarrow> 'w life option" where
  "serve_select su signalled p =
     (case lf_phase p of
        Selecting \<Rightarrow>
          if signalled
          then (if lf_done p
                then (let timeout = cfg_ShutdownTimeout (su_config su)
                      in Some (life_note (ShutdownReceived timeout)
                           (p\<lparr>lf_phase := Draining (lf_time p + timeout), lf_listening := False\<rparr>)))
                else None)
          else map_option (\<lambda>lerr. p\<lparr>lf_phase := Returning (Some (Wrapf ''http server'' lerr))\<rparr>) (lf_errCh p)
      | _ \<Rightarrow> None)"

definition shutdown_error :: "goerror \<Rightarrow> goerror" where "shutdown_error e = Wrapf ''graceful shutdown'' e"

definition DeadlineExceeded :: goerror where "DeadlineExceeded = Sentinel ''context deadline exceeded''"

definition serve_drained :: "goerror option \<Rightarrow> 'w life \<Rightarrow> 'w life option" where
  "serve_drained lnerr p =
     (case lf_phase p of
        Draining d \<Rightarrow>
          if lf_inflight p = []
          then Some (case lnerr of
                 Some e \<Rightarrow> p\<lparr>lf_phase := Returning (Some (shutdown_error e))\<rparr>
               | None \<Rightarrow> life_note StoppedServing (p\<lparr>lf_phase := Returning None\<rparr>))
          else None
      | _ \<Rightarrow> None)"

definition serve_timeout :: "'w life \<Rightarrow> 'w life option" where
  "serve_timeout p =
     (case lf_phase p of
        Draining d \<Rightarrow> if d \<le> lf_time p then Some (p\<lparr>lf_phase := Returning (Some (shutdown_error DeadlineExceeded))\<rparr>) else None
      | _ \<Rightarrow> None)"

text \<open>The deferred calls of \<open>run\<close>, and the end of \<open>main\<close>.\<close>

definition run_deferred :: "'w service \<Rightarrow> 'w life \<Rightarrow> 'w life option" where
  "run_deferred su p =
     (case lf_phase p of
        Returning e \<Rightarrow>
          (case st_Close (bs_store (su_store su)) (lf_chain p) of (cerr, x) \<Rightarrow>
             let q = p\<lparr>lf_done := True, lf_chain := x, lf_closed := lf_closed p + 1, lf_phase := Exited e\<rparr>
             in Some (case cerr of Some ce \<Rightarrow> life_note (CloseFailed ce) q | None \<Rightarrow> q))
      | _ \<Rightarrow> None)"

definition main_exit :: "goerror option \<Rightarrow> goerror option \<times> int" where
  "main_exit err = (case err of Some e \<Rightarrow> (Some e, 1) | None \<Rightarrow> (None, 0))"

text \<open>The exit of a process that does not get to serve: standard output, the error and the code.\<close>

definition version :: string where "version = ''dev''"

definition start_exit :: "start \<Rightarrow> (string list \<times> goerror option \<times> int) option" where
  "start_exit st = (case st of
     Exits err \<Rightarrow> Some ([], main_exit err)
   | PrintsVersion \<Rightarrow> Some ([version], main_exit None)
   | Reports out err \<Rightarrow> Some (out, main_exit None)
   | Crashes m \<Rightarrow> Some ([], None, 2)
   | Serves c b lg \<Rightarrow> None)"

text \<open>The listener's goroutine and the handlers it starts.\<close>

definition listen_fails :: "goerror \<Rightarrow> 'w life \<Rightarrow> 'w life option" where
  "listen_fails e p = (if lf_listening p then Some (p\<lparr>lf_listening := False, lf_errCh := Some e\<rparr>) else None)"

definition accept :: "http_request \<Rightarrow> 'w life \<Rightarrow> 'w life option" where
  "accept r p = (if lf_listening p then Some (p\<lparr>lf_accepted := lf_accepted p @ [r], lf_inflight := lf_inflight p @ [r]\<rparr>) else None)"

definition answer_request :: "'w service \<Rightarrow> nat \<Rightarrow> duration \<Rightarrow> 'w life \<Rightarrow> 'w life option" where
  "answer_request su i elapsed p =
     (if i < length (lf_inflight p)
      then (let r = lf_inflight p ! i
            in case ServeHTTP (su_unicode su) elapsed (su_exposition su) (su_handler su) r
                 \<lparr>hs_rw = new_writer, hs_metrics = Some (lf_metrics p), hs_log = [], hs_world = lf_chain p\<rparr> of
                 (panic, s) \<Rightarrow>
                   Some (p\<lparr>lf_inflight := take i (lf_inflight p) @ drop (Suc i) (lf_inflight p),
                     lf_answers := lf_answers p @ [(r, sent_status s)], lf_chain := hs_world s,
                     lf_metrics := (case hs_metrics s of Some m \<Rightarrow> m | None \<Rightarrow> lf_metrics p),
                     lf_log := lf_log p @ map RequestLog (hs_log s)\<rparr>))
      else None)"

text \<open>\<open>publishStoreMetrics\<close>; \<open>take_done\<close> is the choice of its \<open>select\<close>.\<close>

definition publisher_turn :: "'w service \<Rightarrow> bool \<Rightarrow> 'w life \<Rightarrow> 'w life option" where
  "publisher_turn su take_done p =
     (let published = p\<lparr>lf_metrics := publish (su_store su) (lf_chain p) (lf_metrics p)\<rparr>
      in case lf_publisher p of
           PubStart \<Rightarrow> Some (published\<lparr>lf_publisher := PubWaiting (lf_time p + 2 * Second)\<rparr>)
         | PubWaiting due \<Rightarrow>
             if take_done then (if lf_done p then Some (p\<lparr>lf_publisher := PubEnded\<rparr>) else None)
             else if due \<le> lf_time p
             then Some (published\<lparr>lf_publisher := PubWaiting (next_tick due (2 * Second) (lf_time p))\<rparr>)
             else None
         | PubEnded \<Rightarrow> None)"

definition sweeper_turn :: "'w service \<Rightarrow> bool \<Rightarrow> 'w life \<Rightarrow> 'w life option" where
  "sweeper_turn su prefer_stop p =
     (case lf_sweeper p of
        None \<Rightarrow> None
      | Some due \<Rightarrow>
          if due \<le> lf_time p
          then (case sweepLoop_turn prefer_stop (lift_clock (su_clock su)) (lf_chain p) of
                  None \<Rightarrow> Some (p\<lparr>lf_sweeper := None\<rparr>)
                | Some x \<Rightarrow> Some (p\<lparr>lf_chain := x, lf_sweeper := Some (next_tick due (sweep_interval 0) (lf_time p))\<rparr>))
          else None)"

text \<open>Time passes unless the main goroutine has something to do, and up to the deadline at most.\<close>

definition may_wait :: "nat \<Rightarrow> 'w life \<Rightarrow> bool" where
  "may_wait n p \<longleftrightarrow> 0 < n \<and>
     (case lf_phase p of
        Selecting \<Rightarrow> \<not> lf_done p \<and> lf_errCh p = None
      | Draining d \<Rightarrow> lf_time p + int n \<le> d
      | _ \<Rightarrow> False)"

definition time_passes :: "'w service \<Rightarrow> nat \<Rightarrow> 'w life \<Rightarrow> 'w life option" where
  "time_passes su n p =
     (if may_wait n p
      then Some (p\<lparr>lf_time := lf_time p + int n, lf_chain := lift_wait (lift_wait (su_wait su)) n (lf_chain p)\<rparr>) else None)"

fun is_exited :: "phase \<Rightarrow> bool" where
  "is_exited (Exited e) = True"
| "is_exited _ = False"

text \<open>A process that has exited does nothing more.\<close>

definition life_do :: "'w service \<Rightarrow> life_event \<Rightarrow> 'w life \<Rightarrow> 'w life option" where
  "life_do su ev p =
     (if is_exited (lf_phase p) then None
      else (case ev of
        Signal \<Rightarrow> if lf_done p then None else Some (p\<lparr>lf_done := True\<rparr>)
      | ListenFails e \<Rightarrow> listen_fails e p
      | Accepts r \<Rightarrow> accept r p
      | Answers i el \<Rightarrow> answer_request su i el p
      | PublisherTurn d \<Rightarrow> publisher_turn su d p
      | SweeperTurn b \<Rightarrow> sweeper_turn su b p
      | TakesError \<Rightarrow> serve_select su False p
      | TakesSignal \<Rightarrow> serve_select su True p
      | Drained lnerr \<Rightarrow> serve_drained lnerr p
      | TimesOut \<Rightarrow> serve_timeout p
      | Leaves \<Rightarrow> run_deferred su p
      | TimePasses n \<Rightarrow> time_passes su n p))"

inductive life_step :: "'w service \<Rightarrow> 'w life \<Rightarrow> 'w life \<Rightarrow> bool" for su where
  turn: "life_do su ev p = Some q \<Longrightarrow> life_step su p q"

inductive life_reach :: "'w service \<Rightarrow> 'w life \<Rightarrow> 'w life \<Rightarrow> bool" for su p0 where
  start: "life_reach su p0 p0"
| step: "life_reach su p0 p \<Longrightarrow> life_step su p q \<Longrightarrow> life_reach su p0 q"

inductive_simps life_step_iff: "life_step su p q"

subsection \<open>What holds throughout a life\<close>

definition life_inv :: "'w life \<Rightarrow> bool" where
  "life_inv p \<longleftrightarrow>
     mset (lf_accepted p) = mset (lf_inflight p) + mset (map fst (lf_answers p)) \<and>
     (lf_errCh p \<noteq> None \<longrightarrow> \<not> lf_listening p) \<and>
     lf_closed p = (if is_exited (lf_phase p) then 1 else 0) \<and>
     (case lf_phase p of
        Selecting \<Rightarrow> True
      | Draining d \<Rightarrow> \<not> lf_listening p \<and> lf_done p \<and> lf_time p \<le> d
      | Returning e \<Rightarrow> \<not> lf_listening p \<and> (e = None \<longrightarrow> lf_done p \<and> lf_inflight p = [])
      | Exited e \<Rightarrow> \<not> lf_listening p \<and> (e = None \<longrightarrow> lf_inflight p = []))"

lemma mset_remove_nth: "i < length xs \<Longrightarrow> mset xs = mset (take i xs @ drop (Suc i) xs) + {#xs ! i#}"
  by (metis Cons_nth_drop_Suc append_take_drop_id mset.simps(2) mset_append union_mset_add_mset_right add_mset_add_single)

lemma start_life_inv: "start_life H dial now wait U ex c b t w = (su, p) \<Longrightarrow> life_inv p"
  by (auto simp: start_life_def life_inv_def split: prod.splits)

lemma answer_inv:
  assumes "answer_request su i el p = Some q" "life_inv p" "\<not> is_exited (lf_phase p)"
  shows "life_inv q"
proof -
  have i: "i < length (lf_inflight p)" using assms(1) by (auto simp: answer_request_def split: if_splits)
  have q: "lf_inflight q = take i (lf_inflight p) @ drop (Suc i) (lf_inflight p)"
    "map fst (lf_answers q) = map fst (lf_answers p) @ [lf_inflight p ! i]"
    "lf_accepted q = lf_accepted p" "lf_phase q = lf_phase p" "lf_errCh q = lf_errCh p" "lf_listening q = lf_listening p"
    "lf_closed q = lf_closed p" "lf_done q = lf_done p" "lf_time q = lf_time p"
    using assms(1) by (auto simp: answer_request_def Let_def split: if_splits prod.splits)
  show ?thesis
    using assms(2) mset_remove_nth [OF i] unfolding life_inv_def q by (auto split: phase.splits)
qed

lemma main_turn_inv:
  assumes "life_inv p" "0 \<le> cfg_ShutdownTimeout (su_config su)"
  shows "serve_select su b p = Some q \<Longrightarrow> life_inv q" "serve_drained lnerr p = Some q \<Longrightarrow> life_inv q"
    "serve_timeout p = Some q \<Longrightarrow> life_inv q" "run_deferred su p = Some q \<Longrightarrow> life_inv q"
proof -
  show "serve_select su b p = Some q \<Longrightarrow> life_inv q"
    using assms by (auto simp: serve_select_def life_note_def life_inv_def Let_def split: if_splits phase.splits)
  show "serve_drained lnerr p = Some q \<Longrightarrow> life_inv q"
    using assms by (auto simp: serve_drained_def life_note_def life_inv_def split: if_splits phase.splits option.splits)
  show "serve_timeout p = Some q \<Longrightarrow> life_inv q"
    using assms by (auto simp: serve_timeout_def life_inv_def split: if_splits phase.splits)
  show "run_deferred su p = Some q \<Longrightarrow> life_inv q"
    using assms by (auto simp: run_deferred_def life_note_def life_inv_def Let_def
        split: phase.splits option.splits prod.splits)
qed

text \<open>What the invariant reads of a state.\<close>

definition life_core where
  "life_core p = (lf_phase p, lf_time p, lf_done p, lf_errCh p, lf_listening p, lf_accepted p, lf_inflight p, lf_answers p, lf_closed p)"

lemma life_inv_core: "life_core p = life_core q \<Longrightarrow> life_inv p = life_inv q"
  by (simp add: life_core_def life_inv_def split: phase.split)

lemma background_core:
  "publisher_turn su d p = Some q \<Longrightarrow> life_core q = life_core p"
  "sweeper_turn su b p = Some q \<Longrightarrow> life_core q = life_core p"
  by (auto simp: publisher_turn_def sweeper_turn_def life_core_def Let_def
      split: if_splits option.splits publisher.splits)

lemma other_turn_inv:
  assumes "life_inv p" "\<not> is_exited (lf_phase p)"
  shows "listen_fails e p = Some q \<Longrightarrow> life_inv q" "accept r p = Some q \<Longrightarrow> life_inv q"
    "time_passes su n p = Some q \<Longrightarrow> life_inv q" "life_inv (p\<lparr>lf_done := True\<rparr>)"
proof -
  show "listen_fails e p = Some q \<Longrightarrow> life_inv q"
    using assms by (auto simp: listen_fails_def life_inv_def split: if_splits phase.splits)
  show "accept r p = Some q \<Longrightarrow> life_inv q"
    using assms by (auto simp: accept_def life_inv_def split: if_splits phase.splits)
  show "time_passes su n p = Some q \<Longrightarrow> life_inv q"
    using assms by (auto simp: time_passes_def may_wait_def life_inv_def split: if_splits phase.splits)
  show "life_inv (p\<lparr>lf_done := True\<rparr>)"
    using assms by (auto simp: life_inv_def split: phase.splits)
qed

lemma life_do_inv:
  assumes "life_do su ev p = Some q" "life_inv p" "0 \<le> cfg_ShutdownTimeout (su_config su)"
  shows "life_inv q"
proof -
  have live: "\<not> is_exited (lf_phase p)" using assms(1) by (auto simp: life_do_def)
  with assms show ?thesis
    using answer_inv [OF _ assms(2) live] main_turn_inv [OF assms(2,3)] other_turn_inv [OF assms(2) live]
      background_core [THEN life_inv_core, of su _ p q]
    by (cases ev) (simp_all add: life_do_def split: if_split_asm)
qed

lemma life_reach_inv:
  assumes "life_reach su p0 p" "life_inv p0" "0 \<le> cfg_ShutdownTimeout (su_config su)"
  shows "life_inv p"
  using assms(1) by induction (use assms(2,3) life_do_inv in \<open>auto simp: life_step_iff\<close>)

subsection \<open>Shutting down ends\<close>

text \<open>
  Past the \<open>select\<close> nothing new is accepted. What is left to do shrinks with every turn: the phase
  first, then the time to the deadline, then the requests in flight and the background turns due.
\<close>

definition winding_down :: "'w life \<Rightarrow> bool" where
  "winding_down p \<longleftrightarrow> lf_phase p \<noteq> Selecting \<and> \<not> lf_listening p"

fun phase_rank :: "phase \<Rightarrow> nat" where
  "phase_rank Selecting = 3"
| "phase_rank (Draining d) = 2"
| "phase_rank (Returning e) = 1"
| "phase_rank (Exited e) = 0"

definition time_left :: "'w life \<Rightarrow> nat" where
  "time_left p = (case lf_phase p of Draining d \<Rightarrow> nat (d - lf_time p) | _ \<Rightarrow> 0)"

definition publisher_rank :: "'w life \<Rightarrow> nat" where
  "publisher_rank p = (case lf_publisher p of PubStart \<Rightarrow> 3 | PubWaiting due \<Rightarrow> if due \<le> lf_time p then 2 else 1 | PubEnded \<Rightarrow> 0)"

definition sweeper_rank :: "'w life \<Rightarrow> nat" where
  "sweeper_rank p = (case lf_sweeper p of None \<Rightarrow> 0 | Some due \<Rightarrow> if due \<le> lf_time p then 2 else 1)"

definition chores :: "'w life \<Rightarrow> nat" where
  "chores p = length (lf_inflight p) + publisher_rank p + sweeper_rank p + (if lf_done p then 0 else 1)"

lemma next_tick_later:
  assumes "0 < period" shows "t < next_tick due period t"
proof -
  have "(t - due) mod period < period" using assms by simp
  moreover have "period * ((t - due) div period) + (t - due) mod period = t - due" by simp
  ultimately show ?thesis unfolding next_tick_def distrib_left by linarith
qed

lemmas rank_defs = time_left_def chores_def publisher_rank_def sweeper_rank_def

definition winding_order :: "('w life \<times> 'w life) set" where
  "winding_order = measures [\<lambda>p. phase_rank (lf_phase p), time_left, chores]"

lemma wf_winding: "wf winding_order"
  by (simp add: winding_order_def)

lemma chore_order:
  "lf_phase q = lf_phase p \<Longrightarrow> lf_time q = lf_time p \<Longrightarrow> chores q < chores p \<Longrightarrow> (q, p) \<in> winding_order"
  by (simp add: winding_order_def time_left_def split: phase.split)

lemma phase_order: "phase_rank (lf_phase q) < phase_rank (lf_phase p) \<Longrightarrow> (q, p) \<in> winding_order"
  by (simp add: winding_order_def)

lemma answer_order:
  assumes "answer_request su i el p = Some q"
  shows "(q, p) \<in> winding_order \<and> lf_phase q = lf_phase p \<and> lf_listening q = lf_listening p"
proof -
  have i: "i < length (lf_inflight p)" using assms by (auto simp: answer_request_def split: if_splits)
  have q: "lf_inflight q = take i (lf_inflight p) @ drop (Suc i) (lf_inflight p)" "lf_time q = lf_time p"
    "lf_publisher q = lf_publisher p" "lf_sweeper q = lf_sweeper p" "lf_done q = lf_done p"
    "lf_phase q = lf_phase p" "lf_listening q = lf_listening p"
    using assms by (auto simp: answer_request_def Let_def split: if_splits prod.splits)
  have ranks: "publisher_rank q = publisher_rank p" "sweeper_rank q = sweeper_rank p"
    unfolding publisher_rank_def sweeper_rank_def q by (rule refl)+
  have "chores q < chores p" unfolding chores_def ranks q using i by simp
  with q show ?thesis by (auto intro: chore_order)
qed

lemma background_order:
  "publisher_turn su d p = Some q \<Longrightarrow> (q, p) \<in> winding_order"
  "sweeper_turn su b p = Some q \<Longrightarrow> (q, p) \<in> winding_order"
proof -
  have s: "0 < 2 * Second" "0 < sweep_interval 0" by (simp_all add: Second_def sweep_interval_def)
  show "publisher_turn su d p = Some q \<Longrightarrow> (q, p) \<in> winding_order"
    using next_tick_later [OF s(1), of "lf_time p"]
    by (auto simp: publisher_turn_def rank_defs Let_def Second_def not_le [symmetric] intro!: chore_order
        split: if_splits publisher.splits option.splits)
  show "sweeper_turn su b p = Some q \<Longrightarrow> (q, p) \<in> winding_order"
    using next_tick_later [OF s(2), of "lf_time p"]
    by (auto simp: sweeper_turn_def rank_defs not_le [symmetric] intro!: chore_order split: if_splits option.splits publisher.splits)
qed

lemma main_order:
  assumes "winding_down p"
  shows "serve_select su b p \<noteq> Some q" "serve_drained lnerr p = Some q \<Longrightarrow> (q, p) \<in> winding_order \<and> winding_down q"
    "serve_timeout p = Some q \<Longrightarrow> (q, p) \<in> winding_order \<and> winding_down q"
    "run_deferred su p = Some q \<Longrightarrow> (q, p) \<in> winding_order \<and> winding_down q"
  using assms
  by (auto simp: serve_select_def serve_drained_def serve_timeout_def run_deferred_def winding_down_def life_note_def Let_def
      intro!: phase_order split: phase.splits if_splits option.splits prod.splits)

lemma time_order:
  "time_passes su n p = Some q \<Longrightarrow> winding_down p \<Longrightarrow> (q, p) \<in> winding_order \<and> winding_down q"
  by (auto simp: time_passes_def may_wait_def winding_down_def winding_order_def time_left_def split: if_splits phase.splits)

lemma winding_step:
  assumes "life_step su p q" "winding_down p"
  shows "(q, p) \<in> winding_order \<and> winding_down q"
proof -
  obtain ev where ev: "life_do su ev p = Some q" using assms(1) by (auto simp: life_step_iff)
  have core: "life_core q = life_core p \<Longrightarrow> winding_down q" using assms(2) by (simp add: life_core_def winding_down_def)
  show ?thesis
  proof (cases ev)
    case Signal
    with ev assms(2) show ?thesis
      by (auto simp: life_do_def winding_down_def rank_defs intro!: chore_order split: if_splits publisher.split option.split)
  next
    case (Answers i el)
    with ev assms(2) answer_order [of su i el p q] show ?thesis by (auto simp: life_do_def winding_down_def split: if_splits)
  next
    case (PublisherTurn d)
    with ev have "publisher_turn su d p = Some q" by (auto simp: life_do_def split: if_splits)
    then show ?thesis using background_order(1) background_core(1) core by blast
  next
    case (SweeperTurn b)
    with ev have "sweeper_turn su b p = Some q" by (auto simp: life_do_def split: if_splits)
    then show ?thesis using background_order(2) background_core(2) core by blast
  qed (use ev assms(2) main_order [OF assms(2)] time_order [OF _ assms(2)] in
      \<open>auto simp: life_do_def listen_fails_def accept_def winding_down_def split: if_split_asm\<close>)
qed

lemma winding_finite:
  assumes "winding_down (f 0)" "\<forall>n. life_step su (f n) (f (Suc n))" shows False
proof -
  have "winding_down (f n)" for n by (induction n) (use assms winding_step in blast)+
  then have "(f (Suc n), f n) \<in> winding_order" for n using assms(2) winding_step by blast
  with wf_winding [unfolded wf_iff_no_infinite_down_chain] show False by blast
qed

text \<open>A process that is past its \<open>select\<close> and has not exited can always take a turn.\<close>

lemma winding_progress:
  assumes "winding_down p" "\<not> is_exited (lf_phase p)"
  shows "\<exists>q. life_step su p q"
proof (cases "lf_phase p")
  case (Draining d)
  then have "\<exists>q. life_do su (if d \<le> lf_time p then TimesOut else TimePasses 1) p = Some q"
    by (simp add: life_do_def serve_timeout_def time_passes_def may_wait_def)
  then show ?thesis by (auto simp: life_step_iff)
next
  case (Returning e)
  then have "\<exists>q. life_do su Leaves p = Some q" by (simp add: life_do_def run_deferred_def Let_def split: prod.split)
  then show ?thesis by (auto simp: life_step_iff)
qed (use assms in \<open>auto simp: winding_down_def\<close>)

lemma winding_exits:
  assumes "life_reach su p q" "life_inv p" "0 \<le> cfg_ShutdownTimeout (su_config su)" "winding_down p" "\<nexists>q'. life_step su q q'"
  shows "\<exists>e. lf_phase q = Exited e \<and> lf_closed q = 1"
proof -
  have "winding_down q" using assms(1) by induction (use assms(4) winding_step in blast)+
  then have "is_exited (lf_phase q)" using assms(5) winding_progress by blast
  moreover have "life_inv q" using life_reach_inv [OF assms(1-3)] .
  ultimately show ?thesis by (cases "lf_phase q") (auto simp: life_inv_def)
qed

lemma draining_deadline:
  assumes "life_reach su p q" "lf_phase p = Draining d" "lf_time p \<le> d" "\<not> lf_listening p"
  shows "lf_time q \<le> d"
proof -
  have "lf_time q \<le> d \<and> winding_down q \<and> (\<forall>d'. lf_phase q = Draining d' \<longrightarrow> d' = d)"
    using assms(1)
  proof induction
    case start
    then show ?case using assms(2-4) by (simp add: winding_down_def)
  next
    case (step q q')
    obtain ev where ev: "life_do su ev q = Some q'" using step.hyps(2) by (auto simp: life_step_iff)
    have w: "winding_down q'" using winding_step step by blast
    have "lf_time q' \<le> d \<and> (\<forall>d'. lf_phase q' = Draining d' \<longrightarrow> d' = d)"
    proof (cases ev)
      case (Answers i el)
      with ev step.IH show ?thesis by (auto simp: life_do_def answer_request_def Let_def split: if_splits prod.splits)
    next
      case (PublisherTurn b)
      with ev step.IH background_core(1) [of su b q q'] show ?thesis by (auto simp: life_do_def life_core_def split: if_splits)
    next
      case (SweeperTurn b)
      with ev step.IH background_core(2) [of su b q q'] show ?thesis by (auto simp: life_do_def life_core_def split: if_splits)
    qed (use ev step.IH in \<open>auto simp: life_do_def listen_fails_def accept_def serve_select_def serve_drained_def
        serve_timeout_def run_deferred_def time_passes_def may_wait_def life_note_def winding_down_def Let_def
        split: if_splits phase.splits option.splits prod.splits\<close>)
    with w show ?case by blast
  qed
  then show ?thesis by simp
qed

text \<open>A schedule, so that a life can be computed.\<close>

fun life_run :: "'w service \<Rightarrow> life_event list \<Rightarrow> 'w life \<Rightarrow> 'w life option" where
  "life_run su [] p = Some p"
| "life_run su (ev # evs) p = (case life_do su ev p of None \<Rightarrow> None | Some q \<Rightarrow> life_run su evs q)"

lemma life_run_reach:
  assumes "life_run su evs p = Some q" shows "life_reach su p q"
proof -
  have "life_reach su p0 q" if "life_reach su p0 p" for p0
    using assms that
    by (induction su evs p rule: life_run.induct)
      (auto intro: life_reach.step life_step.turn split: option.splits)
  then show ?thesis by (simp add: life_reach.start)
qed

subsection \<open>Every check is answered\<close>

definition answered_well :: "http_request \<times> int \<Rightarrow> bool" where
  "answered_well a \<longleftrightarrow> hr_Path (fst a) = ''/check'' \<longrightarrow> snd a = 200 \<or> 400 \<le> snd a \<and> snd a \<le> 599"

lemma check_status:
  assumes "built_ok L secret b" "ServeHTTP U el ex (make_handler c b S) r s = (p, s')" "hs_rw s = new_writer"
  shows "answered_well (r, sent_status s')"
proof (cases "hr_Path r = ''/check''")
  case True
  then have "handle_check_endpoint U el (make_handler c b S) r s = (p, s')" using assms(2) by (simp add: ServeHTTP_check)
  from check_endpoint_reply [OF assms(3) this]
    make_handler_response [OF assms(1), of c S "check_decision U (make_handler c b S) r (hs_world s)"]
  show ?thesis by (auto simp: answered_well_def rejecting_def Let_def split: if_splits)
qed (simp add: answered_well_def)

lemma life_answers:
  assumes "life_step su p q"
  obtains "lf_answers q = lf_answers p"
  | r panic el s s' where "lf_answers q = lf_answers p @ [(r, sent_status s')]" "hs_rw s = new_writer"
      "ServeHTTP (su_unicode su) el (su_exposition su) (su_handler su) r s = (panic, s')"
proof -
  obtain ev where ev: "life_do su ev p = Some q" using assms by (auto simp: life_step_iff)
  show ?thesis
  proof (cases ev)
    case (Answers i el)
    obtain panic s' where s': "ServeHTTP (su_unicode su) el (su_exposition su) (su_handler su) (lf_inflight p ! i)
        \<lparr>hs_rw = new_writer, hs_metrics = Some (lf_metrics p), hs_log = [], hs_world = lf_chain p\<rparr> = (panic, s')"
      by (metis surj_pair)
    with ev Answers have "lf_answers q = lf_answers p @ [(lf_inflight p ! i, sent_status s')]"
      by (auto simp: life_do_def answer_request_def split: if_splits)
    with s' that(2) show ?thesis by (metis hstate.select_convs(1))
  next
    case (PublisherTurn b)
    with ev that(1) background_core(1) [of su b p q] show ?thesis by (auto simp: life_do_def life_core_def split: if_splits)
  next
    case (SweeperTurn b)
    with ev that(1) background_core(2) [of su b p q] show ?thesis by (auto simp: life_do_def life_core_def split: if_splits)
  qed (use ev that(1) in \<open>auto simp: life_do_def listen_fails_def accept_def serve_select_def serve_drained_def
        serve_timeout_def run_deferred_def time_passes_def life_note_def Let_def
        split: if_splits phase.splits option.splits prod.splits\<close>)
qed

lemma life_reach_answered:
  assumes "life_reach su p0 p" "built_ok L secret b" "su_handler su = make_handler c b S" "lf_answers p0 = []"
  shows "list_all answered_well (lf_answers p)"
  using assms(1)
proof induction
  case (step p q)
  from step.hyps(2) show ?case
    by (cases rule: life_answers) (use step.IH check_status [OF assms(2)] in \<open>auto simp: assms(3)\<close>)
qed (simp add: assms(4))

subsection \<open>The pre-flight check\<close>

lemma env_str_trimmed: "TrimSpace d = d \<Longrightarrow> TrimSpace (env_str g k d) = env_str g k d"
  by (auto simp: env_str_def raw_def Let_def TrimSpace_idem split: option.splits if_splits)

text \<open>A loaded configuration names a logger.\<close>

lemma Load_logger:
  assumes "Load U stat g = Inr c" shows "\<exists>lg. NewLogger U (cfg_LogLevel c) (cfg_LogFormat c) = Inr lg"
proof -
  have d: "TrimSpace ''info'' = ''info''" "TrimSpace ''json'' = ''json''" by code_simp+
  have c: "cfg_LogLevel c = env_str g ''LOG_LEVEL'' ''info''" "cfg_LogFormat c = env_str g ''LOG_FORMAT'' ''json''"
    "validateService U c = []"
    using assms by (auto simp: Load_Inr load_values_def validate_config_def split: prod.splits)
  then have "TrimSpace (cfg_LogLevel c) = cfg_LogLevel c" "TrimSpace (cfg_LogFormat c) = cfg_LogFormat c"
    using d by (simp_all add: env_str_trimmed)
  with c(3) show ?thesis by (auto simp: validateService_def fail_if_def NewLogger_def Let_def split: if_splits)
qed

text \<open>The arguments of a service: the configuration file, or nothing.\<close>

definition service_args :: "string list \<Rightarrow> bool" where
  "service_args argv \<longleftrightarrow> argv = [] \<or> (\<exists>p. argv = [''-config'', p])"

lemma service_flags:
  assumes "service_args argv"
  obtains f where "parseFlags argv d = Inr f" "\<not> fl_showVersion f" "\<not> fl_healthcheck f" "\<not> fl_validate f"
    "parseFlags (''-validate'' # argv) d = Inr (f\<lparr>fl_validate := True\<rparr>)"
proof -
  have v: "flag_name ''-validate'' = ''validate''" "Cut ''validate'' (CHR ''='') = (''validate'', [], False)"
    "flag_name ''-config'' = ''config''" "Cut ''config'' (CHR ''='') = (''config'', [], False)" by code_simp+
  have "\<exists>p. parseFlags argv d = Inr \<lparr>fl_configPath = p, fl_showVersion = False, fl_healthcheck = False, fl_validate = False\<rparr> \<and>
      parseFlags (''-validate'' # argv) d =
        Inr \<lparr>fl_configPath = p, fl_showVersion = False, fl_healthcheck = False, fl_validate = True\<rparr>"
    using assms by (auto simp: service_args_def parseFlags_def v set_bool_flag_def)
  then show ?thesis using that by fastforce
qed

lemma validate_serves:
  assumes "service_args argv"
  shows "(\<exists>out err. run W (''-validate'' # argv) = Reports out err) \<longleftrightarrow> (\<exists>c b lg. run W argv = Serves c b lg)"
proof (cases "Load (lib_unicode (wh_lib W)) (wh_stat W) (wh_env W)")
  case (Inr c)
  from service_flags [OF assms] obtain f where f: "parseFlags argv (cfg_ConfigPath c) = Inr f" "\<not> fl_showVersion f"
    "\<not> fl_healthcheck f" "\<not> fl_validate f" "parseFlags (''-validate'' # argv) (cfg_ConfigPath c) = Inr (f\<lparr>fl_validate := True\<rparr>)"
    by blast
  obtain lg where lg: "NewLogger (lib_unicode (wh_lib W)) (cfg_LogLevel c) (cfg_LogFormat c) = Inr lg"
    using Load_logger [OF Inr] by blast
  let ?c = "c\<lparr>cfg_ConfigPath := fl_configPath f\<rparr>"
  have "(\<exists>out err. run_file W (f\<lparr>fl_validate := True\<rparr>) ?c = Reports out err) \<longleftrightarrow> (\<exists>c b lg. run_file W f ?c = Serves c b lg)"
    using f(4) lg by (auto simp: run_file_def split: sum.splits ret.splits option.splits prod.splits)
  with Inr f show ?thesis by (simp add: run_def)
qed (simp add: run_def)

text \<open>No other result of the pre-flight check has the exit code zero.\<close>

lemma validate_code:
  assumes "service_args argv"
  shows "(\<exists>out err. run W (''-validate'' # argv) = Reports out err) \<longleftrightarrow>
    (\<exists>out. start_exit (run W (''-validate'' # argv)) = Some (out, None, 0))"
proof (cases "Load (lib_unicode (wh_lib W)) (wh_stat W) (wh_env W)")
  case (Inr c)
  from service_flags [OF assms] obtain f where f: "\<not> fl_showVersion f"
    "\<not> fl_healthcheck f" "parseFlags (''-validate'' # argv) (cfg_ConfigPath c) = Inr (f\<lparr>fl_validate := True\<rparr>)"
    by blast
  let ?c = "c\<lparr>cfg_ConfigPath := fl_configPath f\<rparr>"
  have "(\<exists>out err. run_file W (f\<lparr>fl_validate := True\<rparr>) ?c = Reports out err) \<longleftrightarrow>
      (\<exists>out. start_exit (run_file W (f\<lparr>fl_validate := True\<rparr>) ?c) = Some (out, None, 0))"
    by (auto simp: run_file_def start_exit_def main_exit_def split: sum.splits ret.splits option.splits prod.splits)
  with Inr f show ?thesis by (simp add: run_def)
qed (simp add: run_def start_exit_def main_exit_def)

end
