(* ===== verification/FakeRedis.thy ===== *)
theory FakeRedis
  imports Fake RedisRef
begin

text \<open>
  The in-memory store the engine is tested with answers as the window script does. Both are run on
  the same sequence of calls and pauses: the fake with its own memory, the Redis store on the
  reference keyspace. Times and the durations of rules are whole seconds, where \<open>TTL\<close> is exact.
\<close>

subsection \<open>Runs\<close>

datatype window_op = WConsume key rule | WWait nat

fun fake_window :: "window_op list \<Rightarrow> fake \<times> time \<Rightarrow> result ret list" where
  "fake_window [] w = []"
| "fake_window (WConsume k r # ops) w =
     (case st_Consume (Fake stopped) k r w of (x, w') \<Rightarrow> x # fake_window ops w')"
| "fake_window (WWait n # ops) w = fake_window ops (fst w, snd w + int n * Second)"

fun redis_window :: "string \<Rightarrow> window_op list \<Rightarrow> ks_world \<Rightarrow> result ret list" where
  "redis_window pre [] w = []"
| "redis_window pre (WConsume k r # ops) w =
     (case st_Consume (RedisStore Keyspace pre) k r w of (x, w') \<Rightarrow> x # redis_window pre ops w')"
| "redis_window pre (WWait n # ops) w = redis_window pre ops (lift_wait Waiting (n * nat Second) w)"

definition clean_key :: "key \<Rightarrow> bool" where
  "clean_key k \<longleftrightarrow> good_key k \<and> SanitizeBucket (key_Bucket k) = key_Bucket k"

definition whole_rule :: "rule \<Rightarrow> bool" where
  "whole_rule r \<longleftrightarrow> 1 \<le> rule_Limit r \<and> rule_Limit r \<le> 10000 \<and>
     0 < rule_Window r \<and> rule_Window r \<le> 2000000 * Second \<and> rule_Window r mod Second = 0 \<and>
     0 < rule_Block r \<and> rule_Block r \<le> 2000000 * Second \<and> rule_Block r mod Second = 0"

fun window_op_ok :: "window_op \<Rightarrow> bool" where
  "window_op_ok (WConsume k r) = (clean_key k \<and> whole_rule r)"
| "window_op_ok (WWait n) = True"

subsection \<open>The script on the keyspace\<close>

lemma clean_keys_inject:
  assumes "clean_key k" "clean_key k'"
  shows "block_key pre k = block_key pre k' \<longleftrightarrow> k = k'" "counter_key pre k = counter_key pre k' \<longleftrightarrow> k = k'"
proof -
  have "base_key pre k = base_key pre k' \<longleftrightarrow> k = k'"
    using assms base_key_inject [of k k' pre] by (cases k; cases k') (auto simp: clean_key_def)
  then show "block_key pre k = block_key pre k' \<longleftrightarrow> k = k'" "counter_key pre k = counter_key pre k' \<longleftrightarrow> k = k'"
    by (simp_all add: redis_keys)
qed

lemma ks_get_put:
  "ks_get k' (ks_put k v w) =
     (if k' = k then (case v of Some (x, Some e) \<Rightarrow> if ks_time w < e then v else None | _ \<Rightarrow> v) else ks_get k' w)"
  by (auto simp: ks_get_def split: option.splits prod.splits)

lemma ks_put_put: "ks_put k v (ks_put k u w) = ks_put k v w"
  by (simp add: ks_put_def split: prod.split)

lemma seconds_whole: "0 < d \<Longrightarrow> d \<le> 2000000 * Second \<Longrightarrow> d mod Second = 0 \<Longrightarrow> seconds d * Second = d"
proof -
  assume d: "0 < d" "d \<le> 2000000 * Second" "d mod Second = 0"
  then obtain q where q: "d = q * Second" by (metis dvdE mod_0_imp_dvd mult.commute)
  then have "(d + Second - 1) div Second = q" by (simp add: Second_def)
  with d q show ?thesis by (simp add: seconds_def ceiling_Seconds)
qed

lemma trunc_float_int: "\<bar>n\<bar> \<le> 2 ^ 53 \<Longrightarrow> trunc (float n) = n"
  by (simp add: float_int trunc_def)

lemma decide_marked:
  assumes "ks_get k2 w = Some (v, Some u)" "(u - ks_time w) mod Second = 0" "ks_time w < u"
  shows "decide Keyspace k1 k2 limit window block w = (Inr [1, -1, (u - ks_time w) div Second], w)"
proof -
  obtain q where q: "u - ks_time w = q * Second" using assms(2) by (metis dvdE mod_0_imp_dvd mult.commute)
  then have "(u - ks_time w + Second div 2) div Second = q" "(u - ks_time w) div Second = q" "0 < q"
    using assms(3) by (simp_all add: Second_def)
  with assms(1) show ?thesis by (simp add: decide_def call_def reply_def Keyspace_def ks_TTL_def)
qed

definition count_up :: "string \<Rightarrow> int \<Rightarrow> time \<Rightarrow> ks_world \<Rightarrow> ks_world" where
  "count_up k1 c e w = ks_put k1 (Some (RText (Itoa c), Some e)) w"

definition put_block :: "string \<Rightarrow> string \<Rightarrow> time \<Rightarrow> ks_world \<Rightarrow> ks_world" where
  "put_block k1 k2 u w = ks_put k1 None (ks_put k2 (Some (RText ''1'', Some u)) w)"

text \<open>The counting part, for a counter that stands at \<open>c\<close> until \<open>e\<close> (\<open>0\<close> and a new window when absent).\<close>

lemma decide_unmarked:
  assumes "ks_get k2 w = None" "1 \<le> limit" "limit \<le> 10000" "1 \<le> block" "block \<le> 2 ^ 53" "1 \<le> window"
    and "(ks_get k1 w = None \<and> c = 0 \<and> e = ks_time w + window * Second) \<or>
      (ks_get k1 w = Some (RText (Itoa c), Some e) \<and> 1 \<le> c \<and> c \<le> 10000)"
  shows "decide Keyspace k1 k2 limit window block w =
    (if c + 1 > limit then (Inr [1, c + 1, block], put_block k1 k2 (ks_time w + block * Second) (count_up k1 (c + 1) e w))
     else (Inr [0, c + 1, 0], count_up k1 (c + 1) e w))"
proof -
  have n: "\<bar>c + 1\<bar> \<le> 2 ^ 53" "\<bar>limit\<bar> \<le> 2 ^ 53" "\<bar>block\<bar> \<le> 2 ^ 53" using assms by auto
  have lt: "float (c + 1) > float limit \<longleftrightarrow> c + 1 > limit"
    unfolding float_int [OF n(1)] float_int [OF n(2)] by (rule of_int_less_iff)
  note fl = lt trunc_float_int [OF n(1)] trunc_float_int [OF n(3)]
  have ttl: "rd_TTL Keyspace k2 w = (Inr (-2), w)" using assms(1) by (simp add: Keyspace_def ks_TTL_def)
  obtain w1 where incr: "rd_INCR Keyspace k1 w = (Inr (c + 1), w1)"
    and w1: "(if c + 1 = 1 then rd_EXPIRE Keyspace k1 window else reply ()) w1 = (Inr (), count_up k1 (c + 1) e w)"
  proof (cases "c = 0")
    case True
    then have g: "ks_get k1 w = None" "e = ks_time w + window * Second" using assms(7) by auto
    let ?w1 = "ks_put k1 (Some (RText (Itoa 1), None)) w"
    have "rd_INCR Keyspace k1 w = (Inr (c + 1), ?w1)" using g True by (simp add: Keyspace_def ks_INCR_def)
    moreover have "rd_EXPIRE Keyspace k1 window ?w1 = (Inr (), count_up k1 (c + 1) e w)"
      using g True assms(6)
      by (simp add: Keyspace_def ks_EXPIRE_def ks_expire_at_def ks_get_put ks_put_put count_up_def Second_def)
    ultimately show ?thesis using that True by simp
  next
    case False
    then have g: "ks_get k1 w = Some (RText (Itoa c), Some e)" "1 \<le> c" "c \<le> 10000" using assms(7) by auto
    then have "ParseInt (Itoa c) = Some c" by (intro ParseInt_Itoa) (simp_all add: int64_defs)
    then have "rd_INCR Keyspace k1 w = (Inr (c + 1), count_up k1 (c + 1) e w)"
      using g by (simp add: Keyspace_def ks_INCR_def count_up_def max_int64_def)
    then show ?thesis using that g by simp
  qed
  let ?w2 = "count_up k1 (c + 1) e w"
  have t2: "ks_time ?w2 = ks_time w" by (simp add: count_up_def)
  have blk: "decide_block Keyspace k1 k2 block (c + 1) ?w2 =
      (Inr [1, c + 1, block], put_block k1 k2 (ks_time w + block * Second) ?w2)"
    using assms fl t2 by (simp add: decide_block_def call_def reply_def Keyspace_def ks_SET_EX_def ks_DEL_def put_block_def)
  have "decide_count Keyspace k1 k2 limit window block w =
      (if c + 1 > limit then decide_block Keyspace k1 k2 block (c + 1) ?w2 else (Inr [0, c + 1, 0], ?w2))"
    using incr w1 fl by (simp add: decide_count_def call_def reply_def)
  with ttl blk show ?thesis by (simp add: decide_def call_def)
qed

subsection \<open>The simulation\<close>

text \<open>
  What the keyspace holds for a key the fake store knows, at one instant: the block marker with the
  end of the block, the counter with the end of the window.
\<close>

definition fake_marker :: "fake \<Rightarrow> time \<Rightarrow> string \<Rightarrow> (redis_value \<times> time option) option" where
  "fake_marker f t k = (case fk_blocked f k of
     Some u \<Rightarrow> if t < u then Some (RText ''1'', Some u) else None | None \<Rightarrow> None)"

definition fake_counter :: "fake \<Rightarrow> time \<Rightarrow> string \<Rightarrow> (redis_value \<times> time option) option" where
  "fake_counter f t k = (case fk_expires f k of
     Some e \<Rightarrow> if t < e then Some (RText (Itoa (fake_live_count k t f)), Some e) else None | None \<Rightarrow> None)"

definition fake_whole :: "fake \<Rightarrow> time \<Rightarrow> string \<Rightarrow> bool" where
  "fake_whole f t k \<longleftrightarrow>
     (\<forall>u. fk_blocked f k = Some u \<longrightarrow> Second dvd u \<and> u \<le> t + 2000000 * Second) \<and>
     (\<forall>e. fk_expires f k = Some e \<longrightarrow> t < e \<longrightarrow> 1 \<le> fake_live_count k t f \<and> fake_live_count k t f \<le> 10000)"

definition same_key :: "string \<Rightarrow> fake \<Rightarrow> ks_world \<Rightarrow> key \<Rightarrow> bool" where
  "same_key pre f w k \<longleftrightarrow>
     ks_get (block_key pre k) w = fake_marker f (ks_time w) (Key_String k) \<and>
     ks_get (counter_key pre k) w = fake_counter f (ks_time w) (Key_String k) \<and>
     fake_whole f (ks_time w) (Key_String k)"

definition same_window :: "string \<Rightarrow> fake \<times> time \<Rightarrow> ks_world \<Rightarrow> bool" where
  "same_window pre ft w \<longleftrightarrow> snd ft = ks_time w \<and> Second dvd snd ft \<and> fk_Err (fst ft) = None \<and>
     ks_down (fst w) = None \<and> (\<forall>k. clean_key k \<longrightarrow> same_key pre (fst ft) w k)"

lemma same_key_cong:
  assumes "fake_agree (Key_String k) f g" "ks_time w = ks_time v"
    "ks_get (block_key pre k) w = ks_get (block_key pre k) v" "ks_get (counter_key pre k) w = ks_get (counter_key pre k) v"
  shows "same_key pre f w k \<longleftrightarrow> same_key pre g v k"
proof -
  have "fake_live_count (Key_String k) t f = fake_live_count (Key_String k) t g" for t
    using assms(1) by (auto simp: fake_live_count_def fake_agree_def split: option.splits)
  with assms show ?thesis
    by (simp add: same_key_def fake_marker_def fake_counter_def fake_whole_def fake_agree_def cong: option.case_cong if_cong)
qed

lemma same_key_wait:
  assumes "same_key pre f w k" shows "same_key pre f (lift_wait Waiting n w) k"
proof -
  have t: "fst (Waiting n (snd w)) = ks_time w + int n" by (simp add: Waiting_def split: prod.split)
  have g: "ks_get k' (lift_wait Waiting n w) =
      (case ks_get k' w of Some (v, Some e) \<Rightarrow> if ks_time w + int n < e then Some (v, Some e) else None | x \<Rightarrow> x)" for k'
    using t by (auto simp: ks_get_def split: option.splits prod.splits)
  show ?thesis using assms
    by (auto simp: same_key_def g t fake_marker_def fake_counter_def fake_whole_def fake_live_count_def
        split: option.splits if_splits)
qed

lemma same_window_wait:
  assumes "same_window pre (f, t) w"
  shows "same_window pre (f, t + int n * Second) (lift_wait Waiting (n * nat Second) w)"
proof -
  have "ks_time (lift_wait Waiting (n * nat Second) w) = ks_time w + int n * Second"
    by (cases w) (auto simp: Waiting_def Second_def split: prod.split)
  with assms show ?thesis by (auto simp: same_window_def intro: same_key_wait)
qed

lemma same_window_start: "Second dvd t \<Longrightarrow> same_window pre (Fake_New, t) (ks_empty, (t, []))"
  by (simp add: same_window_def same_key_def ks_empty_def Fake_New_def ks_get_def fake_marker_def fake_counter_def
      fake_whole_def)

text \<open>A call as the keyspace runs it, for a rule in whole seconds.\<close>

lemma Redis_Consume_whole:
  assumes "whole_rule r" "ks_down (fst w) = None"
    "decide Keyspace (counter_key pre k) (block_key pre k) (rule_Limit r) (seconds (rule_Window r)) (seconds (rule_Block r)) w
       = (Inr [a, c, n], w')" "ks_down (fst w') = None" "0 \<le> n" "n \<le> 2000000"
  shows "st_Consume (RedisStore Keyspace pre) k r w =
    (Ret \<lparr>res_Blocked = (a = 1), res_Count = c, res_RetryAfter = n * Second\<rparr> None, w')"
proof -
  have "Rule_Valid r" using assms(1) by (simp add: whole_rule_def Rule_Valid_def)
  moreover have "run_script Keyspace (decide Keyspace (counter_key pre k) (block_key pre k) (rule_Limit r)
      (seconds (rule_Window r)) (seconds (rule_Block r))) w = (Inr [a, c, n], w')"
    unfolding run_script_Inr using assms(2-4)
    by (intro exI [of _ w] exI [of _ w']) (simp_all add: Keyspace_def ks_send_def)
  moreover have "wrap64 (n * Second) = n * Second" using assms(5,6) by (simp add: Second_def int64_defs)
  ultimately show ?thesis by (simp add: RedisStore_def Redis_Consume_def)
qed

lemma same_consume_marked:
  assumes same: "same_window pre (f, t) w" and k: "clean_key k" and r: "whole_rule r"
    and blk: "fake_is_blocked (Key_String k) t f"
  shows "\<exists>x f' w'. st_Consume (Fake stopped) k r (f, t) = (x, (f', t)) \<and>
    st_Consume (RedisStore Keyspace pre) k r w = (x, w') \<and> same_window pre (f', t) w'"
proof -
  from blk obtain u where u: "fk_blocked f (Key_String k) = Some u" "t < u"
    by (auto simp: fake_is_blocked_def split: option.splits)
  have sk: "same_key pre f w k" and t: "t = ks_time w" "Second dvd t" and ok: "fk_Err f = None" "ks_down (fst w) = None"
    using same k by (auto simp: same_window_def)
  then have get: "ks_get (block_key pre k) w = Some (RText ''1'', Some u)" and b: "Second dvd u" "u \<le> t + 2000000 * Second"
    using u by (auto simp: same_key_def fake_marker_def fake_whole_def)
  then have m: "(u - ks_time w) mod Second = 0" using t by (auto intro: dvd_imp_mod_0 dvd_diff)
  have n: "(u - t) div Second * Second = u - t" using m t by auto
  have "0 \<le> (u - t) div Second" "(u - t) div Second \<le> 2000000" using u b by (auto simp: Second_def)
  with Redis_Consume_whole [OF r ok(2) decide_marked [OF get m] ok(2)] t u(2) n
  have R: "st_Consume (RedisStore Keyspace pre) k r w =
      (Ret \<lparr>res_Blocked = True, res_Count = -1, res_RetryAfter = u - t\<rparr> None, w)" by simp
  let ?f = "f\<lparr>fk_Calls := fk_Calls f + 1\<rparr>"
  have "sat64 (u - t) = u - t" using u b by (simp add: Second_def int64_defs)
  then have F: "st_Consume (Fake stopped) k r (f, t) =
      (Ret \<lparr>res_Blocked = True, res_Count = -1, res_RetryAfter = u - t\<rparr> None, (?f, t))"
    using ok blk u fake_decide_blocked [of "Key_String k" t ?f r]
    by (simp add: Fake_def Fake_Consume_stopped fake_is_blocked_def)
  have "same_window pre (?f, t) w"
    using same same_key_cong [of _ ?f f w w pre] by (auto simp: same_window_def)
  with R F show ?thesis by blast
qed

text \<open>The fake store's counting, in the terms of the keyspace.\<close>

lemma fake_count_after:
  fixes k r t f
  defines "c \<equiv> fake_live_count k t f + 1"
    and "e \<equiv> (case fk_expires f k of Some e \<Rightarrow> if t < e then e else t + rule_Window r | None \<Rightarrow> t + rule_Window r)"
    and "f' \<equiv> snd (fake_count k r t f)"
  shows "fk_blocked f' k = (if c > rule_Limit r then Some (t + rule_Block r) else fk_blocked f k)"
    "fk_expires f' k = (if c > rule_Limit r then None else Some e)"
    "0 < rule_Window r \<Longrightarrow> c \<le> rule_Limit r \<Longrightarrow> fake_live_count k t f' = c"
  by (auto simp: c_def e_def f'_def fake_count_def fake_live_count_def Let_def split: option.splits)

text \<open>The end of the window a call counts in.\<close>

definition window_end :: "string \<Rightarrow> rule \<Rightarrow> time \<Rightarrow> fake \<Rightarrow> time" where
  "window_end k r t f =
     (case fk_expires f k of Some e \<Rightarrow> if t < e then e else t + rule_Window r | None \<Rightarrow> t + rule_Window r)"

definition after_count :: "string \<Rightarrow> key \<Rightarrow> rule \<Rightarrow> fake \<Rightarrow> ks_world \<Rightarrow> ks_world" where
  "after_count pre k r f w =
     (let c = fake_live_count (Key_String k) (ks_time w) f + 1;
          w1 = count_up (counter_key pre k) c (window_end (Key_String k) r (ks_time w) f) w
      in if c > rule_Limit r
         then put_block (counter_key pre k) (block_key pre k) (ks_time w + rule_Block r) w1 else w1)"

lemma after_count_frame:
  "ks_time (after_count pre k r f w) = ks_time w" "ks_down (fst (after_count pre k r f w)) = ks_down (fst w)"
  "k' \<noteq> counter_key pre k \<Longrightarrow> k' \<noteq> block_key pre k \<Longrightarrow> ks_get k' (after_count pre k r f w) = ks_get k' w"
  by (simp_all add: after_count_def Let_def count_up_def put_block_def ks_get_put)

lemma decide_after_count:
  assumes "same_key pre f w k" "whole_rule r" "\<not> fake_is_blocked (Key_String k) (ks_time w) f"
  defines "c \<equiv> fake_live_count (Key_String k) (ks_time w) f + 1"
  shows "decide Keyspace (counter_key pre k) (block_key pre k) (rule_Limit r) (seconds (rule_Window r)) (seconds (rule_Block r)) w
    = (Inr (if c > rule_Limit r then [1, c, seconds (rule_Block r)] else [0, c, 0]), after_count pre k r f w)"
proof -
  let ?K = "Key_String k" and ?t = "ks_time w"
  have none: "ks_get (block_key pre k) w = None"
    using assms(1,3) by (auto simp: same_key_def fake_marker_def fake_is_blocked_def split: option.splits)
  have sec: "seconds (rule_Window r) * Second = rule_Window r" "seconds (rule_Block r) * Second = rule_Block r"
    using assms(2) by (auto simp: whole_rule_def intro: seconds_whole)
  have small: "seconds (rule_Block r) \<le> 2 ^ 53"
    using sec(2) assms(2) by (simp add: whole_rule_def Second_def)
  have cnt: "(ks_get (counter_key pre k) w = None \<and> fake_live_count ?K ?t f = 0 \<and>
        window_end ?K r ?t f = ?t + seconds (rule_Window r) * Second) \<or>
      (ks_get (counter_key pre k) w = Some (RText (Itoa (fake_live_count ?K ?t f)), Some (window_end ?K r ?t f)) \<and>
        1 \<le> fake_live_count ?K ?t f \<and> fake_live_count ?K ?t f \<le> 10000)"
  proof (cases "fk_expires f ?K")
    case None
    then show ?thesis using assms(1) sec by (simp add: same_key_def fake_counter_def fake_live_count_def window_end_def)
  next
    case (Some e)
    then show ?thesis
      using assms(1) sec by (auto simp: same_key_def fake_counter_def fake_live_count_def fake_whole_def window_end_def)
  qed
  show ?thesis
    using decide_unmarked [OF none _ _ seconds_pos small seconds_pos cnt, of "rule_Limit r"] assms(2) sec
    by (auto simp: whole_rule_def after_count_def c_def Let_def)
qed

lemma same_key_after_count:
  assumes "same_key pre f w k" "whole_rule r" "Second dvd ks_time w" "\<not> fake_is_blocked (Key_String k) (ks_time w) f"
  shows "same_key pre (snd (fake_decide (Key_String k) r (ks_time w) f)) (after_count pre k r f w) k"
proof -
  let ?K = "Key_String k" and ?t = "ks_time w" and ?g = "f\<lparr>fk_blocked := (fk_blocked f)(Key_String k := None)\<rparr>"
  let ?c = "fake_live_count ?K ?t f + 1" and ?e = "window_end ?K r ?t f"
  let ?f = "snd (fake_count ?K r ?t ?g)"
  have r: "0 < rule_Window r" "0 < rule_Block r" "rule_Block r \<le> 2000000 * Second" "Second dvd rule_Block r" "rule_Limit r \<le> 10000"
    using assms(2) by (auto simp: whole_rule_def)
  have e: "?t < ?e" using r by (simp add: window_end_def split: option.split)
  have nonneg: "0 \<le> fake_live_count ?K ?t f"
    using assms(1) by (auto simp: same_key_def fake_whole_def fake_live_count_def split: option.splits if_splits)
  have aft: "fk_blocked ?f ?K = (if ?c > rule_Limit r then Some (?t + rule_Block r) else None)"
    "fk_expires ?f ?K = (if ?c > rule_Limit r then None else Some ?e)"
    "?c \<le> rule_Limit r \<Longrightarrow> fake_live_count ?K ?t ?f = ?c"
    using fake_count_after [where k = ?K and r = r and t = ?t and f = ?g] r by (simp_all add: window_end_def)
  show ?thesis
  proof (cases "?c > rule_Limit r")
    case True
    with aft r assms(3) show ?thesis
      by (simp add: same_key_def after_count_frame fake_decide_unblocked [OF assms(4)] fake_marker_def fake_counter_def fake_whole_def)
        (simp add: after_count_def Let_def put_block_def count_up_def ks_get_put)
  next
    case False
    have "ks_get (block_key pre k) w = None"
      using assms(1,4) by (auto simp: same_key_def fake_marker_def fake_is_blocked_def split: option.splits)
    with False aft r e nonneg show ?thesis
      by (simp add: same_key_def after_count_frame fake_decide_unblocked [OF assms(4)] fake_marker_def fake_counter_def fake_whole_def)
        (simp add: after_count_def Let_def count_up_def ks_get_put)
  qed
qed

lemma same_window_after:
  assumes same: "same_window pre (f, t) w" and k: "clean_key k"
    and own: "same_key pre f' w' k" and "fk_Err f' = None" "ks_down (fst w') = None" "ks_time w' = ks_time w"
    and other: "\<And>K. K \<noteq> Key_String k \<Longrightarrow> fake_agree K f' f"
    and frame: "\<And>k'. k' \<noteq> counter_key pre k \<Longrightarrow> k' \<noteq> block_key pre k \<Longrightarrow> ks_get k' w' = ks_get k' w"
  shows "same_window pre (f', t) w'"
proof -
  have "same_key pre f' w' k'" if k': "clean_key k'" for k'
  proof (cases "k' = k")
    case False
    then have "Key_String k' \<noteq> Key_String k" using k k' good_key_inject [of k' k] by (simp add: clean_key_def)
    moreover have "block_key pre k' \<noteq> block_key pre k" "counter_key pre k' \<noteq> counter_key pre k"
      using clean_keys_inject [OF k' k] False by simp_all
    ultimately have "same_key pre f' w' k' \<longleftrightarrow> same_key pre f w k'"
      using other frame assms(6) by (intro same_key_cong) simp_all
    with same k' show ?thesis by (simp add: same_window_def)
  qed (use own in simp)
  with assms show ?thesis by (auto simp: same_window_def)
qed

lemma same_consume_counted:
  assumes same: "same_window pre (f, t) w" and k: "clean_key k" and r: "whole_rule r"
    and blk: "\<not> fake_is_blocked (Key_String k) t f"
  shows "\<exists>x f' w'. st_Consume (Fake stopped) k r (f, t) = (x, (f', t)) \<and>
    st_Consume (RedisStore Keyspace pre) k r w = (x, w') \<and> same_window pre (f', t) w'"
proof -
  let ?K = "Key_String k" and ?f = "f\<lparr>fk_Calls := fk_Calls f + 1\<rparr>"
  let ?f' = "snd (fake_decide ?K r t ?f)" and ?w' = "after_count pre k r ?f w"
  let ?c = "fake_live_count ?K t ?f + 1"
  have t: "t = ks_time w" "Second dvd t" and ok: "fk_Err f = None" "ks_down (fst w) = None" and "same_key pre f w k"
    using same k by (auto simp: same_window_def)
  then have sk: "same_key pre ?f w k" using same_key_cong [of k ?f f w w pre] by simp
  have blk': "\<not> fake_is_blocked ?K (ks_time w) ?f" using blk t by (simp add: fake_is_blocked_def)
  have n: "0 \<le> seconds (rule_Block r)" "seconds (rule_Block r) \<le> 2000000" "seconds (rule_Block r) * Second = rule_Block r"
    using r seconds_whole [of "rule_Block r"] seconds_pos [of "rule_Block r"] by (simp_all add: whole_rule_def Second_def)
  have down: "ks_down (fst ?w') = None" using ok by (simp add: after_count_frame)
  note d = decide_after_count [OF sk r blk'] t(1)
  have R: "st_Consume (RedisStore Keyspace pre) k r w = (Ret (fst (fake_decide ?K r t ?f)) None, ?w')"
  proof (cases "?c > rule_Limit r")
    case True
    then show ?thesis
      using Redis_Consume_whole [OF r ok(2) _ down n(1,2), of pre k 1 ?c] d n(3) fake_decide_unblocked [OF blk', of r]
      by (simp add: fake_count_result Let_def)
  next
    case False
    then show ?thesis
      using Redis_Consume_whole [OF r ok(2) _ down, of pre k 0 ?c 0] d fake_decide_unblocked [OF blk', of r]
      by (simp add: fake_count_result Let_def)
  qed
  have F: "st_Consume (Fake stopped) k r (f, t) = (Ret (fst (fake_decide ?K r t ?f)) None, (?f', t))"
    using ok by (simp add: Fake_def Fake_Consume_stopped)
  have "same_window pre (?f', t) ?w'"
  proof (rule same_window_after [OF same k])
    show "same_key pre ?f' ?w' k" using same_key_after_count [OF sk r _ blk'] t by simp
    show "fake_agree K ?f' f" if "K \<noteq> ?K" for K
      using fake_decide_frame [OF that, of r t ?f] by simp
  qed (use ok down in \<open>simp_all add: after_count_frame\<close>)
  with R F show ?thesis by blast
qed

lemma window_runs_agree:
  "list_all window_op_ok ops \<Longrightarrow> same_window pre (f, t) w \<Longrightarrow> fake_window ops (f, t) = redis_window pre ops w"
proof (induction ops arbitrary: f t w)
  case (Cons p ops)
  show ?case
  proof (cases p)
    case (WConsume k r)
    have "clean_key k" "whole_rule r" using Cons.prems WConsume by simp_all
    then obtain x f' w' where "st_Consume (Fake stopped) k r (f, t) = (x, (f', t))"
      "st_Consume (RedisStore Keyspace pre) k r w = (x, w')" "same_window pre (f', t) w'"
      using same_consume_marked same_consume_counted Cons.prems(2) by metis
    with Cons WConsume show ?thesis by simp
  next
    case (WWait n)
    with Cons same_window_wait show ?thesis by simp
  qed
qed simp

subsection \<open>Runs on one key\<close>

text \<open>Calls on one key at one instant: the count goes up to the limit, then the block answers.\<close>

definition answer :: "bool \<Rightarrow> int \<Rightarrow> duration \<Rightarrow> result ret" where
  "answer b c d = Ret \<lparr>res_Blocked = b, res_Count = c, res_RetryAfter = d\<rparr> None"

definition burst_answers :: "rule \<Rightarrow> nat \<Rightarrow> nat \<Rightarrow> result ret list" where
  "burst_answers r c n = map (\<lambda>i. let j = int (c + i) + 1 in
     if j \<le> rule_Limit r then answer False j 0
     else answer True (if j = rule_Limit r + 1 then j else -1) (rule_Block r)) [0..<n]"

lemma burst_answers_Suc:
  "burst_answers r c (Suc n) =
     (if int c + 1 \<le> rule_Limit r then answer False (int c + 1) 0
      else answer True (if int c = rule_Limit r then int c + 1 else -1) (rule_Block r)) # burst_answers r (Suc c) n"
proof -
  have "[0..<Suc n] = 0 # map Suc [0..<n]" by (simp add: upt_conv_Cons map_Suc_upt)
  then show ?thesis by (simp add: burst_answers_def o_def Let_def)
qed

text \<open>A memory in which \<open>c\<close> calls on the key have been made in this window.\<close>

definition called :: "string \<Rightarrow> rule \<Rightarrow> time \<Rightarrow> nat \<Rightarrow> fake \<Rightarrow> bool" where
  "called K r t c f \<longleftrightarrow> fk_Err f = None \<and>
     (if int c \<le> rule_Limit r then \<not> fake_is_blocked K t f \<and> fake_live_count K t f = int c
      else fk_blocked f K = Some (t + rule_Block r))"

lemma called_step:
  assumes "called (Key_String k) r t c f" "whole_rule r"
  shows "\<exists>f'. st_Consume (Fake stopped) k r (f, t) =
      (if int c + 1 \<le> rule_Limit r then answer False (int c + 1) 0
       else answer True (if int c = rule_Limit r then int c + 1 else -1) (rule_Block r), (f', t)) \<and>
    called (Key_String k) r t (Suc c) f'"
proof -
  let ?K = "Key_String k" and ?f = "f\<lparr>fk_Calls := fk_Calls f + 1\<rparr>"
  let ?f' = "snd (fake_decide ?K r t ?f)"
  have r: "0 < rule_Block r" "0 < rule_Window r" "sat64 (rule_Block r) = rule_Block r"
    using assms(2) by (simp_all add: whole_rule_def Second_def int64_defs)
  have err: "fk_Err f = None" using assms(1) by (simp add: called_def)
  have F: "st_Consume (Fake stopped) k r (f, t) = (Ret (fst (fake_decide ?K r t ?f)) None, (?f', t))"
    using err by (simp add: Fake_def Fake_Consume_stopped)
  show ?thesis
  proof (cases "int c \<le> rule_Limit r")
    case True
    let ?g = "?f\<lparr>fk_blocked := (fk_blocked ?f)(?K := None)\<rparr>"
    have nb: "\<not> fake_is_blocked ?K t ?f" and live: "fake_live_count ?K t ?g = int c"
      using assms(1) True by (auto simp: called_def fake_is_blocked_def)
    note d = fake_decide_unblocked [OF nb, of r]
    have "called ?K r t (Suc c) (snd (fake_count ?K r t ?g))"
      using fake_count_after [where k = ?K and r = r and t = t and f = ?g] live err r True
      by (auto simp: called_def fake_is_blocked_def fake_count_def Let_def split: option.splits)
    with F True live show ?thesis by (auto simp: d fake_count_result Let_def answer_def)
  next
    case False
    then have b: "fk_blocked f ?K = Some (t + rule_Block r)" using assms(1) by (simp add: called_def)
    then have "fake_is_blocked ?K t ?f" using r by (simp add: fake_is_blocked_def)
    from fake_decide_blocked [OF this, of r] F b False err r show ?thesis
      by (auto simp: answer_def called_def)
  qed
qed

lemma fake_burst:
  "called (Key_String k) r t c f \<Longrightarrow> whole_rule r \<Longrightarrow>
     fake_window (replicate n (WConsume k r)) (f, t) = burst_answers r c n"
proof (induction n arbitrary: c f)
  case (Suc n)
  from called_step [OF Suc.prems] obtain f' where
    step: "st_Consume (Fake stopped) k r (f, t) =
      (if int c + 1 \<le> rule_Limit r then answer False (int c + 1) 0
       else answer True (if int c = rule_Limit r then int c + 1 else -1) (rule_Block r), (f', t))"
    and "called (Key_String k) r t (Suc c) f'" by blast
  from Suc.IH [OF this(2) Suc.prems(2)] show ?case
    by (simp only: replicate_Suc fake_window.simps step prod.case burst_answers_Suc)
qed (simp add: burst_answers_def)

lemma called_start: "0 \<le> rule_Limit r \<Longrightarrow> called K r t 0 Fake_New"
  by (simp add: called_def Fake_New_def fake_is_blocked_def fake_live_count_def)

subsection \<open>Properties\<close>





end
