(* ===== verification/Concurrent.thy ===== *)
theory Concurrent
  imports Engine WindowBound
begin

text \<open>
  Requests are handled by goroutines that share the store. An evaluation touches shared state only in
  its store calls, one per turn of the engine's loop, and each call is atomic (the fake holds its
  mutex, Redis runs a script alone); so an execution is an interleaving of turns, of arrivals and of
  the passing of time. The state keeps, beside the jobs and the store, which turns were allowed, by
  which limiter, for which bucket and when; that history is read by no step.
\<close>

subsection \<open>Executions\<close>

record job =
  job_todo :: "limiter list"
  job_req :: request
  job_dec :: decision
  job_from :: time
  job_upto :: time

record passing =
  ps_job :: nat
  ps_limiter :: string
  ps_bucket :: string
  ps_time :: time

record conc =
  cc_jobs :: "job list"
  cc_fake :: fake
  cc_time :: time
  cc_passed :: "passing list"

definition conc_start :: "time \<Rightarrow> conc" where
  "conc_start t = \<lparr>cc_jobs = [], cc_fake = Fake_New, cc_time = t, cc_passed = []\<rparr>"

definition job_run :: "conc \<Rightarrow> job \<Rightarrow> (fake \<times> time) run" where
  "job_run c j = \<lparr>run_req = job_req j, run_world = (cc_fake c, cc_time c), run_log = []\<rparr>"

definition job_new :: "limiter list \<Rightarrow> request \<Rightarrow> time \<Rightarrow> job" where
  "job_new ls r t = \<lparr>job_todo = ls, job_req = r, job_dec = zero_decision, job_from = t, job_upto = t\<rparr>"

definition job_after :: "limiter \<Rightarrow> limiter list \<Rightarrow> step \<Rightarrow> (fake \<times> time) run \<Rightarrow> job \<Rightarrow> job" where
  "job_after l ls s x j = \<lparr>job_todo = (if is_block s then [] else ls), job_req = run_req x,
     job_dec = after l s (job_dec j), job_from = job_from j, job_upto = snd (run_world x)\<rparr>"

definition passed_by :: "nat \<Rightarrow> limiter \<Rightarrow> step \<Rightarrow> conc \<Rightarrow> job \<Rightarrow> passing list" where
  "passed_by i l s c j = (case (s, fst (bucket l (job_run c j))) of
     (Allows, Some b) \<Rightarrow> [\<lparr>ps_job = i, ps_limiter = lim_Name l, ps_bucket = b, ps_time = cc_time c\<rparr>]
   | _ \<Rightarrow> [])"

inductive conc_step :: "unicode \<Rightarrow> lib \<Rightarrow> limiter list \<Rightarrow> conc \<Rightarrow> conc \<Rightarrow> bool" for U L ls where
  arrive: "coherent L r \<Longrightarrow>
    conc_step U L ls c (c\<lparr>cc_jobs := cc_jobs c @ [job_new ls r (cc_time c)]\<rparr>)"
| work: "i < length (cc_jobs c) \<Longrightarrow> cc_jobs c ! i = j \<Longrightarrow> job_todo j = l # ls' \<Longrightarrow>
    turn U (Fake stopped) l (job_run c j) = (s, x) \<Longrightarrow>
    conc_step U L ls c (c\<lparr>cc_jobs := (cc_jobs c)[i := job_after l ls' s x j], cc_fake := fst (run_world x),
      cc_passed := passed_by i l s c j @ cc_passed c\<rparr>)"
| pass: "cc_time c \<le> t \<Longrightarrow> conc_step U L ls c (c\<lparr>cc_time := t\<rparr>)"

inductive conc_reach :: "unicode \<Rightarrow> lib \<Rightarrow> limiter list \<Rightarrow> conc \<Rightarrow> conc \<Rightarrow> bool" for U L ls c0 where
  start: "conc_reach U L ls c0 c0"
| step: "conc_reach U L ls c0 c \<Longrightarrow> conc_step U L ls c c' \<Longrightarrow> conc_reach U L ls c0 c'"

subsection \<open>A turn on the in-memory store\<close>

lemma fake_apply:
  assumes "fk_Err f = None"
  shows "apply_limiter (Fake stopped) l b (f, t) =
    (let K = lim_Name l @ '':'' @ b; g = f\<lparr>fk_Calls := fk_Calls f + 1\<rparr>;
         p = fake_take K (lim_Bucket l) t g; q = fake_decide K (lim_Rule l) t g
     in if Bucket_Valid (lim_Bucket l)
        then (Inr \<lparr>out_blocked = \<not> tr_Allowed (fst p), out_count = tr_Remaining (fst p),
                out_retryAfter = tr_RetryAfter (fst p)\<rparr>, (snd p, t))
        else (Inr \<lparr>out_blocked = res_Blocked (fst q), out_count = res_Count (fst q),
                out_retryAfter = res_RetryAfter (fst q)\<rparr>, (snd q, t)))"
  using assms
  by (simp add: apply_limiter_def Fake_def Fake_Consume_stopped Fake_Take_stopped Key_String_def Let_def split: prod.splits)

lemma fake_apply_answers:
  "fk_Err f = None \<Longrightarrow> \<exists>res f'. apply_limiter (Fake stopped) l b (f, t) = (Inr res, (f', t)) \<and> fk_Err f' = None"
  by (simp add: fake_apply Let_def)

text \<open>A limiter that applies, is active and yields the bucket \<open>b\<close>.\<close>

definition keyed :: "unicode \<Rightarrow> limiter \<Rightarrow> string \<Rightarrow> request \<Rightarrow> bool" where
  "keyed U l b r \<longleftrightarrow> Applies U l (rq_Path r) (rq_Method r) \<and> Active l \<and> fst (lim_Keyer l r) = KeyRet (Some b)"

lemma bucket_keyed: "fst (bucket l x) = Some b \<longleftrightarrow> fst (lim_Keyer l (run_req x)) = KeyRet (Some b)"
  by (auto simp: bucket_def split: prod.splits key_ret.splits)

lemma keyed_unique: "keyed U l b r \<Longrightarrow> keyed U l b' r \<Longrightarrow> b = b'"
  by (simp add: keyed_def)

lemma turn_fake:
  assumes "turn U (Fake stopped) l \<lparr>run_req = r, run_world = (f, t), run_log = lg\<rparr> = (s, x)" "fk_Err f = None"
  obtains (skipped) "s = Skips" "run_world x = (f, t)" "\<And>b. \<not> keyed U l b r"
  | (called) b res f' where "keyed U l b r" "run_world x = (f', t)" "fk_Err f' = None"
      "apply_limiter (Fake stopped) l b (f, t) = (Inr res, (f', t))"
      "s = (if \<not> out_blocked res then Allows else if lim_DryRun l then Projects res else Blocks res)"
proof (cases "\<exists>b. keyed U l b r")
  case False
  with assms have "s = Skips \<and> run_world x = (f, t)"
    by (auto simp: turn_def keyed_def bucket_def split: if_splits prod.splits key_ret.splits option.splits)
  with False skipped show ?thesis by blast
next
  case True
  then obtain b where b: "keyed U l b r" by blast
  obtain res f' where a: "apply_limiter (Fake stopped) l b (f, t) = (Inr res, (f', t))" "fk_Err f' = None"
    using fake_apply_answers [OF assms(2)] by blast
  obtain r' where k: "lim_Keyer l r = (KeyRet (Some b), r')" using b by (cases "lim_Keyer l r") (auto simp: keyed_def)
  from assms(1) b k a(1) have "run_world x = (f', t)"
    "s = (if \<not> out_blocked res then Allows else if lim_DryRun l then Projects res else Blocks res)"
    by (auto simp: turn_def keyed_def bucket_def)
  with called b a show ?thesis by blast
qed

subsection \<open>Nobody passes unseen\<close>

text \<open>
  A finished job that was not rejected has passed every enforcing limiter that was keyed to it: the
  invariant says this of the limiters a job has behind it.
\<close>

definition passing_of :: "nat \<Rightarrow> limiter \<Rightarrow> string \<Rightarrow> job \<Rightarrow> passing \<Rightarrow> bool" where
  "passing_of i l b j p \<longleftrightarrow> ps_job p = i \<and> ps_limiter p = lim_Name l \<and> ps_bucket p = b \<and>
     job_from j \<le> ps_time p \<and> ps_time p \<le> job_upto j"

definition job_ok :: "unicode \<Rightarrow> lib \<Rightarrow> limiter list \<Rightarrow> time \<Rightarrow> passing list \<Rightarrow> nat \<Rightarrow> job \<Rightarrow> bool" where
  "job_ok U L ls T P i j \<longleftrightarrow> coherent L (job_req j) \<and> job_from j \<le> T \<and> job_upto j \<le> T \<and>
     (Rejected (job_dec j) \<and> job_todo j = [] \<or>
      \<not> Rejected (job_dec j) \<and>
      (\<exists>n. job_todo j = drop n ls \<and>
         (\<forall>l \<in> set (take n ls). \<forall>b. \<not> lim_DryRun l \<and> keyed U l b (job_req j) \<longrightarrow> (\<exists>p \<in> set P. passing_of i l b j p))))"

definition all_jobs_ok :: "unicode \<Rightarrow> lib \<Rightarrow> limiter list \<Rightarrow> conc \<Rightarrow> bool" where
  "all_jobs_ok U L ls c \<longleftrightarrow> fk_Err (cc_fake c) = None \<and>
     (\<forall>i < length (cc_jobs c). job_ok U L ls (cc_time c) (cc_passed c) i (cc_jobs c ! i))"

lemma keyed_subject:
  assumes "subject_keyer L (lim_Keyer l)" "coherent L r" "coherent L r'" "same_subject r r'"
  shows "keyed U l b r \<longleftrightarrow> keyed U l b r'"
  using assms unfolding keyed_def subject_keyer_def same_subject_def by metis

lemma job_ok_mono: "job_ok U L ls T P i j \<Longrightarrow> set P \<subseteq> set P' \<Longrightarrow> T \<le> T' \<Longrightarrow> job_ok U L ls T' P' i j"
  unfolding job_ok_def by (meson order_trans subsetD)

lemma turn_subject:
  assumes "turn U S l x = (s, x')" "subject_keyer L (lim_Keyer l)" "coherent L (run_req x)"
  shows "coherent L (run_req x') \<and> same_subject (run_req x) (run_req x')"
proof -
  have "coherent L (snd (lim_Keyer l (run_req x))) \<and> same_subject (run_req x) (snd (lim_Keyer l (run_req x)))"
    using assms(2,3) by (simp add: subject_keyer_def)
  then show ?thesis using assms(1,3)
    by (auto simp: turn_def bucket_def split: if_splits prod.splits key_ret.splits option.splits sum.splits)
qed

lemma job_ok_work:
  assumes ok: "job_ok U L ls (cc_time c) P i j" and todo: "job_todo j = l # ls'" and err: "fk_Err (cc_fake c) = None"
    and t: "turn U (Fake stopped) l (job_run c j) = (s, x)" and sk: "\<forall>l \<in> set ls. subject_keyer L (lim_Keyer l)"
  shows "job_ok U L ls (cc_time c) (passed_by i l s c j @ P) i (job_after l ls' s x j)"
proof -
  obtain n where n: "l # ls' = drop n ls" "\<not> Rejected (job_dec j)"
    "\<forall>l \<in> set (take n ls). \<forall>b. \<not> lim_DryRun l \<and> keyed U l b (job_req j) \<longrightarrow>
       (\<exists>p \<in> set P. passing_of i l b j p)"
    and coh: "coherent L (job_req j)" "job_from j \<le> cc_time c" "job_upto j \<le> cc_time c"
    using ok todo by (auto simp: job_ok_def)
  have n': "n < length ls" using n(1) by (metis drop_all leI list.distinct(1))
  then have split: "l = ls ! n" "ls' = drop (Suc n) ls" "take (Suc n) ls = take n ls @ [l]"
    using n(1) by (metis Cons_nth_drop_Suc list.inject, metis Cons_nth_drop_Suc list.inject,
        metis Cons_nth_drop_Suc list.inject take_Suc_conv_app_nth)
  have lk: "subject_keyer L (lim_Keyer l)" using sk split(1) n' by simp
  have sub: "coherent L (run_req x)" "same_subject (job_req j) (run_req x)"
    using turn_subject [OF t lk] coh by (simp_all add: job_run_def)
  have same: "keyed U m b (run_req x) \<longleftrightarrow> keyed U m b (job_req j)" if "m \<in> set ls" for m b
    using keyed_subject [of L m "job_req j" "run_req x"] sk that coh sub by auto
  have time: "snd (run_world x) = cc_time c"
    using t [unfolded job_run_def] err by (cases rule: turn_fake) simp_all
  have older: "passing_of i m b j p \<Longrightarrow> passing_of i m b (job_after l ls' s x j) p" for m b p
    using coh(3) time by (simp add: passing_of_def job_after_def)
  show ?thesis
  proof (cases "is_block s")
    case True
    then have "Rejected (after l s (job_dec j))" by (cases s) (auto simp: Rejected_def decision_defs)
    with True sub coh time show ?thesis by (simp add: job_ok_def job_after_def)
  next
    case False
    have mine: "\<exists>p \<in> set (passed_by i l s c j). passing_of i l b (job_after l ls' s x j) p"
      if "\<not> lim_DryRun l" "keyed U l b (job_req j)" for b
      using t [unfolded job_run_def] err
    proof (cases rule: turn_fake)
      case (called b' res f')
      then have "b' = b" "s = Allows" using that False by (auto dest: keyed_unique split: if_splits)
      moreover have "fst (bucket l (job_run c j)) = Some b" using that(2) by (simp add: bucket_keyed job_run_def keyed_def)
      ultimately show ?thesis using coh time by (simp add: passed_by_def passing_of_def job_after_def)
    qed (use that in simp)
    have "\<forall>m \<in> set (take (Suc n) ls). \<forall>b. \<not> lim_DryRun m \<and> keyed U m b (run_req x) \<longrightarrow>
        (\<exists>p \<in> set (passed_by i l s c j @ P). passing_of i m b (job_after l ls' s x j) p)"
    proof (intro ballI allI impI)
      fix m b assume m: "m \<in> set (take (Suc n) ls)" "\<not> lim_DryRun m \<and> keyed U m b (run_req x)"
      then have "keyed U m b (job_req j)" using same by (meson in_set_takeD)
      with m n(3) mine show "\<exists>p \<in> set (passed_by i l s c j @ P). passing_of i m b (job_after l ls' s x j) p"
        unfolding split(3) using older by fastforce
    qed
    with False sub split(2) n(2) coh time show ?thesis
      by (auto simp: job_ok_def job_after_def after_not_Rejected)
  qed
qed

lemma conc_step_jobs_ok:
  assumes "conc_step U L ls c c'" "all_jobs_ok U L ls c" "\<forall>l \<in> set ls. subject_keyer L (lim_Keyer l)"
  shows "all_jobs_ok U L ls c'"
  using assms(1)
proof cases
  case (arrive r)
  then have "job_ok U L ls (cc_time c) (cc_passed c) (length (cc_jobs c)) (job_new ls r (cc_time c))"
    by (auto simp: job_ok_def job_new_def zero_not_Rejected intro!: exI [of _ 0])
  with arrive assms(2) show ?thesis by (auto simp: all_jobs_ok_def nth_append less_Suc_eq)
next
  case (work i j l ls' s x)
  have err: "fk_Err (cc_fake c) = None" and ok: "job_ok U L ls (cc_time c) (cc_passed c) i j"
    using assms(2) work by (auto simp: all_jobs_ok_def)
  have "fk_Err (fst (run_world x)) = None"
    using work(5) [unfolded job_run_def] err by (cases rule: turn_fake) (simp_all add: err)
  moreover have "job_ok U L ls (cc_time c) (passed_by i l s c j @ cc_passed c) m ((cc_jobs c)[i := job_after l ls' s x j] ! m)"
    if "m < length (cc_jobs c)" for m
  proof (cases "m = i")
    case True
    then show ?thesis using job_ok_work [OF ok work(4) err work(5) assms(3)] work(2) by simp
  next
    case False
    then show ?thesis using that assms(2) by (auto simp: all_jobs_ok_def intro: job_ok_mono)
  qed
  ultimately show ?thesis using work by (simp add: all_jobs_ok_def)
next
  case (pass t)
  then show ?thesis using assms(2) by (auto simp: all_jobs_ok_def intro: job_ok_mono)
qed

lemma conc_reach_jobs_ok:
  assumes "conc_reach U L ls (conc_start t) c" "\<forall>l \<in> set ls. subject_keyer L (lim_Keyer l)"
  shows "all_jobs_ok U L ls c"
  using assms(1)
proof induction
  case start
  show ?case by (simp add: all_jobs_ok_def conc_start_def Fake_New_def)
qed (use conc_step_jobs_ok assms(2) in blast)

subsection \<open>The store counts every passing\<close>

definition passes :: "limiter \<Rightarrow> string \<Rightarrow> passing list \<Rightarrow> passing list" where
  "passes l b P = filter (\<lambda>p. ps_limiter p = lim_Name l \<and> ps_bucket p = b) P"

lemma passes_append: "passes l b (P @ Q) = passes l b P @ passes l b Q"
  by (simp add: passes_def)

definition counted :: "limiter \<Rightarrow> string \<Rightarrow> conc \<Rightarrow> bool" where
  "counted l b c \<longleftrightarrow> (\<exists>G. windowed (lim_Name l @ '':'' @ b) (lim_Rule l) (cc_time c) (cc_fake c) G \<and>
     admissions G = map ps_time (passes l b (cc_passed c)))"

lemma apply_windowed_other:
  assumes "windowed (n @ '':'' @ b) r t f G" "fk_Err f = None" "separable n" "separable (lim_Name m)"
    and "n \<noteq> lim_Name m \<or> b \<noteq> b'" "apply_limiter (Fake stopped) m b' (f, t) = (Inr res, (f', t))"
  shows "windowed (n @ '':'' @ b) r t f' G"
proof -
  have "n @ '':'' @ b \<noteq> lim_Name m @ '':'' @ b'" using assms(3-5) by (auto simp: append_sep_inject)
  then have "fake_agree (n @ '':'' @ b) f' f"
    using assms(6) fake_decide_frame [of "n @ '':'' @ b" "lim_Name m @ '':'' @ b'" "lim_Rule m" t "f\<lparr>fk_Calls := fk_Calls f + 1\<rparr>"]
      fake_take_frame [of "n @ '':'' @ b" "lim_Name m @ '':'' @ b'" "lim_Bucket m" t "f\<lparr>fk_Calls := fk_Calls f + 1\<rparr>"]
    by (auto simp: fake_apply [OF assms(2)] Let_def split: if_splits)
  then show ?thesis using assms(1) by (rule windowed_agree)
qed

lemma apply_windowed_own:
  assumes "windowed (lim_Name l @ '':'' @ b) (lim_Rule l) t f G" "fk_Err f = None" "Rule_Valid (lim_Rule l)"
    and "\<not> Bucket_Valid (lim_Bucket l)" "apply_limiter (Fake stopped) l b (f, t) = (Inr res, (f', t))"
  shows "\<exists>G'. windowed (lim_Name l @ '':'' @ b) (lim_Rule l) t f' G' \<and>
    admissions G' = (if out_blocked res then [] else [t]) @ admissions G"
proof -
  let ?g = "f\<lparr>fk_Calls := fk_Calls f + 1\<rparr>" and ?K = "lim_Name l @ '':'' @ b"
  obtain q where q: "fake_decide ?K (lim_Rule l) t ?g = (q, f')" "res_Blocked q = out_blocked res"
    using assms(4,5) by (cases "fake_decide ?K (lim_Rule l) t ?g") (auto simp: fake_apply [OF assms(2)] Let_def)
  have "windowed ?K (lim_Rule l) t ?g G" using assms(1) by (simp add: windowed_calls)
  from windowed_decide [OF this assms(3) q(1)] q(2) show ?thesis by (auto split: if_splits)
qed

definition apart :: "limiter list \<Rightarrow> bool" where
  "apart ls \<longleftrightarrow> distinct (map lim_Name ls) \<and> (\<forall>l \<in> set ls. separable (lim_Name l))"

lemma apart_name: "apart ls \<Longrightarrow> l \<in> set ls \<Longrightarrow> m \<in> set ls \<Longrightarrow> lim_Name l = lim_Name m \<Longrightarrow> l = m"
  by (auto simp: apart_def distinct_map inj_on_def)

lemma conc_step_counted:
  assumes "conc_step U L ls c c'" "all_jobs_ok U L ls c" "counted l b c" "apart ls" "l \<in> set ls"
    and "Rule_Valid (lim_Rule l)" "\<not> Bucket_Valid (lim_Bucket l)"
  shows "counted l b c'"
  using assms(1)
proof cases
  case (work i j m ls' s x)
  obtain G where G: "windowed (lim_Name l @ '':'' @ b) (lim_Rule l) (cc_time c) (cc_fake c) G"
    "admissions G = map ps_time (passes l b (cc_passed c))" using assms(3) by (auto simp: counted_def)
  have err: "fk_Err (cc_fake c) = None" using assms(2) by (simp add: all_jobs_ok_def)
  have "job_ok U L ls (cc_time c) (cc_passed c) i j" using assms(2) work(2,3) by (auto simp: all_jobs_ok_def)
  with work(4) have m: "m \<in> set ls"
    by (auto simp: job_ok_def) (metis in_set_dropD list.set_intros(1))
  have b: "fst (bucket m (job_run c j)) = Some b'" if "keyed U m b' (job_req j)" for b'
    using that by (simp add: bucket_keyed job_run_def keyed_def)
  show ?thesis
    using work(5) [unfolded job_run_def] err
  proof (cases rule: turn_fake)
    case skipped
    then have "passed_by i m s c j = []" "fst (run_world x) = cc_fake c" by (simp_all add: passed_by_def)
    with G work(1) show ?thesis by (auto simp: counted_def)
  next
    case (called b' res f')
    have new: "map ps_time (passes l b (passed_by i m s c j)) =
        (if lim_Name m = lim_Name l \<and> b' = b \<and> \<not> out_blocked res then [cc_time c] else [])"
      using b [OF called(1)] called(5) by (auto simp: passed_by_def passes_def)
    show ?thesis
    proof (cases "m = l \<and> b' = b")
      case True
      with apply_windowed_own [OF G(1) err assms(6,7)] called(4) obtain G' where
        "windowed (lim_Name l @ '':'' @ b) (lim_Rule l) (cc_time c) f' G'"
        "admissions G' = (if out_blocked res then [] else [cc_time c]) @ admissions G" by blast
      with G(2) new True work(1) called(2) show ?thesis
        by (auto simp: counted_def passes_append)
    next
      case False
      then have "lim_Name l \<noteq> lim_Name m \<or> b \<noteq> b'" using apart_name [OF assms(4,5) m] by auto
      moreover have "separable (lim_Name l)" "separable (lim_Name m)" using assms(4,5) m by (auto simp: apart_def)
      ultimately have "windowed (lim_Name l @ '':'' @ b) (lim_Rule l) (cc_time c) f' G"
        using apply_windowed_other [OF G(1) err _ _ _ called(4)] by blast
      moreover have "\<not> (lim_Name m = lim_Name l \<and> b' = b)" using False apart_name [OF assms(4,5) m] by auto
      ultimately show ?thesis using G(2) new work(1) called(2) by (auto simp: counted_def passes_append)
    qed
  qed
next
  case (pass t)
  then show ?thesis using assms(3) by (auto simp: counted_def intro: windowed_wait)
qed (use assms(3) in \<open>simp add: counted_def\<close>)

lemma conc_reach_counted:
  assumes "conc_reach U L ls (conc_start t) c" "\<forall>l \<in> set ls. subject_keyer L (lim_Keyer l)" "apart ls" "l \<in> set ls"
    and "Rule_Valid (lim_Rule l)" "\<not> Bucket_Valid (lim_Bucket l)"
  shows "counted l b c"
  using assms(1)
proof induction
  case start
  show ?case using windowed_start by (fastforce simp: counted_def conc_start_def passes_def)
next
  case (step c c')
  then show ?case using conc_step_counted conc_reach_jobs_ok assms(2-) by blast
qed

subsection \<open>A job alone\<close>

text \<open>A job that nobody interrupts computes what the engine's loop computes.\<close>

lemma conc_reach_trans: "conc_reach U L ls c1 c2 \<Longrightarrow> conc_reach U L ls c0 c1 \<Longrightarrow> conc_reach U L ls c0 c2"
  by (induction rule: conc_reach.induct) (auto intro: conc_reach.intros)

lemma turn_any_log:
  assumes "turn U S l \<lparr>run_req = r, run_world = w, run_log = lg\<rparr> = (s, x)"
  shows "\<exists>lg. turn U S l \<lparr>run_req = r, run_world = w, run_log = []\<rparr> = (s, x\<lparr>run_log := lg\<rparr>)"
proof (cases "lim_Keyer l r")
  case (Pair k r')
  with assms show ?thesis
    by (cases k; cases "apply_limiter S l (the (case k of KeyRet b \<Rightarrow> b | _ \<Rightarrow> None)) w")
      (auto simp: turn_def bucket_def split: if_splits option.splits sum.splits
        intro: exI [of _ "[]"] exI [of _ "drop (length lg) (run_log x)"])
qed

lemma job_alone:
  assumes "i < length (cc_jobs c)" "job_todo (cc_jobs c ! i) = ks" "fk_Err (cc_fake c) = None"
    and "evaluate_loop U (Fake stopped) ks (job_dec (cc_jobs c ! i))
      \<lparr>run_req = job_req (cc_jobs c ! i), run_world = (cc_fake c, cc_time c), run_log = lg\<rparr> = (d', x')"
  shows "\<exists>c'. conc_reach U L ls c c' \<and> job_todo (cc_jobs c' ! i) = [] \<and>
    (job_dec (cc_jobs c' ! i), job_req (cc_jobs c' ! i), cc_fake c', cc_time c') = (d', run_req x', run_world x')"
  using assms
proof (induction ks arbitrary: c lg)
  case Nil
  then show ?case by (auto intro!: exI [of _ c] conc_reach.start)
next
  case (Cons l ks)
  let ?j = "cc_jobs c ! i"
  obtain s x where t: "turn U (Fake stopped) l \<lparr>run_req = job_req ?j, run_world = (cc_fake c, cc_time c), run_log = lg\<rparr> = (s, x)"
    by (metis surj_pair)
  from turn_any_log [OF t] obtain lg' where t': "turn U (Fake stopped) l (job_run c ?j) = (s, x\<lparr>run_log := lg'\<rparr>)"
    by (auto simp: job_run_def)
  have w: "snd (run_world x) = cc_time c \<and> fk_Err (fst (run_world x)) = None"
    using t Cons.prems(3) by (cases rule: turn_fake) (auto simp: Cons.prems(3))
  define c1 where "c1 = c\<lparr>cc_jobs := (cc_jobs c)[i := job_after l ks s (x\<lparr>run_log := lg'\<rparr>) ?j], cc_fake := fst (run_world x),
    cc_passed := passed_by i l s c ?j @ cc_passed c\<rparr>"
  have step: "conc_reach U L ls c c1"
    using conc_step.work [OF Cons.prems(1) refl Cons.prems(2) t'] by (auto simp: c1_def intro: conc_reach.intros)
  have c1: "cc_jobs c1 ! i = job_after l ks s (x\<lparr>run_log := lg'\<rparr>) ?j" "i < length (cc_jobs c1)"
    "(cc_fake c1, cc_time c1) = run_world x" "fk_Err (cc_fake c1) = None"
    using Cons.prems(1) w by (auto simp: c1_def prod_eq_iff)
  show ?case
  proof (cases "is_block s")
    case True
    with Cons.prems(4) t have "d' = after l s (job_dec ?j)" "x' = x"
      by (simp_all add: evaluate_loop_turn del: evaluate_loop.simps)
    with True step c1 show ?thesis by (intro exI [of _ c1]) (auto simp: job_after_def)
  next
    case False
    have x: "\<lparr>run_req = run_req x, run_world = run_world x, run_log = run_log x\<rparr> = x" by simp
    from False Cons.prems(4) t have "evaluate_loop U (Fake stopped) ks (job_dec (cc_jobs c1 ! i))
        \<lparr>run_req = job_req (cc_jobs c1 ! i), run_world = (cc_fake c1, cc_time c1), run_log = run_log x\<rparr> = (d', x')"
      by (simp add: evaluate_loop_turn c1 job_after_def x del: evaluate_loop.simps)
    from Cons.IH [OF c1(2) _ c1(4) this] False show ?thesis
      using conc_reach_trans step by (fastforce simp: c1 job_after_def)
  qed
qed

subsection \<open>Schedules\<close>

text \<open>An execution as a list of events, so that one can be computed.\<close>

datatype conc_event = Arrives request | Works nat | Passes nat

fun conc_do :: "unicode \<Rightarrow> limiter list \<Rightarrow> conc_event \<Rightarrow> conc \<Rightarrow> conc" where
  "conc_do U ls (Arrives r) c = c\<lparr>cc_jobs := cc_jobs c @ [job_new ls r (cc_time c)]\<rparr>"
| "conc_do U ls (Works i) c =
     (if i < length (cc_jobs c)
      then (case job_todo (cc_jobs c ! i) of
              [] \<Rightarrow> c
            | l # ls' \<Rightarrow>
                (case turn U (Fake stopped) l (job_run c (cc_jobs c ! i)) of (s, x) \<Rightarrow>
                   c\<lparr>cc_jobs := (cc_jobs c)[i := job_after l ls' s x (cc_jobs c ! i)], cc_fake := fst (run_world x),
                     cc_passed := passed_by i l s c (cc_jobs c ! i) @ cc_passed c\<rparr>))
      else c)"
| "conc_do U ls (Passes n) c = c\<lparr>cc_time := cc_time c + int n\<rparr>"

fun event_coherent :: "lib \<Rightarrow> conc_event \<Rightarrow> bool" where
  "event_coherent L (Arrives r) = coherent L r"
| "event_coherent L _ = True"

lemma conc_do_reach:
  assumes "conc_reach U L ls c0 c" "event_coherent L e" shows "conc_reach U L ls c0 (conc_do U ls e c)"
proof -
  have "conc_step U L ls c (c\<lparr>cc_time := cc_time c + int n\<rparr>)" for n by (rule conc_step.pass) simp
  with assms show ?thesis
    by (cases e) (auto intro: conc_reach.step conc_step.intros split: list.splits prod.splits)
qed

definition conc_exec :: "unicode \<Rightarrow> limiter list \<Rightarrow> conc_event list \<Rightarrow> time \<Rightarrow> conc" where
  "conc_exec U ls es t = fold (conc_do U ls) es (conc_start t)"

lemma conc_exec_reach:
  assumes "list_all (event_coherent L) es" shows "conc_reach U L ls (conc_start t) (conc_exec U ls es t)"
proof -
  have "conc_reach U L ls (conc_start t) (fold (conc_do U ls) es c)"
    if "conc_reach U L ls (conc_start t) c" for c
    using assms that by (induction es arbitrary: c) (auto intro: conc_do_reach)
  then show ?thesis unfolding conc_exec_def by (simp add: conc_reach.start)
qed

subsection \<open>Properties\<close>

text \<open>The jobs that were let through, keyed to a bucket of a limiter, within a span of time.\<close>

definition let_through :: "unicode \<Rightarrow> limiter \<Rightarrow> string \<Rightarrow> time \<Rightarrow> duration \<Rightarrow> conc \<Rightarrow> nat" where
  "let_through U l b a D c = length (filter (\<lambda>j. job_todo j = [] \<and> \<not> Rejected (job_dec j) \<and> keyed U l b (job_req j) \<and>
     a \<le> job_from j \<and> job_upto j < a + D) (cc_jobs c))"

lemma let_through_counted:
  assumes "all_jobs_ok U L ls c" "l \<in> set ls" "\<not> lim_DryRun l"
  shows "let_through U l b a D c \<le> in_span a D (map ps_time (passes l b (cc_passed c)))"
proof -
  let ?P = "\<lambda>j. job_todo j = [] \<and> \<not> Rejected (job_dec j) \<and> keyed U l b (job_req j) \<and> a \<le> job_from j \<and> job_upto j < a + D"
  let ?ps = "filter (\<lambda>p. a \<le> ps_time p \<and> ps_time p < a + D) (passes l b (cc_passed c))"
  have "{i. i < length (cc_jobs c) \<and> ?P (cc_jobs c ! i)} \<subseteq> ps_job ` set ?ps"
  proof clarify
    fix i assume i: "i < length (cc_jobs c)" and fin: "job_todo (cc_jobs c ! i) = []" "\<not> Rejected (job_dec (cc_jobs c ! i))"
      "keyed U l b (job_req (cc_jobs c ! i))" and span: "a \<le> job_from (cc_jobs c ! i)" "job_upto (cc_jobs c ! i) < a + D"
    have "job_ok U L ls (cc_time c) (cc_passed c) i (cc_jobs c ! i)" using assms(1) i by (simp add: all_jobs_ok_def)
    with fin assms(2,3) obtain p where "p \<in> set (cc_passed c)" "passing_of i l b (cc_jobs c ! i) p"
      unfolding job_ok_def by (metis drop_eq_Nil take_all)
    with span show "i \<in> ps_job ` set ?ps" by (force simp: passing_of_def passes_def)
  qed
  then have "let_through U l b a D c \<le> card (ps_job ` set ?ps)"
    unfolding let_through_def length_filter_conv_card by (rule card_mono [rotated]) simp
  also have "\<dots> \<le> length ?ps" by (meson card_image_le card_length finite_set le_trans)
  also have "\<dots> = in_span a D (map ps_time (passes l b (cc_passed c)))" by (simp add: in_span_def filter_map o_def)
  finally show ?thesis .
qed

text \<open>C12. Limits hold for requests handled at the same time: however the evaluations interleave on the
  in-memory store, in any span as long as the shorter of window and block at most twice the limit of
  requests keyed to one bucket of an enforcing window limiter are let through.\<close>

theorem concurrent_admissions:
  assumes "conc_reach U L ls (conc_start t) c" "\<forall>l \<in> set ls. subject_keyer L (lim_Keyer l)" "apart ls"
    and "l \<in> set ls" "\<not> lim_DryRun l" "\<not> Bucket_Valid (lim_Bucket l)" "Rule_Valid (lim_Rule l)"
  shows "int (let_through U l b a (min (rule_Window (lim_Rule l)) (rule_Block (lim_Rule l))) c) \<le> 2 * rule_Limit (lim_Rule l)"
proof -
  obtain G where G: "paced (shorter (lim_Rule l)) (rule_Limit (lim_Rule l)) (cc_time c) G"
    "admissions G = map ps_time (passes l b (cc_passed c))"
    using conc_reach_counted [OF assms(1-4,7,6), of b] by (auto simp: counted_def windowed_def)
  have "0 \<le> rule_Limit (lim_Rule l)" "0 < shorter (lim_Rule l)" using assms(7) by (auto simp: Rule_Valid_def shorter_def)
  from paced_span [OF G(1) this, of a]
    let_through_counted [OF conc_reach_jobs_ok [OF assms(1,2)] assms(4,5), of b a "shorter (lim_Rule l)"]
  show ?thesis by (simp add: G(2) shorter_def)
qed

theorem concurrent_admissions_witness:
  "let ls = [demo_limiter ''a'' 1 False]; r = run_req (demo_run Fake_New);
       c = conc_exec plain_unicode ls [Arrives r, Arrives r, Works 1, Works 0] 0
   in let_through plain_unicode (demo_limiter ''a'' 1 False) ''a'' 0 (30 * Second) c \<le> 2 \<and>
      map (\<lambda>j. Rejected (job_dec j)) (cc_jobs c) = [True, False]"
proof -
  let ?l = "demo_limiter ''a'' 1 False" and ?r = "run_req (demo_run Fake_New)"
  let ?es = "[Arrives ?r, Arrives ?r, Works 1, Works 0]"
  have sk: "subject_keyer plain_lib (lim_Keyer ?l)" by (simp add: demo_limiter_def subject_keyer_method)
  have "conc_reach plain_unicode plain_lib [?l] (conc_start 0) (conc_exec plain_unicode [?l] ?es 0)"
    by (rule conc_exec_reach) (simp add: demo_run_def)
  from concurrent_admissions [OF this, of ?l "''a''" 0] sk
  have "let_through plain_unicode ?l ''a'' 0 (30 * Second) (conc_exec plain_unicode [?l] ?es 0) \<le> 2"
    by (simp add: apart_def demo_limiter_def zero_bucket_def Bucket_Valid_def Rule_Valid_def Minute_def Second_def)
  moreover have "map (\<lambda>j. Rejected (job_dec j)) (cc_jobs (conc_exec plain_unicode [?l] ?es 0)) = [True, False]" by code_simp
  ultimately show ?thesis unfolding Let_def by blast
qed

end
