(* ===== verification/TokenBucket.thy ===== *)
theory TokenBucket
  imports RedisStore
begin

text \<open>
  What the arithmetic of the \<open>take\<close> script of \<open>redisstore.go\<close> does over many calls: the tokens stay
  between zero and the burst, a fresh bucket admits exactly its burst at one instant, the number
  admitted over any span is bounded by burst and rate up to the rounding of doubles, and the
  expiry of an idle bucket cannot be told from keeping it. The lemmas hold for every rounding in
  the sense of the locale \<open>rounding\<close>, so for doubles and for exact arithmetic alike.
\<close>

subsection \<open>A run of calls on one bucket\<close>

fun bucket_run :: "(rat \<Rightarrow> rat) \<Rightarrow> rat \<Rightarrow> rat \<Rightarrow> rat option \<times> rat option \<Rightarrow> rat list \<Rightarrow> int list" where
  "bucket_run rnd rate burst st [] = []"
| "bucket_run rnd rate burst st (t # ts) =
     (case bucket_step rnd rate burst t st of (allowed, tokens, retry) \<Rightarrow>
        allowed # bucket_run rnd rate burst (Some tokens, Some t) ts)"

definition bucket_inv :: "rat \<Rightarrow> rat option \<times> rat option \<Rightarrow> bool" where
  "bucket_inv burst st = (case st of (Some tokens, Some ts) \<Rightarrow> 0 \<le> tokens \<and> tokens \<le> burst | _ \<Rightarrow> True)"

context rounding
begin

lemma refill_bounds:
  assumes "0 \<le> tokens" "0 \<le> elapsed" "0 \<le> rate" "0 \<le> burst"
  shows "0 \<le> bucket_refill rnd rate burst tokens elapsed" "bucket_refill rnd rate burst tokens elapsed \<le> burst"
  using assms by (simp_all add: bucket_refill_def rnd_nonneg)

lemma elapsed_nonneg: "0 \<le> bucket_elapsed rnd t ts"
  by (simp add: bucket_elapsed_def Let_def)

lemma start_bounds: "bucket_inv burst st \<Longrightarrow> 0 \<le> burst \<Longrightarrow> bucket_start burst t st = (tokens, ts) \<Longrightarrow> 0 \<le> tokens \<and> tokens \<le> burst"
  by (auto simp: bucket_inv_def bucket_start_def split: option.splits prod.splits)

lemma retry_bounds:
  assumes "0 \<le> tokens" "tokens < 1" "1 \<le> rate"
  shows "1 \<le> \<lceil>rnd (rnd (rnd (1 - tokens) * 1000) / rate)\<rceil>" "\<lceil>rnd (rnd (rnd (1 - tokens) * 1000) / rate)\<rceil> \<le> 1000"
proof -
  let ?y = "rnd (rnd (1 - tokens) * 1000)"
  have y: "0 < ?y" using assms by (intro rnd_pos mult_pos_pos) simp_all
  then have "0 < rnd (?y / rate)" using assms by (intro rnd_pos) simp
  then show "1 \<le> \<lceil>rnd (?y / rate)\<rceil>" by linarith
  have "rnd (1 - tokens) \<le> 1" using rnd_le_int [of 1 "1 - tokens"] assms by simp
  then have "?y \<le> 1000" using rnd_le_int [of 1000 "rnd (1 - tokens) * 1000"] by simp
  then have "?y / rate \<le> 1000" using assms y by (simp add: pos_divide_le_eq)
  then have "rnd (?y / rate) \<le> 1000" using rnd_le_int [of 1000 "?y / rate"] by simp
  then show "\<lceil>rnd (?y / rate)\<rceil> \<le> 1000" by (simp add: ceiling_le_iff)
qed

lemma take_bounds:
  assumes "0 \<le> tokens" "tokens \<le> of_int B" "1 \<le> B" "B \<le> 2 ^ 53" "1 \<le> rate" "bucket_take rnd rate tokens = (a, tokens', retry)"
  shows "0 \<le> tokens' \<and> tokens' \<le> of_int B \<and>
    (a = 1 \<and> 1 \<le> tokens \<and> retry = 0 \<or> a = 0 \<and> tokens' < 1 \<and> 1 \<le> retry \<and> retry \<le> 1000)"
proof (cases "1 \<le> tokens")
  case True
  have "rnd (tokens - 1) \<le> of_int (B - 1)" using assms True by (intro rnd_le_int) simp_all
  with True assms show ?thesis by (auto simp: bucket_take_def rnd_nonneg)
next
  case False
  with assms retry_bounds [of tokens rate] show ?thesis by (auto simp: bucket_take_def)
qed

lemma step_bounds:
  assumes "bucket_inv (of_int B) st" "1 \<le> B" "B \<le> 2 ^ 53" "1 \<le> rate"
    and "bucket_step rnd rate (of_int B) t st = (a, tokens', retry)"
  shows "0 \<le> tokens' \<and> tokens' \<le> of_int B \<and>
    (a = 1 \<and> retry = 0 \<or> a = 0 \<and> tokens' < 1 \<and> 1 \<le> retry \<and> retry \<le> 1000)"
proof -
  obtain tokens ts where s: "bucket_start (of_int B) t st = (tokens, ts)" by (cases "bucket_start (of_int B) t st")
  have "0 \<le> tokens" using start_bounds [OF assms(1) _ s] assms(2) by simp
  then have "0 \<le> bucket_refill rnd rate (of_int B) tokens (bucket_elapsed rnd t ts)"
    "bucket_refill rnd rate (of_int B) tokens (bucket_elapsed rnd t ts) \<le> of_int B"
    using assms(2,4) by (intro refill_bounds elapsed_nonneg; simp)+
  from take_bounds [OF this assms(2-4)] assms(5) s show ?thesis by (auto simp: bucket_step_def)
qed

subsection \<open>One instant\<close>

lemma step_same_instant:
  assumes "0 \<le> n" "n \<le> B" "B \<le> 2 ^ 53"
  shows "bucket_step rnd rate (of_int B) t (Some (of_int n), Some t) =
    bucket_take rnd rate (of_int n)"
  using assms by (simp add: bucket_step_def bucket_start_def bucket_elapsed_def bucket_refill_def rnd_zero rnd_int Let_def)

lemma step_fresh: "0 \<le> B \<Longrightarrow> B \<le> 2 ^ 53 \<Longrightarrow> bucket_step rnd rate (of_int B) t (None, st) = bucket_take rnd rate (of_int B)"
  by (simp add: bucket_step_def bucket_start_def bucket_elapsed_def bucket_refill_def rnd_zero rnd_int Let_def)

lemma take_int:
  assumes "0 \<le> n" "n \<le> 2 ^ 53"
  shows "\<exists>retry. bucket_take rnd rate (of_int n) = (if n \<ge> 1 then (1, of_int (n - 1), 0) else (0, 0, retry))"
  using assms rnd_int [of "n - 1"] by (auto simp: bucket_take_def)

lemma run_same_instant:
  assumes "0 \<le> k" "k \<le> B" "B \<le> 2 ^ 53"
  shows "bucket_run rnd rate (of_int B) (Some (of_int k), Some t) (replicate n t) =
    replicate (min n (nat k)) 1 @ replicate (n - nat k) 0"
  using assms
proof (induction n arbitrary: k)
  case (Suc n)
  show ?case
  proof (cases "k \<ge> 1")
    case True
    then obtain j where j: "nat k = Suc j" "nat (k - 1) = j" by (cases "nat k") auto
    have "bucket_take rnd rate (of_int k) = (1, of_int (k - 1), 0)" using take_int [of k rate] Suc.prems True by auto
    with Suc.IH [of "k - 1"] Suc.prems True j step_same_instant [of k B rate t] show ?thesis by simp
  next
    case False
    with Suc.prems have k: "k = 0" by simp
    obtain r where "bucket_take rnd rate 0 = (0, 0, r)" using take_int [of 0 rate] by auto
    with Suc.IH [of 0] Suc.prems k step_same_instant [of 0 B rate t] show ?thesis by simp
  qed
qed simp

lemma run_fresh:
  assumes "1 \<le> B" "B \<le> 2 ^ 53"
  shows "bucket_run rnd rate (of_int B) (None, None) (replicate n t) = replicate (min n (nat B)) 1 @ replicate (n - nat B) 0"
proof (cases n)
  case (Suc m)
  obtain j where j: "nat B = Suc j" "nat (B - 1) = j" using assms by (cases "nat B") auto
  have "bucket_take rnd rate (of_int B) = (1, of_int (B - 1), 0)" using take_int [of B rate] assms by auto
  with assms j run_same_instant [of "B - 1" B rate t m] step_fresh [of B rate t None] show ?thesis by (simp add: Suc)
qed simp

subsection \<open>Over time\<close>

text \<open>One refill, with its rounding, adds at most what the elapsed time earns and a sliver.\<close>

lemma refill_gain:
  assumes "0 \<le> tokens" "tokens \<le> burst" "1 \<le> burst" "0 \<le> e" "0 \<le> rate"
  shows "bucket_refill rnd rate burst tokens e \<le> tokens + e * rate / 1000 + burst / 2 ^ 50"
proof (cases "burst \<le> e * rate / 1000")
  case True
  have "bucket_refill rnd rate burst tokens e \<le> burst" by (simp add: bucket_refill_def)
  moreover have "0 \<le> burst / 2 ^ 50" using assms by simp
  ultimately show ?thesis using True assms(1) by linarith
next
  case False
  define x where "x = e * rate / 1000"
  define x1 where "x1 = rnd (e * rate)"
  define x2 where "x2 = rnd (x1 / 1000)"
  have x: "0 \<le> x" "x \<le> burst" using False assms by (simp_all add: x_def)
  have "x1 \<le> e * rate + e * rate / 2 ^ 53" unfolding x1_def using assms by (intro rnd_hi) simp
  then have x1: "x1 / 1000 \<le> x + x / 2 ^ 53" by (simp add: x_def field_simps)
  have "0 \<le> x1" unfolding x1_def using assms by (intro rnd_nonneg) simp
  then have "x2 \<le> x1 / 1000 + x1 / 1000 / 2 ^ 53" unfolding x2_def by (intro rnd_hi) simp
  then have x2: "x2 \<le> x + 3 * (burst / 2 ^ 53)" using x1 x by simp
  have "0 \<le> x2" unfolding x2_def using \<open>0 \<le> x1\<close> by (intro rnd_nonneg) simp
  then have "rnd (tokens + x2) \<le> (tokens + x2) + (tokens + x2) / 2 ^ 53" using assms by (intro rnd_hi) simp
  moreover have "(tokens + x2) / 2 ^ 53 \<le> 5 * (burst / 2 ^ 53)" using x2 x assms by simp
  ultimately have "rnd (tokens + x2) \<le> tokens + x + 8 * (burst / 2 ^ 53)" using x2 by linarith
  then show ?thesis by (simp add: bucket_refill_def x_def [symmetric] x1_def [symmetric] x2_def [symmetric])
qed

lemma take_spends:
  assumes "0 \<le> tokens" "tokens \<le> burst" "bucket_take rnd rate tokens = (a, tokens', retry)"
  shows "of_int a + tokens' \<le> tokens + burst / 2 ^ 53"
proof (cases "1 \<le> tokens")
  case True
  then have "rnd (tokens - 1) \<le> (tokens - 1) + (tokens - 1) / 2 ^ 53" by (intro rnd_hi) simp
  moreover have "(tokens - 1) / 2 ^ 53 \<le> burst / 2 ^ 53" using assms by (intro divide_right_mono) simp_all
  ultimately have "1 + rnd (tokens - 1) \<le> tokens + burst / 2 ^ 53" by linarith
  with True assms show ?thesis by (auto simp: bucket_take_def)
qed (use assms in \<open>auto simp: bucket_take_def\<close>)

lemma step_spends:
  assumes "0 \<le> tokens" "tokens \<le> of_int B" "1 \<le> B" "B \<le> 2 ^ 20" "0 \<le> rate" "0 \<le> s" "s \<le> t" "t \<le> 2 ^ 53"
    and "bucket_step rnd rate (of_int B) (of_int t) (Some tokens, Some (of_int s)) = (a, tokens', retry)"
  shows "of_int a + tokens' \<le> tokens + of_int (t - s) * rate / 1000 + 1 / 2 ^ 29"
proof -
  let ?e = "bucket_elapsed rnd (of_int t) (of_int s)"
  let ?f = "bucket_refill rnd rate (of_int B) tokens ?e"
  have e: "?e = of_int (t - s)"
    using assms rnd_int [of "t - s"] by (simp add: bucket_elapsed_def)
  have f: "0 \<le> ?f" "?f \<le> of_int B" using assms by (intro refill_bounds elapsed_nonneg; simp)+
  have "of_int a + tokens' \<le> ?f + of_int B / 2 ^ 53"
    using take_spends [OF f] assms(9) by (simp add: bucket_step_def bucket_start_def)
  moreover have "?f \<le> tokens + of_int (t - s) * rate / 1000 + of_int B / 2 ^ 50"
    using refill_gain [of tokens "of_int B" "of_int (t - s)" rate] assms e by simp
  moreover have "of_int B / 2 ^ 53 + of_int B / 2 ^ 50 \<le> (1 :: rat) / 2 ^ 29"
    using assms(4) of_int_le_iff [of B "2 ^ 20", where 'a = rat] by simp
  ultimately show ?thesis by linarith
qed

lemma run_spends:
  assumes "0 \<le> tokens" "tokens \<le> of_int B" "1 \<le> B" "B \<le> 2 ^ 20" "1 \<le> rate" "sorted (s # ts)" "0 \<le> s" "list_all (\<lambda>t. t \<le> 2 ^ 53) ts"
  shows "of_int (sum_list (bucket_run rnd rate (of_int B) (Some tokens, Some (of_int s)) (map of_int ts)))
    \<le> tokens + of_int (last (s # ts) - s) * rate / 1000 + of_nat (length ts) / 2 ^ 29"
  using assms
proof (induction ts arbitrary: tokens s)
  case (Cons t ts)
  obtain a tokens' retry where st: "bucket_step rnd rate (of_int B) (of_int t) (Some tokens, Some (of_int s)) = (a, tokens', retry)"
    by (metis prod_cases3)
  have "bucket_inv (of_int B) (Some tokens, Some (of_int s))" using Cons.prems by (simp add: bucket_inv_def)
  then have t': "0 \<le> tokens'" "tokens' \<le> of_int B" using step_bounds [OF _ _ _ _ st] Cons.prems by auto
  have step: "of_int a + tokens' \<le> tokens + of_int (t - s) * rate / 1000 + 1 / 2 ^ 29"
    using Cons.prems by (intro step_spends [OF _ _ _ _ _ _ _ _ st]) simp_all
  have rest: "of_int (sum_list (bucket_run rnd rate (of_int B) (Some tokens', Some (of_int t)) (map of_int ts)))
      \<le> tokens' + of_int (last (t # ts) - t) * rate / 1000 + of_nat (length ts) / 2 ^ 29"
    using Cons.prems t' by (intro Cons.IH) simp_all
  have split: "of_int (last (t # ts) - s) * rate / 1000 = of_int (t - s) * rate / 1000 + of_int (last (t # ts) - t) * rate / 1000"
    by (simp add: algebra_simps diff_divide_distrib add_divide_distrib)
  have len: "of_nat (length (t # ts)) / 2 ^ 29 = (1 :: rat) / 2 ^ 29 + of_nat (length ts) / 2 ^ 29"
    by (simp add: add_divide_distrib)
  have "of_int a + of_int (sum_list (bucket_run rnd rate (of_int B) (Some tokens', Some (of_int t)) (map of_int ts)))
      \<le> tokens + of_int (last (t # ts) - s) * rate / 1000 + of_nat (length (t # ts)) / 2 ^ 29"
    unfolding split len using step rest by linarith
  then show ?case by (simp add: st)
qed simp

lemma run_rate:
  assumes "1 \<le> B" "B \<le> 2 ^ 20" "1 \<le> rate" "sorted (s # ts)" "0 \<le> s" "list_all (\<lambda>t. t \<le> 2 ^ 53) (s # ts)"
  shows "of_int (sum_list (bucket_run rnd rate (of_int B) (None, None) (map of_int (s # ts))))
    \<le> of_int B + of_int (last (s # ts) - s) * rate / 1000 + of_nat (length (s # ts)) / 2 ^ 29"
proof -
  have eq: "bucket_step rnd rate (of_int B) (of_int s) (None, None) =
      bucket_step rnd rate (of_int B) (of_int s) (Some (of_int B), Some (of_int s))"
    by (simp add: bucket_step_def bucket_start_def)
  have "bucket_run rnd rate (of_int B) (None, None) (map of_int (s # ts)) =
      bucket_run rnd rate (of_int B) (Some (of_int B), Some (of_int s)) (map of_int (s # ts))"
    by (simp add: eq)
  then show ?thesis using run_spends [of "of_int B" B rate s "s # ts"] assms by simp
qed

subsection \<open>Idle buckets\<close>

lemma idle_full:
  assumes "0 \<le> tokens" "1 \<le> B" "B \<le> 2 ^ 20" "1 \<le> r" "r \<le> 2 ^ 20"
    and "of_int (bucket_ttl rnd (of_int r) (of_int B)) \<le> e"
  shows "bucket_refill rnd (of_int r) (of_int B) tokens e = of_int B"
proof -
  let ?r = "of_int r :: rat"
  define y where "y = of_int (B * 1000) / ?r"
  have b: "rnd (of_int B * 1000) = of_int (B * 1000)" using assms rnd_int [of "B * 1000"] by simp
  have y: "0 \<le> y" "y \<le> of_int (B * 1000)"
    using assms by (simp_all add: y_def pos_divide_le_eq mult_le_cancel_left1)
  have "y - y / 2 ^ 53 \<le> rnd y" using y by (intro rnd_lo) simp
  moreover have "y / 2 ^ 53 \<le> 1" using y assms(3) by simp
  moreover have "rnd y + 10000 \<le> e"
  proof -
    have "of_int \<lceil>rnd y\<rceil> + 10000 \<le> e" using assms(6) by (simp add: bucket_ttl_def b y_def)
    then show ?thesis using le_of_int_ceiling [of "rnd y"] by linarith
  qed
  ultimately have "y \<le> e" by linarith
  then have "of_int (B * 1000) \<le> e * ?r" using assms by (simp add: y_def pos_divide_le_eq)
  then have "of_int (B * 1000) \<le> rnd (e * ?r)" using assms by (intro rnd_ge_int) simp_all
  then have "of_int B \<le> rnd (e * ?r) / 1000" by simp
  then have "of_int B \<le> rnd (rnd (e * ?r) / 1000)" using assms by (intro rnd_ge_int) simp_all
  then have "of_int B \<le> rnd (tokens + rnd (rnd (e * ?r) / 1000))" using assms by (intro rnd_ge_int) simp_all
  then show ?thesis by (simp add: bucket_refill_def)
qed

end

end
