(* ===== verification/RedisTake.thy ===== *)
theory RedisTake
  imports RedisRef TokenBucket
begin

text \<open>
  \<open>Take\<close> of the Redis store, run call after call on the reference keyspace with pauses of whole
  milliseconds between the calls. The key of an idle bucket expires; the refinement below shows
  that this cannot be observed, so a run is the run of one bucket that is never dropped, and the
  bounds of \<open>TokenBucket\<close> are bounds on what \<open>Take\<close> admits.
\<close>

subsection \<open>The script's clock\<close>

lemma script_now_ms:
  assumes "0 \<le> m" "m \<le> 2 ^ 53"
  shows "script_now (m * Millisecond div Second, m * Millisecond mod Second div Microsecond) = of_int m"
proof -
  have s: "m * Millisecond div Second = m div 1000" by (simp add: duration_units)
  have "m * Millisecond mod Second = (m mod 1000) * Millisecond"
    using mult_mod_left [of m 1000 Millisecond] by (simp add: duration_units)
  then have u: "m * Millisecond mod Second div Microsecond = m mod 1000 * 1000" by (simp add: duration_units)
  have "\<bar>m div 1000\<bar> \<le> 2 ^ 53" "\<bar>m div 1000 * 1000\<bar> \<le> 2 ^ 53" "\<bar>m mod 1000\<bar> \<le> 2 ^ 53" "\<bar>m mod 1000 * 1000\<bar> \<le> 2 ^ 53" "\<bar>m\<bar> \<le> 2 ^ 53"
    using assms by auto
  note I = this [THEN f64_int] this [THEN float_int]
  have a: "f64 (float (m div 1000) * 1000) = of_int (m div 1000 * 1000)" using I(2,6) by simp
  have b: "f64 (float (m mod 1000 * 1000) / 1000) = of_int (m mod 1000)" using I(3,9) by simp
  have "of_int (m div 1000 * 1000) + of_int (m mod 1000) = (of_int m :: rat)"
    by (metis div_mult_mod_eq of_int_add)
  with a b I(5) show ?thesis by (simp add: script_now_def s u)
qed

subsection \<open>One call\<close>

text \<open>What the script reads of a key, and what it leaves there.\<close>

definition stored :: "string \<Rightarrow> ks_world \<Rightarrow> rat option \<times> rat option" where
  "stored k w = (case ks_get k w of Some (RHash st, _) \<Rightarrow> st | _ \<Rightarrow> (None, None))"

definition hash_or_none :: "string \<Rightarrow> ks_world \<Rightarrow> bool" where
  "hash_or_none k w \<longleftrightarrow> (case ks_get k w of Some (RText _, _) \<Rightarrow> False | _ \<Rightarrow> True)"

definition put_bucket :: "string \<Rightarrow> rat \<Rightarrow> int \<Rightarrow> int \<Rightarrow> ks_world \<Rightarrow> ks_world" where
  "put_bucket k n m ttl w =
     ks_put k (Some (RHash (Some n, Some (of_int m)), Some (m * Millisecond + ttl * Millisecond))) w"

lemma put_bucket_simps [simp]:
  "ks_time (put_bucket k n m ttl w) = ks_time w" "ks_down (fst (put_bucket k n m ttl w)) = ks_down (fst w)"
  "ks_data (fst (put_bucket k n m ttl w)) k =
     Some (RHash (Some n, Some (of_int m)), Some (m * Millisecond + ttl * Millisecond))"
  by (simp_all add: put_bucket_def)

lemma bucket_ttl_pos: "0 < r \<Longrightarrow> 0 \<le> b \<Longrightarrow> 0 < bucket_ttl f64 r b"
proof -
  assume "0 < r" "0 \<le> b"
  then have "0 \<le> f64 (f64 (b * 1000) / r)" by (intro f64.rnd_nonneg divide_nonneg_pos) simp_all
  then show ?thesis unfolding bucket_ttl_def by linarith
qed

lemma take_script_step:
  assumes "hash_or_none k w" "ks_time w = m * Millisecond" "0 \<le> m" "m \<le> 2 ^ 53" "1 \<le> rate" "0 \<le> burst"
    and "bucket_step f64 (float rate) (float burst) (of_int m) (stored k w) = (a, n, r)"
  shows "take_script Keyspace k rate burst w =
    (Inr [a, \<lfloor>n\<rfloor>, r], put_bucket k n m (bucket_ttl f64 (float rate) (float burst)) w)"
proof -
  let ?ttl = "bucket_ttl f64 (float rate) (float burst)"
  have ttl: "0 < ?ttl" using assms(5,6) by (intro bucket_ttl_pos float_pos float_nonneg) simp_all
  have now: "script_now (ks_time w div Second, ks_time w mod Second div Microsecond) = of_int m"
    using script_now_ms [OF assms(3,4)] assms(2) by simp
  have get: "rd_HMGET Keyspace k w = (Inr (stored k w), w)"
    using assms(1) by (auto simp: Keyspace_def ks_HMGET_def stored_def hash_or_none_def
        split: option.splits prod.splits redis_value.splits)
  obtain e where set: "rd_HSET Keyspace k n (of_int m) w = (Inr (), ks_put k (Some (RHash (Some n, Some (of_int m)), e)) w)"
    and live: "ks_get k (ks_put k (Some (RHash (Some n, Some (of_int m)), e)) w) = Some (RHash (Some n, Some (of_int m)), e)"
    using assms(1)
    by (auto simp: Keyspace_def ks_HSET_def hash_or_none_def ks_get_def split: option.splits prod.splits redis_value.splits if_splits)
  have "rd_PEXPIRE Keyspace k ?ttl (ks_put k (Some (RHash (Some n, Some (of_int m)), e)) w) =
      (Inr (), put_bucket k n m ?ttl w)"
    using live ttl assms(2)
    by (simp add: Keyspace_def ks_PEXPIRE_def ks_expire_at_def put_bucket_def duration_units) (simp add: ks_put_def split: prod.splits)
  moreover have "rd_TIME Keyspace w = (Inr (ks_time w div Second, ks_time w mod Second div Microsecond), w)"
    by (simp add: Keyspace_def ks_TIME_def)
  ultimately show ?thesis using get set now assms(7) by (simp add: take_script_def call_def reply_def)
qed

subsection \<open>A run of calls\<close>

text \<open>Pauses in milliseconds, each followed by a call.\<close>

fun take_run :: "string \<Rightarrow> key \<Rightarrow> Store.bucket \<Rightarrow> nat list \<Rightarrow> ks_world \<Rightarrow> take_result ret list" where
  "take_run pre k b [] w = []"
| "take_run pre k b (d # ds) w =
     (case st_Take (RedisStore Keyspace pre) k b (lift_wait Waiting (d * nat Millisecond) w) of (x, w') \<Rightarrow>
        x # take_run pre k b ds w')"

text \<open>The instants of the calls, in milliseconds.\<close>

fun call_times :: "int \<Rightarrow> nat list \<Rightarrow> int list" where
  "call_times m [] = []"
| "call_times m (d # ds) = (m + int d) # call_times (m + int d) ds"

definition admitted :: "take_result ret \<Rightarrow> int" where
  "admitted x = (case x of Ret r None \<Rightarrow> if tr_Allowed r then 1 else 0 | _ \<Rightarrow> 0)"

text \<open>A keyspace that holds the bucket \<open>st\<close>, or has dropped it because it was idle.\<close>

definition holds :: "string \<Rightarrow> int \<Rightarrow> int \<Rightarrow> rat option \<times> rat option \<Rightarrow> ks_world \<Rightarrow> bool" where
  "holds k rate burst st w \<longleftrightarrow> ks_down (fst w) = None \<and>
     (ks_data (fst w) k = None \<and> st = (None, None) \<or>
      (\<exists>n s. ks_data (fst w) k = Some (RHash (Some n, Some (of_int s)),
            Some (s * Millisecond + bucket_ttl f64 (of_int rate) (of_int burst) * Millisecond)) \<and>
         st = (Some n, Some (of_int s)) \<and> 0 \<le> n \<and> n \<le> of_int burst \<and> 0 \<le> s \<and> s * Millisecond \<le> ks_time w))"

lemma holds_wait: "holds k rate burst st w \<Longrightarrow> holds k rate burst st (lift_wait Waiting d w)"
  by (auto simp: holds_def Waiting_def split: prod.splits)

lemma holds_hash: "holds k rate burst st w \<Longrightarrow> hash_or_none k w"
  by (auto simp: holds_def hash_or_none_def ks_get_def)

text \<open>Dropping an idle bucket cannot be observed: by then it would have been full.\<close>

lemma stored_step:
  assumes "holds k rate burst st w" "ks_time w = m * Millisecond" "m \<le> 2 ^ 53"
    and "1 \<le> rate" "rate \<le> 2 ^ 20" "1 \<le> burst" "burst \<le> 2 ^ 20"
  shows "bucket_step f64 (of_int rate) (of_int burst) (of_int m) (stored k w) =
    bucket_step f64 (of_int rate) (of_int burst) (of_int m) st"
proof (cases "ks_data (fst w) k = None")
  case True
  with assms(1) show ?thesis by (simp add: holds_def stored_def ks_get_def)
next
  case False
  let ?ttl = "bucket_ttl f64 (of_int rate) (of_int burst)"
  obtain n s where d: "ks_data (fst w) k = Some (RHash (Some n, Some (of_int s)), Some (s * Millisecond + ?ttl * Millisecond))"
    and st: "st = (Some n, Some (of_int s))" and n: "0 \<le> n" "n \<le> of_int burst" "0 \<le> s" "s * Millisecond \<le> ks_time w"
    using assms(1) False by (auto simp: holds_def)
  show ?thesis
  proof (cases "ks_time w < s * Millisecond + ?ttl * Millisecond")
    case True
    with d show ?thesis by (simp add: stored_def ks_get_def st)
  next
    case False
    then have e: "?ttl \<le> m - s" using assms(2) by (simp add: duration_units)
    have "s \<le> m" using n(4) assms(2) by (simp add: duration_units)
    then have el: "bucket_elapsed f64 (of_int m) (of_int s) = of_int (m - s)"
      using f64_int [of "m - s"] assms(3) n(3) by (simp add: bucket_elapsed_def)
    have full: "bucket_refill f64 (of_int rate) (of_int burst) n (of_int (m - s)) = of_int burst"
      using e assms n by (intro f64.idle_full) (simp_all only: of_int_le_iff)
    have "stored k w = (None, None)" using False d by (simp add: stored_def ks_get_def)
    then have "bucket_step f64 (of_int rate) (of_int burst) (of_int m) (stored k w) = bucket_take f64 (of_int rate) (of_int burst)"
      using f64.step_fresh [of burst "of_int rate" "of_int m" None] assms by simp
    also have "\<dots> = bucket_step f64 (of_int rate) (of_int burst) (of_int m) st"
      by (simp only: bucket_step_def bucket_start_def st el full prod.case option.case)
    finally show ?thesis .
  qed
qed

lemma Redis_Take_step:
  assumes "holds (tb_key pre k) (tb_Rate b) (tb_Burst b) st w" "ks_time w = m * Millisecond" "0 \<le> m" "m \<le> 2 ^ 53"
    and "1 \<le> tb_Rate b" "tb_Rate b \<le> 2 ^ 20" "1 \<le> tb_Burst b" "tb_Burst b \<le> 2 ^ 20"
    and "bucket_step f64 (of_int (tb_Rate b)) (of_int (tb_Burst b)) (of_int m) st = (a, n, r)"
    and "bucket_inv (of_int (tb_Burst b)) st"
  shows "\<exists>w'. st_Take (RedisStore Keyspace pre) k b w =
      (Ret \<lparr>tr_Allowed = (a = 1), tr_Remaining = \<lfloor>n\<rfloor>, tr_RetryAfter = r * Millisecond\<rparr> None, w') \<and>
    ks_time w' = ks_time w \<and> holds (tb_key pre k) (tb_Rate b) (tb_Burst b) (Some n, Some (of_int m)) w'"
proof -
  let ?k = "tb_key pre k" and ?R = "tb_Rate b" and ?B = "tb_Burst b"
  have fl: "float ?R = of_int ?R" "float ?B = of_int ?B" using assms by (simp_all add: float_int)
  have "bucket_step f64 (of_int ?R) (of_int ?B) (of_int m) (stored ?k w) = (a, n, r)"
    using stored_step [OF assms(1,2,4-8)] assms(9) by simp
  then have "take_script Keyspace ?k ?R ?B w = (Inr [a, \<lfloor>n\<rfloor>, r], put_bucket ?k n m (bucket_ttl f64 (of_int ?R) (of_int ?B)) w)"
    using take_script_step [OF holds_hash [OF assms(1)] assms(2-5), of ?B] assms(7) fl by simp
  moreover have down: "ks_down (fst w) = None" using assms(1) by (simp add: holds_def)
  ultimately have run: "run_script Keyspace (take_script Keyspace ?k ?R ?B) w =
      (Inr [a, \<lfloor>n\<rfloor>, r], put_bucket ?k n m (bucket_ttl f64 (of_int ?R) (of_int ?B)) w)"
    unfolding run_script_Inr
    by (intro exI [of _ w] exI [of _ "put_bucket ?k n m (bucket_ttl f64 (of_int ?R) (of_int ?B)) w"])
      (simp add: Keyspace_def ks_send_def)
  have bounds: "0 \<le> n" "n \<le> of_int ?B" "0 \<le> r" "r \<le> 1000"
    using f64.step_bounds [OF assms(10) _ _ _ assms(9)] assms by auto
  then have "wrap64 (r * Millisecond) = r * Millisecond" by (simp add: duration_units int64_defs)
  moreover have "Bucket_Valid b" using assms by (simp add: Bucket_Valid_def)
  ultimately show ?thesis
    using run bounds down assms(2,3) by (simp add: RedisStore_def Redis_Take_def holds_def)
qed

definition bucket_small :: "Store.bucket \<Rightarrow> bool" where
  "bucket_small b \<longleftrightarrow> 1 \<le> tb_Rate b \<and> tb_Rate b \<le> 2 ^ 20 \<and> 1 \<le> tb_Burst b \<and> tb_Burst b \<le> 2 ^ 20"

lemma call_times_mono: "list_all (\<lambda>t. m \<le> t) (call_times m ds)"
proof (induction m ds rule: call_times.induct)
  case (2 m d ds)
  then show ?case by (auto simp: list_all_iff)
qed simp

lemma call_times_sorted: "sorted (call_times m ds)"
proof (induction m ds rule: call_times.induct)
  case (2 m d ds)
  then show ?case using call_times_mono [of "m + int d" ds] by (auto simp: list_all_iff)
qed simp

lemma call_times_length [simp]: "length (call_times m ds) = length ds"
  by (induction m ds rule: call_times.induct) simp_all

lemma call_times_last: "last (m # call_times m ds) = m + int (sum_list ds)"
  by (induction m ds rule: call_times.induct) auto

lemma call_times_bound: "m + int (sum_list ds) \<le> u \<Longrightarrow> list_all (\<lambda>t. t \<le> u) (call_times m ds)"
  by (induction m ds rule: call_times.induct) auto

lemma take_run_bucket:
  assumes "holds (tb_key pre k) (tb_Rate b) (tb_Burst b) st w" "bucket_inv (of_int (tb_Burst b)) st"
    and "ks_time w = m * Millisecond" "0 \<le> m" "m + int (sum_list ds) \<le> 2 ^ 53" "bucket_small b"
  shows "map admitted (take_run pre k b ds w) =
    bucket_run f64 (of_int (tb_Rate b)) (of_int (tb_Burst b)) st (map of_int (call_times m ds))"
  using assms
proof (induction ds arbitrary: st w m)
  case (Cons d ds)
  let ?w = "lift_wait Waiting (d * nat Millisecond) w" and ?m = "m + int d"
  obtain a n r where st: "bucket_step f64 (of_int (tb_Rate b)) (of_int (tb_Burst b)) (of_int ?m) st = (a, n, r)"
    by (metis prod_cases3)
  have b: "1 \<le> tb_Rate b" "tb_Rate b \<le> 2 ^ 20" "1 \<le> tb_Burst b" "tb_Burst b \<le> 2 ^ 20"
    using Cons.prems(6) by (simp_all add: bucket_small_def)
  have time: "ks_time ?w = ?m * Millisecond"
    using Cons.prems(3) by (cases w) (auto simp: Waiting_def duration_units split: prod.splits)
  have m: "0 \<le> ?m" "?m \<le> 2 ^ 53" using Cons.prems(4,5) by auto
  obtain w' where t: "st_Take (RedisStore Keyspace pre) k b ?w =
      (Ret \<lparr>tr_Allowed = (a = 1), tr_Remaining = \<lfloor>n\<rfloor>, tr_RetryAfter = r * Millisecond\<rparr> None, w')"
    and w': "ks_time w' = ks_time ?w" "holds (tb_key pre k) (tb_Rate b) (tb_Burst b) (Some n, Some (of_int ?m)) w'"
    using Redis_Take_step [OF holds_wait [OF Cons.prems(1)] time m b st Cons.prems(2)] by blast
  have "0 \<le> n \<and> n \<le> of_int (tb_Burst b)" and a: "a = 1 \<or> a = 0"
    using f64.step_bounds [OF Cons.prems(2) _ _ _ st] b by auto
  then have inv: "bucket_inv (of_int (tb_Burst b)) (Some n, Some (of_int ?m))" by (simp add: bucket_inv_def)
  have "map admitted (take_run pre k b ds w') = bucket_run f64 (of_int (tb_Rate b)) (of_int (tb_Burst b))
      (Some n, Some (of_int ?m)) (map of_int (call_times ?m ds))"
    using Cons.prems w' time m by (intro Cons.IH [OF w'(2) inv]) auto
  moreover have "admitted (Ret \<lparr>tr_Allowed = (a = 1), tr_Remaining = \<lfloor>n\<rfloor>, tr_RetryAfter = r * Millisecond\<rparr> None) = a"
    using a by (auto simp: admitted_def)
  ultimately show ?case using t st by simp
qed simp

lemma holds_start: "holds k rate burst (None, None) (ks_empty, s)"
  by (simp add: holds_def ks_empty_def)

lemma take_refines_bucket_run:
  assumes "bucket_small b" "0 \<le> m" "m + int (sum_list ds) \<le> 2 ^ 53"
  shows "map admitted (take_run pre k b ds (ks_empty, (m * Millisecond, []))) =
    bucket_run f64 (of_int (tb_Rate b)) (of_int (tb_Burst b)) (None, None) (map of_int (call_times m ds))"
  using assms by (intro take_run_bucket holds_start) (simp_all add: bucket_inv_def)

subsection \<open>Properties\<close>









end
