(* ===== verification/Spec2Isabelle.thy ===== *)
theory Spec2Isabelle
  imports Serving Concurrent RedisTake
begin

text \<open>
  A verification of \<open>forwardlimit\<close>, a rate limiter that a reverse proxy consults by ForwardAuth: the
  proxy sends every request to \<open>/check\<close>, a 200 lets the request through and a 4xx or 5xx refuses it.

  \<^bold>\<open>The program.\<close> A request is turned into a \<open>Request\<close> (\<open>internal/limiter/request.go\<close>); the engine
  (\<open>engine.go\<close>) runs the configured limiters over it in order. A limiter (\<open>limiter.go\<close>) has a scope of
  paths and methods, a keyer (\<open>keyer/keyer.go\<close>) that extracts a bucket, and a window rule or a token
  bucket, which it puts to a store (\<open>internal/store\<close>). In production the store is Redis
  (\<open>redisstore\<close>, two Lua scripts), behind a circuit breaker (\<open>breaker\<close>), behind a cache of blocks
  (\<open>blockcache\<close>); \<open>cmd/forwardlimit/main.go\<close> assembles them from the environment (\<open>config/config.go\<close>)
  and from a file of limiters (\<open>config/file.go\<close>, \<open>config/build.go\<close>). The design fails open: whatever
  goes wrong, the request is allowed.

  \<^bold>\<open>The theories\<close>, each named after the part it models; definitions keep the names of the source, with
  the package in front where two packages share one (\<open>Breaker_Consume\<close>, \<open>BlockCache_Consume\<close>).

  \<^item> \<open>Prelude\<close>, \<open>GoStrings\<close>, \<open>GoParse\<close>, \<open>GoNet\<close>, \<open>GoPath\<close>, \<open>Float64\<close>, \<open>Sha256\<close>: what the source uses of Go and
    its library: durations, 64-bit wrap-around, clocks, errors and panics as values, byte strings,
    white space, number and duration parsing, IP addresses, path cleaning, double rounding, HMAC-SHA-256.
  \<^item> \<open>Store\<close>: rules, buckets, keys, the interface as a record of state-passing operations, and the
    contracts: \<open>timed_store\<close>, \<open>blocking_store\<close> (a reported block is kept), \<open>keyed_store\<close> (a limiter's
    state is its own). \<open>Fake\<close> is \<open>storetest/fake.go\<close> and interprets them.
  \<^item> \<open>Breaker\<close>, \<open>BlockCache\<close>: the decorators, as operations and as step relations over the
    interleavings of their critical sections, with their invariants; each is a \<open>sublocale\<close> that
    passes the contract of the store below on.
  \<^item> \<open>RedisStore\<close>: both scripts command by command over a record of Redis commands; \<open>RedisLaws\<close> states
    the documented laws of a server (\<open>redis_server\<close>) and proves the contract from them; \<open>RedisRef\<close> is a
    reference keyspace that satisfies the laws. \<open>TokenBucket\<close> and \<open>RedisTake\<close> are the arithmetic of
    \<open>Take\<close> under rounding, \<open>FakeRedis\<close> the agreement of the fake with the window script, \<open>WindowBound\<close>
    what a window lets through over time. \<open>Stack\<close> composes the chain.
  \<^item> \<open>Request\<close>, \<open>Keyer\<close>, \<open>Limiter\<close>, \<open>Engine\<close>: extraction with its shared caches, refined to a
    function of the request; scope matching against a declarative coverage; the evaluation loop.
    \<open>Concurrent\<close> interleaves the turns of many evaluations on one store.
  \<^item> \<open>Observability\<close>, \<open>Http\<close>: metrics, the response writer and the handlers, with recovery.
  \<^item> \<open>EnvConfig\<close>, \<open>FileConfig\<close>, \<open>Build\<close>, \<open>Wiring\<close>: configuration, validation, construction, the
    command line and start-up. \<open>Serving\<close> is the life of a serving process: the goroutines of \<open>main.go\<close>
    (\<open>serve\<close>, its listener and handlers, \<open>publishStoreMetrics\<close>, the cache's sweeper) as turns that
    come in any order, with signal, shutdown, deferred calls and exit code.
  \<^item> this theory: the properties that span them.

  \<^bold>\<open>What is shown.\<close> A block reported by the assembled store lasts; the window admits its limit and the
  bucket its burst and rate; the fake and Redis agree; a request is rejected exactly for cause, and
  never while the store fails; dry runs change nothing; the reply is 200 or a configured refusal;
  extraction does not depend on the order of the keyers; validation is exact and a validated file
  builds; a loaded configuration is sound; the breaker trips, suppresses and recovers and the cache is
  bounded, for every interleaving; a span as long as window and block holds at most twice the limit,
  also when evaluations run at the same time; once the signal is taken the process ends by the
  deadline, a clean exit has answered every accepted request, and \<open>-validate\<close> predicts the start. Some
  theorems state where the code does less than it means to: a
  panic during a probe wedges the breaker, two probes can be out at once, the largest body limit
  wraps, an empty hash tag splits a script's keys.

  \<^bold>\<open>Bounds and parameters.\<close> In \<open>Serving\<close> a handler runs in one turn, and time does not pass while the main
  goroutine has something to do: that is the scheduler's promptness, which the deadline rests on. In
  \<open>Concurrent\<close> a turn of the engine's loop is atomic, as its one store call is. No definition needs fuel: every loop is structural or has a measure. Time is
  an integer of nanoseconds; a clock is a function on the world, so that readings may advance between
  any two steps. The slack of \<open>production_block_lasts\<close> is two seconds (Redis reports whole seconds, and
  rounds), three round trips, and the lag of the clock reading the cache takes. The token-bucket
  theorems need rate and burst up to \<open>2 ^ 20\<close>, which validation (at most a million) implies, and times
  below \<open>2 ^ 53\<close> milliseconds, where doubles are exact. Arguments of the model stand for code that is
  not the program's: the Redis server and client, the YAML and JSON decoders, the file system,
  certificates, the Unicode case tables beyond ASCII, the iteration order of maps.

  \<^bold>\<open>Not modelled.\<close> Contexts and their deadlines (a timeout is an error the store returns), the
  Prometheus registry, its exposition, histogram buckets and runtime collectors, the formatting of
  log lines and most of the wording of error messages (which errors arise, and in which order, is
  modelled), percent escapes in the path of the check request itself, the sockets under the listener
  (accepting and failing are events) with the server's header and idle timeouts, and the memory use
  of a body.
\<close>

section \<open>Start-up and the reply\<close>


text \<open>A host whose configuration file decodes to \<open>demo_file\<close> and whose environment sets a secret.\<close>

definition demo_host :: world_host where
  "demo_host = \<lparr>wh_env = demo_env(''HASH_SECRET'' := ''s3cret''), wh_stat = (\<lambda>_. None), wh_read = (\<lambda>_. Inr ''yaml''),
     wh_yaml = (\<lambda>_. Inr demo_file), wh_get = (\<lambda>_. Inr 200), wh_lib = plain_lib\<rparr>"

lemma demo_host_readable: "readable (wh_stat demo_host) (wh_read demo_host)"
  by (simp add: demo_host_def readable_def)

lemma demo_host_serves: "\<exists>c b lg. run demo_host [] = Serves c b lg"
proof -
  have "(case run demo_host [] of Serves c b lg \<Rightarrow> True | _ \<Rightarrow> False)" by code_simp
  then show ?thesis by (cases "run demo_host []") auto
qed




section \<open>Dry runs\<close>



section \<open>The store in production\<close>

text \<open>C1. A block lasts: whatever decorators the configuration puts around the Redis store, a bucket that
  was reported blocked with a wait is refused by every later call that is answered before that wait
  is over, less two seconds, three round trips and the lag of a clock reading, whatever other calls and
  pauses come between.\<close>

theorem production_block_lasts:
  assumes "redis_server now time_of wait (dial client) expiry trip"
    and "\<And>w t w'. now w = (t, w') \<Longrightarrow> t \<le> time_of w + lag"
    and "rc_Enabled (cfg_Redis c)" "Redis_New H (store_config_of (cfg_Redis c)) = Inr (client, pre)"
    and "buildStore H dial now c w0 = (bs, w1)"
    and "list_all op_good ps" "list_all op_good qs" "good_key k"
    and "st_Consume (bs_store bs) k r (run_ops (bs_store bs) (lift_wait (lift_wait wait)) ps (fresh_chain c w1))
           = (Ret res None, x1)" "res_Blocked res"
    and "st_Consume (bs_store bs) k r' (run_ops (bs_store bs) (lift_wait (lift_wait wait)) qs x1) = (Ret res' None, x2)"
    and "chain_time time_of x2 < chain_time time_of x1 + res_RetryAfter res - (2 * Second + 3 * trip + lag)"
  shows "res_Blocked res'"
proof -
  have R: "redis_store now time_of wait (dial client) expiry trip" using assms(1) by (simp add: redis_store_def)
  have bs: "bs_store bs = store_chain (bk_Threshold (cfg_Breaker c) > 0) (cc_Enabled (cfg_BlockCache c)) now
      (RedisStore (dial client) pre)"
    using assms(3-5) by (auto simp: buildStore_def Let_def split: prod.splits)
  have "\<exists>J. blocking_store (lift_clock (lift_clock now)) (chain_time time_of) (bs_store bs) (lift_wait (lift_wait wait))
      J (\<lambda>x. redis_store.marked expiry pre (snd (snd x))) (2 * Second + 3 * trip + lag) \<and>
      (\<forall>n ttl br w. True \<longrightarrow> J (BlockCache_New n ttl, br, w))"
    unfolding bs by (rule chain_contract, rule redis_store.rs_blocking [OF R], erule assms(2))
  then obtain J where J: "blocking_store (lift_clock (lift_clock now)) (chain_time time_of) (bs_store bs)
      (lift_wait (lift_wait wait)) J (\<lambda>x. redis_store.marked expiry pre (snd (snd x))) (2 * Second + 3 * trip + lag)"
    "\<forall>n ttl br w. J (BlockCache_New n ttl, br, w)" by blast
  have "J (fresh_chain c w1)" using J(2) by (simp add: fresh_chain_def)
  from blocking_store.block_lasts_from [OF J(1) this assms(6-12)] show ?thesis .
qed

text \<open>The default configuration over the reference keyspace, with a clock whose readings lag three ticks.\<close>

definition default_config :: config where "default_config = fst (load_values (\<lambda>_. []))"

definition no_tls :: tls_host where
  "no_tls = \<lparr>th_ReadFile = (\<lambda>_. Inl ErrDisabled), th_AppendCertsFromPEM = (\<lambda>_. False), th_LoadX509KeyPair = (\<lambda>_ _. Inl ErrDisabled)\<rparr>"

abbreviation demo_clock :: "ks_world clock" where "demo_clock \<equiv> lift_clock (Prompt 3)"

definition demo_start :: ks_world where "demo_start = (ks_empty, (5, [2, 1, 3]))"

definition demo_built :: "ks_world built_store" where
  "demo_built = fst (buildStore no_tls (\<lambda>_. Keyspace) demo_clock default_config demo_start)"

abbreviation demo_wait :: "nat \<Rightarrow> ks_world chain \<Rightarrow> ks_world chain" where "demo_wait \<equiv> lift_wait (lift_wait (lift_wait Waiting))"

definition demo_rule :: rule where "demo_rule = \<lparr>rule_Limit = 1, rule_Window = Minute, rule_Block = 30 * Second\<rparr>"

definition demo_key :: "string \<Rightarrow> key" where "demo_key b = \<lparr>key_Limiter = ''login'', key_Bucket = b\<rparr>"

text \<open>One call is counted, the second is blocked; then another bucket is used, time passes, and a third comes.\<close>

definition demo_first :: "result ret \<times> ks_world chain" where
  "demo_first = st_Consume (bs_store demo_built) (demo_key ''a'') demo_rule
     (run_ops (bs_store demo_built) demo_wait [OpConsume (demo_key ''a'') demo_rule] (fresh_chain default_config demo_start))"

definition demo_second :: "result ret \<times> ks_world chain" where
  "demo_second = st_Consume (bs_store demo_built) (demo_key ''a'') demo_rule
     (run_ops (bs_store demo_built) demo_wait [OpConsume (demo_key ''b'') demo_rule, OpWait 7] (snd demo_first))"

lemma demo_lag: "lift_clock (Prompt lag) w = (t, w') \<Longrightarrow> t \<le> ks_time w + int lag"
  by (cases w) (auto simp: lift_clock_eq dest: Prompt_lag)

definition blocked_for :: "duration \<Rightarrow> result ret \<Rightarrow> bool" where
  "blocked_for d x = (case x of Ret res None \<Rightarrow> res_Blocked res \<and> res_RetryAfter res = d | _ \<Rightarrow> False)"

definition answered :: "result ret \<Rightarrow> bool" where
  "answered x = (case x of Ret res None \<Rightarrow> True | _ \<Rightarrow> False)"

lemma blocked_for_obtain: "blocked_for d x \<Longrightarrow> \<exists>res. x = Ret res None \<and> res_Blocked res \<and> res_RetryAfter res = d"
  by (auto simp: blocked_for_def split: ret.splits option.splits)

lemma answered_obtain: "answered x \<Longrightarrow> \<exists>res. x = Ret res None"
  by (auto simp: answered_def split: ret.splits option.splits)

lemma default_config_client:
  "rc_Enabled (cfg_Redis default_config)" "\<exists>cl pre. Redis_New no_tls (store_config_of (cfg_Redis default_config)) = Inr (cl, pre)"
proof -
  show "rc_Enabled (cfg_Redis default_config)" by code_simp
  have "\<not> isl (Redis_New no_tls (store_config_of (cfg_Redis default_config)))" by code_simp
  then show "\<exists>cl pre. Redis_New no_tls (store_config_of (cfg_Redis default_config)) = Inr (cl, pre)"
    by (cases "Redis_New no_tls (store_config_of (cfg_Redis default_config))") auto
qed

lemma demo_build: "buildStore no_tls (\<lambda>_. Keyspace) demo_clock default_config demo_start = (demo_built, demo_start)"
proof -
  have "fst (snd (buildStore no_tls (\<lambda>_. Keyspace) demo_clock default_config demo_start)) = fst demo_start \<and>
      snd (snd (buildStore no_tls (\<lambda>_. Keyspace) demo_clock default_config demo_start)) = snd demo_start"
    using default_config_client
    by (auto simp: buildStore_def Redis_Ping_def Keyspace_def ks_send_def demo_start_def ks_empty_def Let_def)
  then show ?thesis by (simp add: demo_built_def prod_eq_iff)
qed

theorem production_block_lasts_witness:
  "\<exists>res. fst demo_second = Ret res None \<and> res_Blocked res"
proof -
  have "blocked_for (30 * Second) (fst demo_first)" by code_simp
  from blocked_for_obtain [OF this] obtain res1 where f: "fst demo_first = Ret res1 None" "res_Blocked res1"
    "res_RetryAfter res1 = 30 * Second" by blast
  have "answered (fst demo_second)" by code_simp
  from answered_obtain [OF this] obtain res2 where g: "fst demo_second = Ret res2 None" by blast
  obtain cl pre where new: "Redis_New no_tls (store_config_of (cfg_Redis default_config)) = Inr (cl, pre)"
    using default_config_client(2) by blast
  have server: "redis_server demo_clock (\<lambda>w. ks_time w) (lift_wait Waiting) ((\<lambda>_. Keyspace) cl) ks_expiry 0"
    by (rule keyspace.redis_server_axioms)
  have good: "list_all op_good [OpConsume (demo_key ''a'') demo_rule]"
    "list_all op_good [OpConsume (demo_key ''b'') demo_rule, OpWait 7]" "good_key (demo_key ''a'')" by code_simp+
  have time: "chain_time (\<lambda>w. ks_time w) (snd demo_second) <
      chain_time (\<lambda>w. ks_time w) (snd demo_first) + res_RetryAfter res1 - (2 * Second + 3 * 0 + int 3)"
    unfolding f(3) by code_simp
  have first: "st_Consume (bs_store demo_built) (demo_key ''a'') demo_rule (run_ops (bs_store demo_built) demo_wait
      [OpConsume (demo_key ''a'') demo_rule] (fresh_chain default_config demo_start)) = (Ret res1 None, snd demo_first)"
    unfolding demo_first_def [symmetric] f(1) [symmetric] by simp
  have second: "st_Consume (bs_store demo_built) (demo_key ''a'') demo_rule (run_ops (bs_store demo_built) demo_wait
      [OpConsume (demo_key ''b'') demo_rule, OpWait 7] (snd demo_first)) = (Ret res2 None, snd demo_second)"
    unfolding demo_second_def [symmetric] g [symmetric] by simp
  have "res_Blocked res2"
    by (rule production_block_lasts [OF server _ default_config_client(1) new demo_build good first f(2) second time])
      (rule demo_lag)
  with g show ?thesis by blast
qed

section \<open>The life of a process\<close>

text \<open>C15. The pre-flight check tells the truth: \<open>-validate\<close> exits with code zero exactly when the service
  would start with the same environment and the same file.\<close>

theorem validate_predicts_start:
  assumes "service_args argv"
  shows "(\<exists>out. start_exit (run W (''-validate'' # argv)) = Some (out, None, 0)) \<longleftrightarrow> (\<exists>c b lg. run W argv = Serves c b lg)"
  using validate_code [OF assms] validate_serves [OF assms] by blast

theorem validate_predicts_start_witness:
  "\<exists>out. start_exit (run demo_host [''-validate'']) = Some (out, None, 0)"
  using validate_predicts_start [of "[]" demo_host] demo_host_serves by (simp add: service_args_def)

lemma served_life:
  assumes "readable (wh_stat W) (wh_read W)" "run W argv = Serves c b lg"
    and "start_life H dial now wait U ex c b t w = (su, p0)" "life_reach su p0 p"
  shows "life_inv p" "0 \<le> cfg_ShutdownTimeout (su_config su)" "list_all answered_well (lf_answers p)"
proof -
  have c: "0 < cfg_ShutdownTimeout c" "built_ok (wh_lib W) (cfg_HashSecret c) b"
    using run_cases [OF assms(1), of argv] assms(2) by (auto simp: servable_def config_ok_def)
  have su: "su_config su = c" "su_handler su = make_handler c b (bs_store (su_store su))" "lf_answers p0 = []"
    using assms(3) by (auto simp: start_life_def split: prod.splits)
  show t: "0 \<le> cfg_ShutdownTimeout (su_config su)" using c(1) su(1) by simp
  show "life_inv p" using life_reach_inv [OF assms(4) start_life_inv [OF assms(3)] t] .
  show "list_all answered_well (lf_answers p)" using life_reach_answered [OF assms(4) c(2) su(2,3)] .
qed



definition demo_life :: "config \<Rightarrow> built \<Rightarrow> ks_world service \<times> ks_world life" where
  "demo_life c b = start_life no_tls (\<lambda>_. Keyspace) demo_clock (lift_wait Waiting) plain_unicode (\<lambda>_. []) c b 0 demo_start"

definition demo_live :: "life_event list \<Rightarrow> ks_world life option" where
  "demo_live evs = (case run demo_host [] of
     Serves c b lg \<Rightarrow> (case demo_life c b of (su, p) \<Rightarrow> life_run su evs p)
   | _ \<Rightarrow> None)"

lemma demo_live_reach:
  assumes "demo_live evs = Some p"
  obtains c b lg su p0 where "run demo_host [] = Serves c b lg" "demo_life c b = (su, p0)" "life_reach su p0 p"
  using assms by (auto simp: demo_live_def split: start.splits prod.splits intro: life_run_reach)

definition in_phase :: "(phase \<Rightarrow> bool) \<Rightarrow> ks_world life option \<Rightarrow> bool" where
  "in_phase P x = (case x of Some p \<Rightarrow> P (lf_phase p) | None \<Rightarrow> False)"

lemma in_phase_obtain: "in_phase P x \<Longrightarrow> \<exists>p. x = Some p \<and> P (lf_phase p)"
  by (auto simp: in_phase_def split: option.splits)



end
